(* ===== verification/Prelude.thy ===== *)
theory Prelude
  imports Main "HOL-Library.Word"
begin

text \<open>
  Shared vocabulary of the development: the machine types of the C sources, a sum type for
  undefined behaviour, checked array accesses, the big- and little-endian field accesses the
  network and file-format code performs, and the generic facts about words and lists that
  the component theories rely on.

  An array access outside its object is undefined behaviour in C.  In the models it is the
  value \<open>Inl OutOfBounds\<close>, so a theorem that an operation returns \<open>Inr\<close> says in
  particular that the code stays inside its buffers.
\<close>

unbundle bit_operations_syntax

named_theorems c_result \<open>inversion of results built with the error sum\<close>
named_theorems buffer_simps \<open>reading and writing byte buffers\<close>

section \<open>Machine types\<close>

type_synonym byte = "8 word"
type_synonym u8 = "8 word"
type_synonym u16 = "16 word"
type_synonym u32 = "32 word"
type_synonym u64 = "64 word"

text \<open>The ways in which the modelled code can leave the defined behaviour of C, or stop.\<close>

datatype c_error =
    OutOfBounds      \<comment> \<open>access outside an array or a mapping\<close>
  | UseAfterFree     \<comment> \<open>access to memory that is not (or no longer) allocated\<close>
  | NullDeref        \<comment> \<open>access through a null pointer\<close>
  | AssertFailed     \<comment> \<open>a failed \<open>assert\<close>\<close>
  | BadContext       \<comment> \<open>activation of a context that was not prepared\<close>
  | DivByZero        \<comment> \<open>integer division by zero\<close>
  | DecodeError      \<comment> \<open>bytes that the charset of a decoder does not allow\<close>

type_synonym 'a c_res = "c_error + 'a"

section \<open>Sequencing of fallible operations\<close>

definition bindE :: "'e + 'a \<Rightarrow> ('a \<Rightarrow> 'e + 'b) \<Rightarrow> 'e + 'b" where
  "bindE m f = (case m of Inl e \<Rightarrow> Inl e | Inr x \<Rightarrow> f x)"

lemma bindE_simps [simp]:
  "bindE (Inl e) f = Inl e"
  "bindE (Inr x) f = f x"
  by (simp_all add: bindE_def)

lemma bindE_Inr_iff [c_result]: "bindE m f = Inr y \<longleftrightarrow> (\<exists>x. m = Inr x \<and> f x = Inr y)"
  by (cases m) auto

lemma bindE_Inl_iff [c_result]:
  "bindE m f = Inl e \<longleftrightarrow> m = Inl e \<or> (\<exists>x. m = Inr x \<and> f x = Inl e)"
  by (cases m) auto

lemma bindE_assoc: "bindE (bindE m f) g = bindE m (\<lambda>x. bindE (f x) g)"
  by (cases m) auto

lemma bindE_cong [fundef_cong]:
  "m = m' \<Longrightarrow> (\<And>x. m' = Inr x \<Longrightarrow> f x = f' x) \<Longrightarrow> bindE m f = bindE m' f'"
  by (cases m') auto

text \<open>The loop over a list that stops at the first failure.\<close>

fun foldE :: "('a \<Rightarrow> 's \<Rightarrow> 'e + 's) \<Rightarrow> 'a list \<Rightarrow> 's \<Rightarrow> 'e + 's" where
  "foldE f [] s = Inr s"
| "foldE f (x # xs) s = bindE (f x s) (foldE f xs)"

fun mapE :: "('a \<Rightarrow> 'e + 'b) \<Rightarrow> 'a list \<Rightarrow> 'e + 'b list" where
  "mapE f [] = Inr []"
| "mapE f (x # xs) = bindE (f x) (\<lambda>y. bindE (mapE f xs) (\<lambda>ys. Inr (y # ys)))"

lemma foldE_append [simp]: "foldE f (xs @ ys) s = bindE (foldE f xs s) (foldE f ys)"
proof (induction xs arbitrary: s)
  case (Cons x xs)
  then show ?case by (cases "f x s") auto
qed simp

lemma foldE_map: "foldE f (map g xs) s = foldE (\<lambda>x. f (g x)) xs s"
proof (induction xs arbitrary: s)
  case (Cons x xs)
  then show ?case by (cases "f (g x) s") auto
qed simp

lemma mapE_Inr_iff [c_result]:
  "mapE f xs = Inr ys \<longleftrightarrow> length ys = length xs \<and> (\<forall>i < length xs. f (xs ! i) = Inr (ys ! i))"
proof (induction xs arbitrary: ys)
  case Nil
  then show ?case by auto
next
  case (Cons x xs)
  show ?case
  proof (cases ys)
    case Nil
    then show ?thesis by (auto simp: bindE_Inr_iff)
  next
    case (Cons y zs)
    have "mapE f (x # xs) = Inr (y # zs) \<longleftrightarrow> f x = Inr y \<and> mapE f xs = Inr zs"
      by (auto simp: bindE_Inr_iff)
    with Cons.IH [of zs] Cons show ?thesis
      by (auto simp: nth_Cons less_Suc_eq_0_disj split: nat.splits)
  qed
qed

lemma mapE_ok: "(\<And>x. x \<in> set xs \<Longrightarrow> f x = Inr (g x)) \<Longrightarrow> mapE f xs = Inr (map g xs)"
  by (induction xs) auto

lemma mapE_total: "(\<And>x. x \<in> set xs \<Longrightarrow> \<exists>y. f x = Inr y) \<Longrightarrow> \<exists>ys. mapE f xs = Inr ys"
  by (induction xs) (fastforce simp: bindE_Inr_iff)+

lemma bex_set_nth: "(\<exists>x \<in> set xs. P x) \<longleftrightarrow> (\<exists>i \<in> {0..<length xs}. P (xs ! i))"
proof -
  have "set xs = set (map ((!) xs) [0..<length xs])" by (simp only: map_nth)
  then have "set xs = (!) xs ` {0..<length xs}" by simp
  then show ?thesis by simp
qed

section \<open>Checked array accesses\<close>

definition rd :: "'a list \<Rightarrow> nat \<Rightarrow> 'a c_res" where
  "rd xs i = (if i < length xs then Inr (xs ! i) else Inl OutOfBounds)"

definition wr :: "'a list \<Rightarrow> nat \<Rightarrow> 'a \<Rightarrow> 'a list c_res" where
  "wr xs i x = (if i < length xs then Inr (xs[i := x]) else Inl OutOfBounds)"

text \<open>\<open>memcpy\<close> of \<open>ys\<close> to index \<open>i\<close> of the array \<open>xs\<close>.\<close>

definition wr_bytes :: "'a list \<Rightarrow> nat \<Rightarrow> 'a list \<Rightarrow> 'a list c_res" where
  "wr_bytes xs i ys =
     (if i + length ys \<le> length xs then Inr (take i xs @ ys @ drop (i + length ys) xs)
      else Inl OutOfBounds)"

definition rd_bytes :: "'a list \<Rightarrow> nat \<Rightarrow> nat \<Rightarrow> 'a list c_res" where
  "rd_bytes xs i n = (if i + n \<le> length xs then Inr (take n (drop i xs)) else Inl OutOfBounds)"

lemma rd_Inr [c_result]: "rd xs i = Inr x \<longleftrightarrow> i < length xs \<and> xs ! i = x"
  by (auto simp: rd_def)

lemma rd_Inl [c_result]: "rd xs i = Inl e \<longleftrightarrow> length xs \<le> i \<and> e = OutOfBounds"
  by (auto simp: rd_def)

lemma rd_ok [buffer_simps]: "i < length xs \<Longrightarrow> rd xs i = Inr (xs ! i)"
  by (simp add: rd_def)

lemma rd_append [buffer_simps]:
  "rd (xs @ ys) i = (if i < length xs then rd xs i else rd ys (i - length xs))"
  by (auto simp: rd_def nth_append)

lemma rd_Cons [buffer_simps]: "rd (x # xs) i = (case i of 0 \<Rightarrow> Inr x | Suc j \<Rightarrow> rd xs j)"
  by (auto simp: rd_def split: nat.splits)

lemma rd_at_append [simp]: "rd (xs @ y # ys) (length xs) = Inr y"
  by (simp add: rd_def)

lemma wr_Inr [c_result]: "wr xs i x = Inr ys \<longleftrightarrow> i < length xs \<and> ys = xs[i := x]"
  by (auto simp: wr_def)

lemma wr_bytes_Inr [c_result]:
  "wr_bytes xs i ys = Inr zs \<longleftrightarrow>
     i + length ys \<le> length xs \<and> zs = take i xs @ ys @ drop (i + length ys) xs"
  by (auto simp: wr_bytes_def)

lemma rd_bytes_Inr [c_result]:
  "rd_bytes xs i n = Inr ys \<longleftrightarrow> i + n \<le> length xs \<and> ys = take n (drop i xs)"
  by (auto simp: rd_bytes_def)

lemma wr_at_prefix: "length xs = i \<Longrightarrow> ys \<noteq> [] \<Longrightarrow> wr (xs @ ys) i x = Inr (xs @ x # tl ys)"
  by (cases ys) (auto simp: wr_def list_update_append)

section \<open>Byte order\<close>

text \<open>
  \<open>(uint16_t)hi << 8 | lo\<close> and its 32-bit analogue, and the bytes \<open>htons\<close> followed by
  \<open>memcpy\<close> leaves in memory.
\<close>

definition be16_of :: "byte \<Rightarrow> byte \<Rightarrow> u16" where
  "be16_of a b = push_bit 8 (ucast a) OR ucast b"

definition be16_bytes :: "u16 \<Rightarrow> byte list" where
  "be16_bytes w = [ucast (drop_bit 8 w), ucast w]"

definition be32_of :: "byte \<Rightarrow> byte \<Rightarrow> byte \<Rightarrow> byte \<Rightarrow> u32" where
  "be32_of a b c d =
     push_bit 24 (ucast a) OR push_bit 16 (ucast b) OR push_bit 8 (ucast c) OR ucast d"

definition be32_bytes :: "u32 \<Rightarrow> byte list" where
  "be32_bytes w =
     [ucast (drop_bit 24 w), ucast (drop_bit 16 w), ucast (drop_bit 8 w), ucast w]"

text \<open>Little-endian objects of any size, as the ELF structures hold them in memory.\<close>

fun le_of :: "byte list \<Rightarrow> 'a::len word" where
  "le_of [] = 0"
| "le_of (b # bs) = ucast b OR push_bit 8 (le_of bs)"

fun le_bytes :: "nat \<Rightarrow> 'a::len word \<Rightarrow> byte list" where
  "le_bytes 0 w = []"
| "le_bytes (Suc n) w = ucast w # le_bytes n (drop_bit 8 w)"

lemma length_be16_bytes [simp]: "length (be16_bytes w) = 2"
  by (simp add: be16_bytes_def)

lemma length_be32_bytes [simp]: "length (be32_bytes w) = 4"
  by (simp add: be32_bytes_def)

lemma length_le_bytes [simp]: "length (le_bytes n w) = n"
  by (induction n arbitrary: w) auto

lemma be16_roundtrip [simp]: "be16_of (ucast (drop_bit 8 w)) (ucast w) = w"
  unfolding be16_of_def by (rule bit_word_eqI) (auto simp: bit_simps)

lemma be32_roundtrip [simp]:
  "be32_of (ucast (drop_bit 24 w)) (ucast (drop_bit 16 w)) (ucast (drop_bit 8 w)) (ucast w) = w"
proof (rule bit_word_eqI)
  fix n assume "n < LENGTH(32)"
  then consider "n < 8" | "8 \<le> n" "n < 16" | "16 \<le> n" "n < 24" | "24 \<le> n" "n < 32"
    by fastforce
  then show "bit (be32_of (ucast (drop_bit 24 w)) (ucast (drop_bit 16 w)) (ucast (drop_bit 8 w))
      (ucast w)) n \<longleftrightarrow> bit w n"
    by cases (auto simp: be32_of_def bit_simps)
qed

lemma be16_inverse: "be16_bytes (be16_of a b) = [a, b]"
proof -
  have no: "\<not> bit b (8 + n)" for n
    using bit_imp_le_length [of b "8 + n"] by auto
  show ?thesis unfolding be16_of_def be16_bytes_def
    by (auto intro!: bit_word_eqI simp: bit_simps no)
qed

lemma bit_le_of:
  "bit (le_of (le_bytes n w) :: 'a::len word) i \<longleftrightarrow> i < 8 * n \<and> bit (w :: 'a word) i"
proof (induction n arbitrary: w i)
  case 0
  then show ?case by simp
next
  case (Suc n)
  show ?case
    by (auto simp: bit_simps Suc.IH dest: bit_imp_le_length)
qed

lemma le_roundtrip: "LENGTH('a) \<le> 8 * n \<Longrightarrow> le_of (le_bytes n (w :: 'a::len word)) = w"
  by (rule bit_word_eqI) (auto simp: bit_le_of)

subsection \<open>Fixed-width fields\<close>

text \<open>
  The contract between a writer and a reader of fields: every value has an encoding of a fixed
  number of bytes, and reading at an offset where the encoding was placed gives the value
  back.  The parsers read their fields through such readers, so the laws below are what the
  round trips of the component theories rest on.
\<close>

locale field_codec =
  fixes enc :: "'v \<Rightarrow> byte list"
    and dec :: "byte list \<Rightarrow> nat \<Rightarrow> 'v c_res"
    and width :: nat
  assumes enc_width: "length (enc v) = width"
    and dec_enc: "dec (pre @ enc v @ post) (length pre) = Inr v"
    and dec_total: "off + width \<le> length buf \<Longrightarrow> \<exists>v. dec buf off = Inr v"
    and dec_local: "take width (drop off buf) = take width (drop off buf') \<Longrightarrow>
      off + width \<le> length buf \<Longrightarrow> off + width \<le> length buf' \<Longrightarrow> dec buf off = dec buf' off"
begin

lemma dec_at: "take width (drop off buf) = enc v \<Longrightarrow> off + width \<le> length buf \<Longrightarrow> dec buf off = Inr v"
proof -
  assume a: "take width (drop off buf) = enc v" and b: "off + width \<le> length buf"
  have "buf = take off buf @ enc v @ drop (off + width) buf"
    by (metis a append_take_drop_id drop_drop add.commute)
  moreover have "length (take off buf) = off" using b by simp
  ultimately show ?thesis using dec_enc [of "take off buf" v "drop (off + width) buf"] by metis
qed

lemma enc_inj: "enc v = enc w \<Longrightarrow> v = w"
  using dec_enc [of "[]" v "[]"] dec_enc [of "[]" w "[]"] by simp

lemma dec_written: "wr_bytes buf off (enc v) = Inr buf' \<Longrightarrow> dec buf' off = Inr v"
proof -
  assume a: "wr_bytes buf off (enc v) = Inr buf'"
  then have "buf' = take off buf @ enc v @ drop (off + width) buf" "off \<le> length buf"
    by (auto simp: wr_bytes_Inr enc_width)
  then show ?thesis using dec_enc [of "take off buf" v "drop (off + width) buf"] by simp
qed

end

definition be16 :: "byte list \<Rightarrow> nat \<Rightarrow> u16 c_res" where
  "be16 buf i = bindE (rd buf i) (\<lambda>a. bindE (rd buf (i + 1)) (\<lambda>b. Inr (be16_of a b)))"

definition be32 :: "byte list \<Rightarrow> nat \<Rightarrow> u32 c_res" where
  "be32 buf i =
     bindE (rd buf i) (\<lambda>a. bindE (rd buf (i + 1)) (\<lambda>b.
     bindE (rd buf (i + 2)) (\<lambda>c. bindE (rd buf (i + 3)) (\<lambda>d. Inr (be32_of a b c d)))))"

definition le16 :: "byte list \<Rightarrow> nat \<Rightarrow> u16 c_res" where
  "le16 buf i = bindE (rd_bytes buf i 2) (\<lambda>bs. Inr (le_of bs))"

definition le32 :: "byte list \<Rightarrow> nat \<Rightarrow> u32 c_res" where
  "le32 buf i = bindE (rd_bytes buf i 4) (\<lambda>bs. Inr (le_of bs))"

definition le64 :: "byte list \<Rightarrow> nat \<Rightarrow> u64 c_res" where
  "le64 buf i = bindE (rd_bytes buf i 8) (\<lambda>bs. Inr (le_of bs))"

lemma be16_eq:
  "be16 buf i = (if i + 2 \<le> length buf then Inr (be16_of (buf ! i) (buf ! (i + 1))) else Inl OutOfBounds)"
  by (auto simp: be16_def rd_def)

lemma be32_eq:
  "be32 buf i = (if i + 4 \<le> length buf
     then Inr (be32_of (buf ! i) (buf ! (i + 1)) (buf ! (i + 2)) (buf ! (i + 3)))
     else Inl OutOfBounds)"
  by (auto simp: be32_def rd_def)

lemma nth_take_drop_cong:
  "take n (drop i xs) = take n (drop i ys) \<Longrightarrow> i + n \<le> length xs \<Longrightarrow> i + n \<le> length ys \<Longrightarrow>
   j < n \<Longrightarrow> xs ! (i + j) = ys ! (i + j)"
  by (metis add_leD1 nth_drop nth_take)

interpretation be16: field_codec be16_bytes be16 2
proof unfold_locales
  show "be16 (pre @ be16_bytes v @ post) (length pre) = Inr v" for pre v post
    by (simp add: be16_eq be16_bytes_def nth_append)
  show "be16 buf off = be16 buf' off"
    if "take 2 (drop off buf) = take 2 (drop off buf')" "off + 2 \<le> length buf" "off + 2 \<le> length buf'"
    for off buf buf'
    using nth_take_drop_cong [OF that, of 0] nth_take_drop_cong [OF that, of 1] that
    by (simp add: be16_eq)
qed (auto simp: be16_eq)

interpretation be32: field_codec be32_bytes be32 4
proof unfold_locales
  show "be32 (pre @ be32_bytes v @ post) (length pre) = Inr v" for pre v post
    by (simp add: be32_eq be32_bytes_def nth_append)
  show "be32 buf off = be32 buf' off"
    if "take 4 (drop off buf) = take 4 (drop off buf')" "off + 4 \<le> length buf" "off + 4 \<le> length buf'"
    for off buf buf'
    using nth_take_drop_cong [OF that, of 0] nth_take_drop_cong [OF that, of 1]
      nth_take_drop_cong [OF that, of 2] nth_take_drop_cong [OF that, of 3] that
    by (simp add: be32_eq)
qed (auto simp: be32_eq)

interpretation le16: field_codec "le_bytes 2" le16 2
  by unfold_locales (auto simp: le16_def rd_bytes_def le_roundtrip)

interpretation le32: field_codec "le_bytes 4" le32 4
  by unfold_locales (auto simp: le32_def rd_bytes_def le_roundtrip)

interpretation le64: field_codec "le_bytes 8" le64 8
  by unfold_locales (auto simp: le64_def rd_bytes_def le_roundtrip)

section \<open>Words\<close>

lemma unat_ucast_byte [simp]: "unat (ucast (b :: byte) :: u16) = unat b"
proof -
  have "unat b < 2 ^ 8" using unsigned_less [of b] by simp
  then show ?thesis by (simp add: unsigned_ucast_eq take_bit_nat_eq_self)
qed

lemma unat_two_power: "k < LENGTH('a) \<Longrightarrow> unat (2 ^ k :: 'a::len word) = 2 ^ k"
proof -
  assume "k < LENGTH('a)"
  then have "(2::nat) ^ k < 2 ^ LENGTH('a)" by simp
  then have "unat (of_nat (2 ^ k) :: 'a word) = 2 ^ k" by (simp only: unat_of_nat mod_less)
  then show ?thesis by simp
qed

lemma unat_mask_word: "k < LENGTH('a) \<Longrightarrow> unat (mask k :: 'a::len word) = 2 ^ k - 1"
proof -
  assume k: "k < LENGTH('a)"
  have "(1 :: 'a word) \<le> 2 ^ k"
    by (simp add: word_le_nat_alt unat_two_power [OF k])
  then show ?thesis
    by (simp add: mask_eq_exp_minus_1 unat_sub unat_two_power [OF k])
qed

lemma word_mod_eq_0_iff: "(p :: 'a::len word) mod q = 0 \<longleftrightarrow> unat q dvd unat p"
  by (metis unat_mod_distrib unat_eq_zero mod_eq_0_iff_dvd)

lemma and_not_mask_eq: "(x :: 'a::len word) AND NOT (mask n) = push_bit n (drop_bit n x)"
  by (rule bit_word_eqI) (auto simp: bit_simps)

lemma unat_and_not_mask: "unat ((x :: 'a::len word) AND NOT (mask n)) = unat x - unat x mod 2 ^ n"
proof -
  have e: "push_bit n (drop_bit n x) = x - take_bit n x"
    by (metis bits_ident add_diff_cancel_right')
  have t: "unat (take_bit n x) = unat x mod 2 ^ n"
    by (simp only: unsigned_take_bit_eq) (simp add: take_bit_eq_mod)
  then have "take_bit n x \<le> x"
    by (simp add: word_le_nat_alt)
  then show ?thesis
    by (simp add: and_not_mask_eq e unat_sub t)
qed

text \<open>Rounding up to a multiple of a power of two, on natural numbers.\<close>

definition round_up :: "nat \<Rightarrow> nat \<Rightarrow> nat" where
  "round_up a x = (x + a - 1) - (x + a - 1) mod a"

lemma round_up_dvd: "a dvd round_up a x"
  by (simp add: round_up_def minus_mod_eq_mult_div)

lemma round_up_ge: "0 < a \<Longrightarrow> x \<le> round_up a x"
proof -
  assume "0 < a"
  then have "(x + a - 1) mod a < a" by (rule mod_less_divisor)
  then show ?thesis unfolding round_up_def by linarith
qed

lemma round_up_less: "0 < a \<Longrightarrow> round_up a x < x + a"
  unfolding round_up_def by linarith

lemma round_up_idem: "0 < a \<Longrightarrow> a dvd x \<Longrightarrow> round_up a x = x"
proof -
  assume "0 < a" "a dvd x"
  then have "(x + a - 1) mod a = a - 1"
    by (metis (no_types, lifting) Nat.add_diff_assoc One_nat_def Suc_leI diff_Suc_less dvd_eq_mod_eq_0
        mod_add_eq mod_less mod_mod_trivial add.left_neutral)
  with \<open>0 < a\<close> show ?thesis by (simp add: round_up_def)
qed

lemma unat_uminus: "w \<noteq> 0 \<Longrightarrow> unat (- (w :: 'a::len word)) = 2 ^ LENGTH('a) - unat w"
proof -
  assume w: "w \<noteq> 0"
  have less: "unat w < 2 ^ LENGTH('a)" by (rule unsigned_less)
  have "w + of_nat k = of_nat (unat w + k)" for k by simp
  then have "w + of_nat (2 ^ LENGTH('a) - unat w) = of_nat (unat w + (2 ^ LENGTH('a) - unat w))" .
  also have "unat w + (2 ^ LENGTH('a) - unat w) = 2 ^ LENGTH('a)" using less by linarith
  also have "of_nat (2 ^ LENGTH('a)) = (0 :: 'a word)" by simp
  finally have "- w = of_nat (2 ^ LENGTH('a) - unat w)" by (rule minus_unique)
  moreover have "0 < unat w" using w by (simp add: unat_gt_0)
  ultimately show ?thesis using less by (simp add: unat_of_nat del: of_nat_diff)
qed

end
