(* ===== verification/Printf.thy ===== *)
theory Printf
  imports Prelude
begin

text \<open>
  The part of \<open>printf\<close> the programs use: unsigned and signed decimal, hexadecimal in both
  cases, field widths, and C strings read up to their terminating NUL.  Output is a list of
  lines of type \<open>string\<close>.  The number formats are injective, so a printed line determines
  the numbers it shows.
\<close>

section \<open>Positional digits\<close>

fun to_digits :: "nat \<Rightarrow> nat \<Rightarrow> nat list" where
  "to_digits b n = (if b < 2 \<or> n < b then [n] else to_digits b (n div b) @ [n mod b])"

declare to_digits.simps [simp del]

definition of_digits :: "nat \<Rightarrow> nat list \<Rightarrow> nat" where
  "of_digits b ds = foldl (\<lambda>a d. a * b + d) 0 ds"

lemma of_digits_snoc [simp]: "of_digits b (ds @ [d]) = of_digits b ds * b + d"
  by (simp add: of_digits_def)

lemma of_to_digits: "of_digits b (to_digits b n) = n"
proof (induction b n rule: to_digits.induct)
  case (1 b n)
  then show ?case
    by (cases "b < 2 \<or> n < b")
       (auto simp: to_digits.simps [of b n] div_mult_mod_eq, simp_all add: of_digits_def)
qed

lemma to_digits_less: "2 \<le> b \<Longrightarrow> d \<in> set (to_digits b n) \<Longrightarrow> d < b"
proof (induction b n rule: to_digits.induct)
  case (1 b n)
  then show ?case
    by (cases "n < b") (auto simp: to_digits.simps [of b n])
qed

definition digit_char :: "bool \<Rightarrow> nat \<Rightarrow> char" where
  "digit_char upper d =
     (if d < 10 then char_of (48 + d) else if upper then char_of (55 + d) else char_of (87 + d))"

lemma of_char_digit_char:
  "d < 16 \<Longrightarrow> (of_char (digit_char u d) :: nat) = (if d < 10 then 48 + d else if u then 55 + d else 87 + d)"
  by (auto simp: digit_char_def of_char_of)

lemma digit_char_inj: "d < 16 \<Longrightarrow> e < 16 \<Longrightarrow> digit_char u d = digit_char u e \<longleftrightarrow> d = e"
  by (auto simp: of_char_digit_char split: if_splits dest!: arg_cong [where f = "of_char :: char \<Rightarrow> nat"])

lemma digit_char_eval:
  "digit_char u 0 = CHR ''0''" "digit_char u (Suc 0) = CHR ''1''" "digit_char u 1 = CHR ''1''"
  "digit_char u 2 = CHR ''2''" "digit_char u 3 = CHR ''3''" "digit_char u 4 = CHR ''4''"
  "digit_char u 5 = CHR ''5''" "digit_char u 6 = CHR ''6''" "digit_char u 7 = CHR ''7''"
  "digit_char u 8 = CHR ''8''" "digit_char u 9 = CHR ''9''"
  "digit_char False 10 = CHR ''a''" "digit_char False 11 = CHR ''b''" "digit_char False 12 = CHR ''c''"
  "digit_char False 13 = CHR ''d''" "digit_char False 14 = CHR ''e''" "digit_char False 15 = CHR ''f''"
  "digit_char True 10 = CHR ''A''" "digit_char True 11 = CHR ''B''" "digit_char True 12 = CHR ''C''"
  "digit_char True 13 = CHR ''D''" "digit_char True 14 = CHR ''E''" "digit_char True 15 = CHR ''F''"
  by (simp_all add: digit_char_def char_of_def bit_0)

section \<open>Conversions\<close>

definition fmt_u :: "nat \<Rightarrow> string" where
  "fmt_u n = map (digit_char False) (to_digits 10 n)"

definition fmt_d :: "int \<Rightarrow> string" where
  "fmt_d i = (if i < 0 then CHR ''-'' # fmt_u (nat (- i)) else fmt_u (nat i))"

definition fmt_x :: "nat \<Rightarrow> string" where
  "fmt_x n = map (digit_char False) (to_digits 16 n)"

definition fmt_X :: "nat \<Rightarrow> string" where
  "fmt_X n = map (digit_char True) (to_digits 16 n)"

text \<open>\<open>%0<w>...\<close> and \<open>%<w>...\<close> pad on the left, \<open>%-<w>s\<close> on the right.\<close>

definition pad_left :: "char \<Rightarrow> nat \<Rightarrow> string \<Rightarrow> string" where
  "pad_left c w s = replicate (w - length s) c @ s"

definition pad_right :: "nat \<Rightarrow> string \<Rightarrow> string" where
  "pad_right w s = s @ replicate (w - length s) CHR '' ''"

lemma inj_map_digits:
  "map (digit_char u) ds = map (digit_char u) es \<Longrightarrow> (\<forall>d \<in> set ds. d < 16) \<Longrightarrow>
   (\<forall>e \<in> set es. e < 16) \<Longrightarrow> ds = es"
  by (rule list.inj_map_strong [of ds es "digit_char u" "digit_char u"])
     (auto simp: digit_char_inj)

lemma fmt_u_inj: "fmt_u m = fmt_u n \<longleftrightarrow> m = n"
proof
  assume "fmt_u m = fmt_u n"
  then have "to_digits 10 m = to_digits 10 n"
    unfolding fmt_u_def by (rule inj_map_digits) (force dest: to_digits_less [rotated])+
  then show "m = n" by (metis of_to_digits)
qed simp

lemma fmt_x_inj: "fmt_x m = fmt_x n \<longleftrightarrow> m = n"
proof
  assume "fmt_x m = fmt_x n"
  then have "to_digits 16 m = to_digits 16 n"
    unfolding fmt_x_def by (rule inj_map_digits) (force dest: to_digits_less [rotated])+
  then show "m = n" by (metis of_to_digits)
qed simp

lemma fmt_u_nonempty [simp]: "fmt_u n \<noteq> []"
  by (simp add: fmt_u_def to_digits.simps [of 10 n])

lemmas fmt_eval = fmt_u_def fmt_d_def fmt_x_def fmt_X_def to_digits.simps digit_char_eval
  pad_left_def pad_right_def

section \<open>C strings\<close>

text \<open>
  \<open>%s\<close> and \<open>strlen\<close> read up to the first NUL; running off the object is undefined.
\<close>

fun until_nul :: "byte list \<Rightarrow> byte list c_res" where
  "until_nul [] = Inl OutOfBounds"
| "until_nul (b # bs) = (if b = 0 then Inr [] else bindE (until_nul bs) (\<lambda>r. Inr (b # r)))"

definition cstr :: "byte list \<Rightarrow> nat \<Rightarrow> byte list c_res" where
  "cstr buf off = until_nul (drop off buf)"

definition text_of :: "byte list \<Rightarrow> string" where
  "text_of bs = map (\<lambda>b. char_of (unat b)) bs"

definition bytes_of :: "string \<Rightarrow> byte list" where
  "bytes_of s = map (\<lambda>c. of_char c) s"

lemma length_bytes_of [simp]: "length (bytes_of s) = length s"
  by (simp add: bytes_of_def)

lemma until_nul_ok: "0 \<notin> set s \<Longrightarrow> until_nul (s @ 0 # rest) = Inr s"
  by (induction s) auto

lemma until_nul_total: "0 \<in> set bs \<Longrightarrow> \<exists>s. until_nul bs = Inr s"
  by (induction bs) auto

lemma until_nul_Inr: "until_nul bs = Inr s \<Longrightarrow> 0 \<notin> set s \<and> (\<exists>rest. bs = s @ 0 # rest)"
proof (induction bs arbitrary: s)
  case (Cons b bs)
  then show ?case
    by (cases "b = 0") (auto simp: bindE_Inr_iff)
qed simp

lemma until_nul_Inl: "until_nul bs = Inl e \<Longrightarrow> 0 \<notin> set bs \<and> e = OutOfBounds"
proof (induction bs)
  case (Cons b bs)
  then show ?case by (cases "b = 0") (auto simp: bindE_Inl_iff)
qed simp

lemma cstr_total: "0 \<in> set (drop off buf) \<Longrightarrow> \<exists>s. cstr buf off = Inr s"
  by (simp add: cstr_def until_nul_total)

lemma unat_of_char: "unat (of_char c :: byte) = of_char c"
proof -
  have "(of_char c :: nat) < 256" by simp
  then show ?thesis
    by (simp add: of_nat_of_char [symmetric, where ?'a = "8 word"] unat_of_nat)
qed

lemma text_bytes_of [simp]: "text_of (bytes_of s) = s"
  by (induction s) (simp_all add: text_of_def bytes_of_def unat_of_char)

end
