(* ===== verification/Arena.thy ===== *)
theory Arena
  imports Printf
begin

text \<open>
  The arena allocator of \<^verbatim>\<open>01-arena_allocator\<close> (\<^verbatim>\<open>arena.h\<close>, \<^verbatim>\<open>arena.c\<close>) and its
  stress test (\<^verbatim>\<open>main.c\<close>).

  The header of an arena lives inside the region it manages, at the region's base, so the
  memory is a map from the base of each committed region to the header stored there.  Sizes,
  addresses and offsets are 64-bit words and wrap as \<open>size_t\<close> and \<open>uintptr_t\<close> do.
  \<open>VirtualAlloc\<close> is a parameter; NULL is the address 0.
\<close>

section \<open>The arena\<close>

record Arena =
  base :: u64
  capacity :: u64
  offset :: u64

type_synonym vm = "u64 \<rightharpoonup> Arena"

definition sizeof_Arena :: u64 where
  "sizeof_Arena = 24"

definition arena_create :: "(vm \<Rightarrow> u64 \<Rightarrow> u64 option) \<Rightarrow> u64 \<Rightarrow> vm \<Rightarrow> u64 \<times> vm" where
  "arena_create virtual_alloc cap m =
     (case virtual_alloc m cap of
        None \<Rightarrow> (0, m)
      | Some p \<Rightarrow> (p, m(p \<mapsto> \<lparr>base = p, capacity = cap, offset = sizeof_Arena\<rparr>)))"

definition arena_deref :: "vm \<Rightarrow> u64 \<Rightarrow> Arena c_res" where
  "arena_deref m a =
     (if a = 0 then Inl NullDeref
      else case m a of None \<Rightarrow> Inl UseAfterFree | Some ar \<Rightarrow> Inr ar)"

definition arena_alloc :: "u64 \<Rightarrow> vm \<Rightarrow> u64 \<Rightarrow> u64 \<Rightarrow> (u64 \<times> vm) c_res" where
  "arena_alloc a m sz align =
     bindE (arena_deref m a) (\<lambda>ar.
       let bump = base ar + offset ar;
           bump' = (bump + align - 1) AND NOT (align - 1);
           new_offset = (bump' - base ar) + sz
       in if new_offset > capacity ar then Inr (0, m)
          else Inr (bump', m(a \<mapsto> ar\<lparr>offset := new_offset\<rparr>)))"

definition arena_reset :: "u64 \<Rightarrow> vm \<Rightarrow> vm c_res" where
  "arena_reset a m =
     bindE (arena_deref m a) (\<lambda>ar. Inr (m(a \<mapsto> ar\<lparr>offset := sizeof_Arena\<rparr>)))"

text \<open>
  \<open>VirtualFree(a->base, 0, MEM_RELEASE)\<close> releases the whole region, header included.  The
  assignment \<open>a = NULL\<close> that follows changes the callee's copy of the pointer only.
\<close>

definition arena_destroy :: "u64 \<Rightarrow> vm \<Rightarrow> vm c_res" where
  "arena_destroy a m = bindE (arena_deref m a) (\<lambda>ar. Inr (m(base ar := None)))"

section \<open>Clients of an allocator\<close>

text \<open>
  The allocation loop of the stress test, for any allocator: each request is a size and an
  alignment; a null result and a misaligned result fail the test's assertions.
\<close>

fun alloc_loop ::
    "('s \<Rightarrow> u64 \<Rightarrow> u64 \<Rightarrow> (u64 \<times> 's) c_res) \<Rightarrow> (u64 \<times> u64) list \<Rightarrow> 's \<Rightarrow>
      ((u64 \<times> u64) list \<times> 's) c_res" where
  "alloc_loop alloc [] s = Inr ([], s)"
| "alloc_loop alloc ((sz, align) # rs) s =
     bindE (alloc s sz align) (\<lambda>(p, s').
       if p = 0 then Inl AssertFailed
       else if p mod align \<noteq> 0 then Inl AssertFailed
       else bindE (alloc_loop alloc rs s') (\<lambda>(bs, s''). Inr ((p, sz) # bs, s'')))"

text \<open>
  A client that makes a list of requests and keeps every answer, null or not, beside its request.
  It checks nothing, so whatever is known of the answers is the allocator's doing.
\<close>

fun serve ::
    "('s \<Rightarrow> u64 \<Rightarrow> u64 \<Rightarrow> (u64 \<times> 's) c_res) \<Rightarrow> (u64 \<times> u64) list \<Rightarrow> 's \<Rightarrow>
      ((u64 \<times> u64 \<times> u64) list \<times> 's) c_res" where
  "serve alloc [] s = Inr ([], s)"
| "serve alloc ((sz, align) # rs) s =
     bindE (alloc s sz align) (\<lambda>(p, s').
     bindE (serve alloc rs s') (\<lambda>(bs, s''). Inr ((p, sz, align) # bs, s'')))"

definition granted :: "(u64 \<times> u64 \<times> u64) list \<Rightarrow> (u64 \<times> u64 \<times> u64) list" where
  "granted bs = filter (\<lambda>(p, _). p \<noteq> 0) bs"

definition overlap :: "u64 \<times> u64 \<Rightarrow> u64 \<times> u64 \<Rightarrow> bool" where
  "overlap bi bj \<longleftrightarrow>
     \<not> (fst bi + snd bi \<le> fst bj \<or> fst bj + snd bj \<le> fst bi)"

fun overlaps :: "(u64 \<times> u64) list \<Rightarrow> nat" where
  "overlaps [] = 0"
| "overlaps (b # bs) = length (filter (overlap b) bs) + overlaps bs"

definition block_end :: "u64 \<times> u64 \<Rightarrow> nat" where
  "block_end b = unat (fst b) + unat (snd b)"

text \<open>
  What a client may rely on: between the cursor and the limit memory is unused; a successful
  request moves the cursor to the end of the returned block, a failed one changes nothing.
\<close>

locale allocator =
  fixes alloc :: "'s \<Rightarrow> u64 \<Rightarrow> u64 \<Rightarrow> (u64 \<times> 's) c_res"
    and inv :: "'s \<Rightarrow> bool"
    and cursor :: "'s \<Rightarrow> nat"
    and limit :: nat
    and req :: "u64 \<Rightarrow> u64 \<Rightarrow> bool"
  assumes limit_small: "inv s \<Longrightarrow> limit < 2 ^ 64"
    and alloc_total: "inv s \<Longrightarrow> req n al \<Longrightarrow> \<exists>p s'. alloc s n al = Inr (p, s')"
    and alloc_null: "inv s \<Longrightarrow> req n al \<Longrightarrow> alloc s n al = Inr (0, s') \<Longrightarrow> s' = s"
    and alloc_block: "inv s \<Longrightarrow> req n al \<Longrightarrow> alloc s n al = Inr (p, s') \<Longrightarrow> p \<noteq> 0 \<Longrightarrow>
      inv s' \<and> cursor s \<le> unat p \<and> unat al dvd unat p \<and>
      cursor s' = unat p + unat n \<and> cursor s' \<le> limit"
    and alloc_fits: "inv s \<Longrightarrow> req n al \<Longrightarrow> cursor s + unat n + unat al \<le> limit + 1 \<Longrightarrow>
      alloc s n al = Inr (p, s') \<Longrightarrow> p \<noteq> 0 \<and> cursor s' < cursor s + unat n + unat al"
begin

lemma loop_blocks:
  "inv s \<Longrightarrow> (\<forall>(n, al) \<in> set rs. req n al) \<Longrightarrow> alloc_loop alloc rs s = Inr (bs, s') \<Longrightarrow>
   inv s' \<and> map snd bs = map fst rs \<and> cursor s \<le> cursor s' \<and> (rs \<noteq> [] \<longrightarrow> cursor s' \<le> limit) \<and>
   (\<forall>b \<in> set bs. cursor s \<le> unat (fst b) \<and> block_end b \<le> cursor s') \<and>
   sorted_wrt (\<lambda>b c. block_end b \<le> unat (fst c)) bs"
proof (induction rs arbitrary: s bs)
  case Nil
  then show ?case by simp
next
  case (Cons r rs)
  obtain n al where r: "r = (n, al)" by fastforce
  with Cons.prems(3) obtain p s1 bs1 where
    a: "alloc s n al = Inr (p, s1)" and p: "p \<noteq> 0" and
    l: "alloc_loop alloc rs s1 = Inr (bs1, s')" and bs: "bs = (p, n) # bs1"
    by (auto simp: bindE_Inr_iff split: if_splits)
  from Cons.prems r have q: "req n al" by auto
  note blk = alloc_block [OF Cons.prems(1) q a p]
  from Cons.IH [OF _ _ l] blk Cons.prems(2)
  have ih: "inv s'" "map snd bs1 = map fst rs" "cursor s1 \<le> cursor s'"
    "rs \<noteq> [] \<longrightarrow> cursor s' \<le> limit"
    "\<forall>b \<in> set bs1. cursor s1 \<le> unat (fst b) \<and> block_end b \<le> cursor s'"
    "sorted_wrt (\<lambda>b c. block_end b \<le> unat (fst c)) bs1"
    by auto
  have "cursor s' \<le> limit"
  proof (cases rs)
    case Nil
    with l blk show ?thesis by simp
  qed (use ih in auto)
  with ih blk show ?case
    by (fastforce simp: bs r block_end_def)
qed

lemma serve_blocks:
  "inv s \<Longrightarrow> (\<forall>(n, al) \<in> set rs. req n al) \<Longrightarrow>
   \<exists>bs s'. serve alloc rs s = Inr (bs, s') \<and> inv s' \<and> map snd bs = rs \<and> cursor s \<le> cursor s' \<and>
     (\<forall>(p, n, al) \<in> set (granted bs). unat al dvd unat p \<and> cursor s \<le> unat p \<and>
        unat p + unat n \<le> cursor s' \<and> unat p + unat n \<le> limit) \<and>
     sorted_wrt (\<lambda>(p, n, _) (q, _). unat p + unat n \<le> unat q) (granted bs)"
proof (induction rs arbitrary: s)
  case Nil
  then show ?case by (simp add: granted_def)
next
  case (Cons r rs)
  obtain n al where r: "r = (n, al)" by fastforce
  from Cons.prems r have q: "req n al" by auto
  obtain p s1 where a: "alloc s n al = Inr (p, s1)"
    using alloc_total [OF Cons.prems(1) q] by blast
  have step: "inv s1 \<and> cursor s \<le> cursor s1 \<and> (p \<noteq> 0 \<longrightarrow> cursor s \<le> unat p \<and>
      unat al dvd unat p \<and> cursor s1 = unat p + unat n \<and> cursor s1 \<le> limit)"
  proof (cases "p = 0")
    case True
    with alloc_null [OF Cons.prems(1) q] a Cons.prems(1) show ?thesis by auto
  next
    case False
    from alloc_block [OF Cons.prems(1) q a False] show ?thesis by auto
  qed
  have reqs: "\<forall>(n, al) \<in> set rs. req n al" using Cons.prems(2) by simp
  from Cons.IH [OF conjunct1 [OF step] reqs]
  obtain bs s' where l: "serve alloc rs s1 = Inr (bs, s')" and ih: "inv s'" "map snd bs = rs"
      "cursor s1 \<le> cursor s'"
      "\<forall>(p, n, al) \<in> set (granted bs). unat al dvd unat p \<and> cursor s1 \<le> unat p \<and>
        unat p + unat n \<le> cursor s' \<and> unat p + unat n \<le> limit"
      "sorted_wrt (\<lambda>(p, n, _) (q, _). unat p + unat n \<le> unat q) (granted bs)"
    by (elim exE conjE) (rule that)
  have "serve alloc (r # rs) s = Inr ((p, n, al) # bs, s')" by (simp add: r a l)
  moreover have "sorted_wrt (\<lambda>(p, n, _) (q, _). unat p + unat n \<le> unat q) (granted ((p, n, al) # bs))"
    using ih(4,5) step by (auto simp: granted_def)
  moreover have "\<forall>(p, n, al) \<in> set (granted ((p, n, al) # bs)). unat al dvd unat p \<and>
      cursor s \<le> unat p \<and> unat p + unat n \<le> cursor s' \<and> unat p + unat n \<le> limit"
  proof -
    have "\<forall>x \<in> set (granted bs). case x of (p, n, al) \<Rightarrow> unat al dvd unat p \<and>
        cursor s \<le> unat p \<and> unat p + unat n \<le> cursor s' \<and> unat p + unat n \<le> limit"
    proof
      fix x assume "x \<in> set (granted bs)"
      with ih(4) have "case x of (p, n, al) \<Rightarrow> unat al dvd unat p \<and> cursor s1 \<le> unat p \<and>
        unat p + unat n \<le> cursor s' \<and> unat p + unat n \<le> limit" by (rule bspec)
      with step show "case x of (p, n, al) \<Rightarrow> unat al dvd unat p \<and>
        cursor s \<le> unat p \<and> unat p + unat n \<le> cursor s' \<and> unat p + unat n \<le> limit"
        by (cases x) simp
    qed
    with ih(3) step show ?thesis by (auto simp: granted_def)
  qed
  ultimately show ?case using ih(1-3) step r by (intro exI [of _ "(p, n, al) # bs"] exI [of _ s']) simp
qed

lemma serve_all_granted:
  "inv s \<Longrightarrow> (\<forall>(n, al) \<in> set rs. req n al) \<Longrightarrow> serve alloc rs s = Inr (bs, s') \<Longrightarrow>
   cursor s + (\<Sum>(n, al) \<leftarrow> rs. unat n + unat al) \<le> limit \<Longrightarrow> granted bs = bs"
proof (induction rs arbitrary: s bs)
  case Nil
  then show ?case by (simp add: granted_def)
next
  case (Cons r rs)
  obtain n al where r: "r = (n, al)" by fastforce
  with Cons.prems(3) obtain p s1 bs1 where a: "alloc s n al = Inr (p, s1)"
    and l: "serve alloc rs s1 = Inr (bs1, s')" and bs: "bs = (p, n, al) # bs1"
    by (auto simp: bindE_Inr_iff)
  from Cons.prems r have q: "req n al" by auto
  have "cursor s + unat n + unat al \<le> limit + 1" using Cons.prems(4) r by simp
  from alloc_fits [OF Cons.prems(1) q this a]
  have p: "p \<noteq> 0" and c: "cursor s1 < cursor s + unat n + unat al" by auto
  have "granted bs1 = bs1"
    using Cons.IH [OF _ _ l] alloc_block [OF Cons.prems(1) q a p] c Cons.prems(2,4) r by auto
  with p show ?case by (simp add: bs granted_def)
qed

lemma loop_succeeds:
  "inv s \<Longrightarrow> (\<forall>(n, al) \<in> set rs. req n al) \<Longrightarrow>
   cursor s + (\<Sum>(n, al) \<leftarrow> rs. unat n + unat al) \<le> limit \<Longrightarrow> \<exists>r. alloc_loop alloc rs s = Inr r"
proof (induction rs arbitrary: s)
  case Nil
  then show ?case by simp
next
  case (Cons r rs)
  obtain n al where r: "r = (n, al)" by fastforce
  from Cons.prems r have q: "req n al" by auto
  obtain p s1 where a: "alloc s n al = Inr (p, s1)"
    using alloc_total [OF Cons.prems(1) q] by blast
  have "cursor s + unat n + unat al \<le> limit + 1" using Cons.prems(3) r by simp
  from alloc_fits [OF Cons.prems(1) q this a]
  have p: "p \<noteq> 0" and c: "cursor s1 < cursor s + unat n + unat al" by auto
  note blk = alloc_block [OF Cons.prems(1) q a p]
  have "p mod al = 0"
    using blk by (simp add: word_mod_eq_0_iff)
  moreover obtain res where "alloc_loop alloc rs s1 = Inr res"
    using Cons.IH [of s1] blk c Cons.prems r by auto
  ultimately show ?case using a p r by (cases res) simp
qed

lemma loop_no_overlap:
  assumes "inv s" "\<forall>(n, al) \<in> set rs. req n al" "alloc_loop alloc rs s = Inr (bs, s')"
  shows "overlaps bs = 0"
proof -
  have le: "rs \<noteq> [] \<longrightarrow> cursor s' \<le> limit"
    and ends: "\<forall>b \<in> set bs. block_end b \<le> cursor s'"
    and sorted: "sorted_wrt (\<lambda>b c. block_end b \<le> unat (fst c)) bs"
    and len: "map snd bs = map fst rs"
    using loop_blocks [OF assms] by auto
  have small: "\<forall>b \<in> set bs. block_end b < 2 ^ 64"
    using le ends limit_small [OF assms(1)] len by (cases rs) fastforce+
  have "overlaps cs = 0" if "set cs \<subseteq> set bs" "sorted_wrt (\<lambda>b c. block_end b \<le> unat (fst c)) cs" for cs
    using that
  proof (induction cs)
    case (Cons c cs)
    from Cons.prems small have "block_end c < 2 ^ 64" by auto
    then have "unat (fst c + snd c) = block_end c"
      unfolding block_end_def by (simp add: unat_word_ariths)
    with Cons.prems have "\<forall>d \<in> set cs. \<not> overlap c d"
      by (auto simp: overlap_def word_le_nat_alt)
    with Cons show ?case by (simp add: filter_False)
  qed simp
  with sorted show ?thesis by blast
qed

end

section \<open>The stress test\<close>

definition sizes :: "u64 list" where
  "sizes = [1, 3, 7, 16, 4, 32, 8, 5]"

definition aligns :: "u64 list" where
  "aligns = [1, 4, 8, 16, 1, 64, 8, 4]"

text \<open>One round of the outer loop; \<open>%p\<close> is implementation-defined and a parameter.\<close>

definition arena_cycle :: "(u64 \<Rightarrow> string) \<Rightarrow> u64 \<Rightarrow> u64 \<Rightarrow> nat \<Rightarrow> vm \<Rightarrow> (string \<times> vm) c_res" where
  "arena_cycle fmt_p a first_base cycle m =
     bindE (alloc_loop (arena_alloc a) (zip sizes aligns) m) (\<lambda>(bs, m1).
     bindE (arena_deref m1 a) (\<lambda>ar.
       let line = ''Cycle '' @ fmt_u cycle @ '': '' @ fmt_u (length sizes) @ '' allocs, '' @
         fmt_u (overlaps bs) @ '' overlaps, base '' @ fmt_p (base ar)
       in if base ar \<noteq> first_base then Inl AssertFailed
          else bindE (arena_reset a m1) (\<lambda>m2.
               bindE (arena_deref m2 a) (\<lambda>ar2.
                 if base ar2 \<noteq> first_base then Inl AssertFailed else Inr (line, m2)))))"

definition arena_main ::
    "(u64 \<Rightarrow> string) \<Rightarrow> (vm \<Rightarrow> u64 \<Rightarrow> u64 option) \<Rightarrow> vm \<Rightarrow> (string list \<times> vm) c_res" where
  "arena_main fmt_p virtual_alloc m =
     (let (a, m1) = arena_create virtual_alloc 4096 m in
      bindE (arena_deref m1 a) (\<lambda>ar.
      bindE (foldE (\<lambda>cycle (out, m). bindE (arena_cycle fmt_p a (base ar) cycle m)
               (\<lambda>(line, m'). Inr (out @ [line], m'))) [0, 1, 2] ([], m1)) (\<lambda>(out, m2).
      bindE (arena_destroy a m2) (\<lambda>m3. Inr (out, m3)))))"

section \<open>The bump pointer\<close>

text \<open>
  The invariant of a live arena: the header sits at the region's base, the offset is between
  the end of the header and the capacity, and the region lies in the lower half of the address
  space, where user-mode allocations are.  A request is admissible when its alignment is a
  power of two and size and alignment together stay below \<open>2^63\<close>.
\<close>

definition arena_ok :: "u64 \<Rightarrow> u64 \<Rightarrow> vm \<Rightarrow> bool" where
  "arena_ok a cap m \<longleftrightarrow> a \<noteq> 0 \<and> unat a + unat cap \<le> 2 ^ 63 \<and>
     (case m a of None \<Rightarrow> False
      | Some ar \<Rightarrow> base ar = a \<and> capacity ar = cap \<and>
          sizeof_Arena \<le> offset ar \<and> offset ar \<le> cap)"

definition arena_cursor :: "u64 \<Rightarrow> vm \<Rightarrow> nat" where
  "arena_cursor a m = unat a + (case m a of None \<Rightarrow> 0 | Some ar \<Rightarrow> unat (offset ar))"

definition request_ok :: "u64 \<Rightarrow> u64 \<Rightarrow> bool" where
  "request_ok n al \<longleftrightarrow> (\<exists>k \<in> {..<64}. al = 2 ^ k) \<and> unat n + unat al \<le> 2 ^ 63"

lemma arena_okE:
  assumes "arena_ok a cap m"
  obtains off where "a \<noteq> 0" "m a = Some \<lparr>base = a, capacity = cap, offset = off\<rparr>"
    "sizeof_Arena \<le> off" "off \<le> cap" "unat a + unat cap \<le> 2 ^ 63" "unat off \<le> unat cap"
    "arena_cursor a m = unat a + unat off"
proof -
  from assms obtain ar where ar: "m a = Some ar"
    by (auto simp: arena_ok_def split: option.splits)
  show ?thesis
  proof (rule that [of "offset ar"])
    show "m a = Some \<lparr>base = a, capacity = cap, offset = offset ar\<rparr>"
      using assms ar by (cases ar) (auto simp: arena_ok_def)
    show "unat (offset ar) \<le> unat cap"
      using assms ar by (auto simp: arena_ok_def word_le_nat_alt)
  qed (use assms ar in \<open>auto simp: arena_ok_def arena_cursor_def\<close>)
qed

lemma align_up_unat:
  fixes x :: u64
  assumes "k < 64" "unat x + 2 ^ k \<le> 2 ^ 64"
  shows "unat ((x + 2 ^ k - 1) AND NOT (2 ^ k - 1)) = round_up (2 ^ k) (unat x)"
proof -
  have m: "(2 ^ k - 1 :: u64) = mask k" by (simp add: mask_eq_exp_minus_1)
  have u: "unat (mask k :: u64) = 2 ^ k - 1"
    using assms(1) by (simp add: unat_mask_word)
  have "unat (x + 2 ^ k - 1) = unat (x + mask k)"
    by (simp add: m [symmetric] algebra_simps)
  also have "\<dots> = unat x + 2 ^ k - 1"
    using assms u by (simp add: unat_word_ariths)
  finally have "unat (x + 2 ^ k - 1) = unat x + 2 ^ k - 1" .
  then show ?thesis
    by (simp add: m unat_and_not_mask round_up_def)
qed

text \<open>The allocator on natural numbers: round the cursor up, then check that the block fits.\<close>

definition bump_spec :: "nat \<Rightarrow> nat \<Rightarrow> nat \<Rightarrow> nat \<Rightarrow> nat \<Rightarrow> (nat \<times> nat) option" where
  "bump_spec b cap off n al =
     (let p = round_up al (b + off) in if cap < p - b + n then None else Some (p, p - b + n))"

lemma arena_alloc_refines:
  assumes ok: "arena_ok a cap m" and req: "request_ok n al"
  shows "arena_alloc a m n al =
    (case bump_spec (unat a) (unat cap) (unat (offset (the (m a)))) (unat n) (unat al) of
       None \<Rightarrow> Inr (0, m)
     | Some (p, off') \<Rightarrow> Inr (of_nat p, m(a \<mapsto> (the (m a))\<lparr>offset := of_nat off'\<rparr>)))"
proof -
  obtain off where off: "a \<noteq> 0" "m a = Some \<lparr>base = a, capacity = cap, offset = off\<rparr>"
    "unat a + unat cap \<le> 2 ^ 63" "unat off \<le> unat cap"
    using ok by (rule arena_okE) auto
  obtain k where k: "k < 64" "al = 2 ^ k" and sz: "unat n + unat al \<le> 2 ^ 63"
    using req by (auto simp: request_ok_def)
  have al: "unat al = 2 ^ k" using k by (simp add: unat_two_power)
  define bump where "bump = (a + off + al - 1) AND NOT (al - 1)"
  let ?p = "round_up (2 ^ k) (unat a + unat off)"
  have "unat (a + off) = unat a + unat off"
    using off by (simp add: unat_word_ariths)
  then have p: "unat bump = ?p"
    unfolding bump_def using align_up_unat [OF k(1), of "a + off"] off sz al k by simp
  have p_ge: "unat a + unat off \<le> ?p" by (rule round_up_ge) simp
  have p_less: "?p < unat a + unat off + 2 ^ k" by (rule round_up_less) simp
  have "a \<le> bump" using p p_ge by (simp add: word_le_nat_alt)
  then have "unat (bump - a) = ?p - unat a" by (simp add: unat_sub p)
  then have noff: "unat (bump - a + n) = ?p - unat a + unat n"
    using off p_less sz al by (simp add: unat_word_ariths)
  have "(of_nat (unat (bump - a + n)) :: u64) = bump - a + n" by simp
  then have "of_nat (?p - unat a + unat n) = bump - a + n" by (simp only: noff)
  moreover have "of_nat ?p = bump" by (simp add: p [symmetric])
  ultimately show ?thesis
    using off by (auto simp: arena_alloc_def arena_deref_def bump_spec_def Let_def al
        bump_def [symmetric] word_less_nat_alt noff)
qed

lemma bump_spec_Some:
  assumes "bump_spec b cap off n al = Some (p, off')" "0 < al"
  shows "b + off \<le> p \<and> al dvd p \<and> b + off' = p + n \<and> off' \<le> cap \<and> off \<le> off'"
  using assms round_up_ge [of al "b + off"] round_up_dvd [of al "b + off"]
  by (auto simp: bump_spec_def Let_def split: if_splits)

lemma bump_spec_fits:
  "b + off + n + al \<le> b + cap + 1 \<Longrightarrow> 0 < al \<Longrightarrow>
   \<exists>p off'. bump_spec b cap off n al = Some (p, off') \<and> b + off' < b + off + n + al"
  using round_up_less [of al "b + off"] round_up_ge [of al "b + off"]
  by (auto simp: bump_spec_def Let_def)

lemma arena_alloc_cases:
  assumes ok: "arena_ok a cap m" and req: "request_ok n al"
  obtains (null) "arena_alloc a m n al = Inr (0, m)"
      "bump_spec (unat a) (unat cap) (arena_cursor a m - unat a) (unat n) (unat al) = None"
    | (block) p off' where
      "bump_spec (unat a) (unat cap) (arena_cursor a m - unat a) (unat n) (unat al) = Some (unat p, unat off')"
      "arena_alloc a m n al = Inr (p, m(a \<mapsto> \<lparr>base = a, capacity = cap, offset = off'\<rparr>))" "p \<noteq> 0"
proof -
  obtain off where off: "a \<noteq> 0" "m a = Some \<lparr>base = a, capacity = cap, offset = off\<rparr>"
    "unat a + unat cap \<le> 2 ^ 63" "arena_cursor a m = unat a + unat off"
    using ok by (rule arena_okE) auto
  have al: "0 < unat al" using req by (auto simp: request_ok_def unat_two_power)
  show ?thesis
  proof (cases "bump_spec (unat a) (unat cap) (unat off) (unat n) (unat al)")
    case None
    then show ?thesis using null arena_alloc_refines [OF ok req] off by simp
  next
    case (Some qo)
    obtain q o' where qo: "qo = (q, o')" by fastforce
    note b = bump_spec_Some [OF Some [unfolded qo] al]
    have u: "unat (of_nat q :: u64) = q" "unat (of_nat o' :: u64) = o'"
      using b off by (simp_all add: unat_of_nat)
    have "0 < unat a" using off by (simp add: unat_gt_0)
    then have "(of_nat q :: u64) \<noteq> 0" using b u by (metis add_leD1 not_gr0 not_le unat_0)
    then show ?thesis
      using block [of "of_nat q" "of_nat o'"] arena_alloc_refines [OF ok req] off Some qo u by simp
  qed
qed

lemma arena_alloc_block:
  assumes ok: "arena_ok a cap m" and req: "request_ok n al"
    and eq: "arena_alloc a m n al = Inr (p, m')" and nz: "p \<noteq> 0"
  shows "arena_ok a cap m' \<and> arena_cursor a m \<le> unat p \<and> unat al dvd unat p \<and>
    arena_cursor a m' = unat p + unat n \<and> arena_cursor a m' \<le> unat a + unat cap"
  using ok req
proof (cases rule: arena_alloc_cases)
  case null
  with eq nz show ?thesis by simp
next
  case (block q off')
  obtain off where off: "a \<noteq> 0" "sizeof_Arena \<le> off" "unat a + unat cap \<le> 2 ^ 63"
    "arena_cursor a m = unat a + unat off"
    using ok by (rule arena_okE) auto
  have al: "0 < unat al" using req by (auto simp: request_ok_def unat_two_power)
  have pm: "p = q" "m' = m(a \<mapsto> \<lparr>base = a, capacity = cap, offset = off'\<rparr>)" using block eq by auto
  note b = bump_spec_Some [OF block(1) al]
  show ?thesis
    using b off unfolding pm
    by (auto simp: arena_ok_def arena_cursor_def word_le_nat_alt)
qed

interpretation arena: allocator "arena_alloc a" "arena_ok a cap" "arena_cursor a"
  "unat a + unat cap" request_ok for a cap
proof unfold_locales
  show "unat a + unat cap < 2 ^ 64" if "arena_ok a cap m" for m
    using that by (auto simp: arena_ok_def)
  show "\<exists>p s'. arena_alloc a m n al = Inr (p, s')" if "arena_ok a cap m" "request_ok n al" for m n al
    using that by (cases rule: arena_alloc_cases) auto
  show "m' = m" if "arena_ok a cap m" "request_ok n al" "arena_alloc a m n al = Inr (0, m')" for m n al m'
    using that(1,2) by (cases rule: arena_alloc_cases) (use that(3) in auto)
  show "p \<noteq> 0 \<and> arena_cursor a m' < arena_cursor a m + unat n + unat al"
    if ok: "arena_ok a cap m" and req: "request_ok n al"
      and fits: "arena_cursor a m + unat n + unat al \<le> unat a + unat cap + 1"
      and eq: "arena_alloc a m n al = Inr (p, m')" for m n al p m'
  proof -
    have al: "0 < unat al" using req by (auto simp: request_ok_def unat_two_power)
    have "unat a \<le> arena_cursor a m" by (simp add: arena_cursor_def)
    then obtain q o' where "bump_spec (unat a) (unat cap) (arena_cursor a m - unat a) (unat n) (unat al) =
        Some (q, o')" "unat a + o' < arena_cursor a m + unat n + unat al"
      using bump_spec_fits [OF _ al, of "unat a" "arena_cursor a m - unat a" "unat n" "unat cap"] fits
      by auto
    with ok req eq show ?thesis
      by (cases rule: arena_alloc_cases [OF ok req]) (auto simp: arena_cursor_def)
  qed
qed (use arena_alloc_block in blast)+

section \<open>Frame, reset and reuse\<close>

lemma alloc_loop_invariant:
  assumes "\<And>s n al p s'. P s \<Longrightarrow> alloc s n al = Inr (p, s') \<Longrightarrow> P s'"
  shows "P s \<Longrightarrow> alloc_loop alloc rs s = Inr (bs, s') \<Longrightarrow> P s'"
proof (induction rs arbitrary: s bs)
  case (Cons r rs)
  then show ?case
    by (cases r) (auto simp: bindE_Inr_iff split: if_splits intro: assms)
qed simp

definition arena_at :: "u64 \<Rightarrow> u64 \<Rightarrow> vm \<Rightarrow> vm \<Rightarrow> bool" where
  "arena_at a cap m0 m \<longleftrightarrow> (\<exists>off. m = m0(a \<mapsto> \<lparr>base = a, capacity = cap, offset = off\<rparr>))"

lemma arena_at_alloc: "arena_at a cap m0 m \<Longrightarrow> arena_alloc a m n al = Inr (p, m') \<Longrightarrow> arena_at a cap m0 m'"
  by (auto simp: arena_at_def arena_alloc_def arena_deref_def Let_def bindE_Inr_iff split: if_splits)

lemma arena_at_reset:
  "arena_at a cap m0 m \<Longrightarrow> a \<noteq> 0 \<Longrightarrow>
   arena_reset a m = Inr (m0(a \<mapsto> \<lparr>base = a, capacity = cap, offset = sizeof_Arena\<rparr>))"
  by (auto simp: arena_at_def arena_reset_def arena_deref_def)

lemma arena_at_deref:
  "arena_at a cap m0 m \<Longrightarrow> a \<noteq> 0 \<Longrightarrow> \<exists>ar. arena_deref m a = Inr ar \<and> base ar = a"
  by (auto simp: arena_at_def arena_deref_def)

lemma arena_at_destroy:
  "arena_at a cap m0 m \<Longrightarrow> a \<noteq> 0 \<Longrightarrow> arena_destroy a m = Inr (m0(a := None))"
  by (auto simp: arena_at_def arena_destroy_def arena_deref_def)

lemma arena_at_loop:
  assumes "arena_at a cap m0 m" "alloc_loop (arena_alloc a) rs m = Inr (bs, m')"
  shows "arena_at a cap m0 m'"
  using alloc_loop_invariant [where P = "arena_at a cap m0" and alloc = "arena_alloc a"]
    arena_at_alloc assms by blast

lemma arena_fresh_ok:
  "a \<noteq> 0 \<Longrightarrow> unat a + unat cap \<le> 2 ^ 63 \<Longrightarrow> sizeof_Arena \<le> cap \<Longrightarrow>
   arena_ok a cap (m(a \<mapsto> \<lparr>base = a, capacity = cap, offset = sizeof_Arena\<rparr>))"
  by (simp add: arena_ok_def)

lemma test_requests_ok: "(n, al) \<in> set (zip sizes aligns) \<Longrightarrow> request_ok n al"
proof -
  have "request_ok 1 1" "request_ok 3 4" "request_ok 7 8" "request_ok 16 16" "request_ok 4 1"
    "request_ok 32 64" "request_ok 8 8" "request_ok 5 4"
    by (auto simp: request_ok_def intro: bexI [of _ 0] bexI [of _ 2] bexI [of _ 3] bexI [of _ 4] bexI [of _ 6])
  then show "(n, al) \<in> set (zip sizes aligns) \<Longrightarrow> request_ok n al"
    by (auto simp: sizes_def aligns_def)
qed

lemma arena_cycle_ok:
  fixes m :: vm
  assumes "a \<noteq> 0" "unat a + 4096 \<le> 2 ^ 63"
  defines "m1 \<equiv> m(a \<mapsto> \<lparr>base = a, capacity = 4096, offset = sizeof_Arena\<rparr>)"
  shows "arena_cycle fmt_p a a c m1 =
    Inr (''Cycle '' @ fmt_u c @ '': 8 allocs, 0 overlaps, base '' @ fmt_p a, m1)"
proof -
  have ok: "arena_ok a 4096 m1"
    unfolding m1_def by (rule arena_fresh_ok) (use assms in \<open>auto simp: sizeof_Arena_def\<close>)
  have cur: "arena_cursor a m1 = unat a + 24"
    by (simp add: m1_def arena_cursor_def sizeof_Arena_def)
  have req: "\<forall>(n, al) \<in> set (zip sizes aligns). request_ok n al" using test_requests_ok by blast
  obtain bs m2 where loop: "alloc_loop (arena_alloc a) (zip sizes aligns) m1 = Inr (bs, m2)"
    using arena.loop_succeeds [OF ok req] by (auto simp: cur sizes_def aligns_def)
  have no: "overlaps bs = 0" by (rule arena.loop_no_overlap [OF ok req loop])
  have "arena_at a 4096 m m1" by (auto simp: arena_at_def m1_def)
  from arena_at_loop [OF this loop] have at: "arena_at a 4096 m m2" .
  have "length sizes = 8" by (simp add: sizes_def)
  then have eight: "fmt_u (length sizes) = ''8''" "fmt_u 0 = ''0''"
    by (simp_all only:) (simp_all add: fmt_eval)
  obtain ar where ar: "arena_deref m2 a = Inr ar" "base ar = a"
    using arena_at_deref [OF at assms(1)] by blast
  have "arena_deref m1 a = Inr \<lparr>base = a, capacity = 4096, offset = sizeof_Arena\<rparr>"
    using assms(1) by (simp add: arena_deref_def m1_def)
  with loop no ar eight arena_at_reset [OF at assms(1)] show ?thesis
    by (simp add: arena_cycle_def Let_def m1_def)
qed

section \<open>Properties\<close>

text \<open>
  C12: a freshly created arena answers every sequence of admissible requests, whether it grants or
  refuses each of them.  The granted blocks, recorded by a client that makes no check of its own,
  start at a multiple of the alignment that was requested, lie between the header and the end of
  the region, and are pairwise disjoint in the order they were handed out.  When the sizes and
  alignments together fit the region no request is refused.
\<close>

theorem arena_blocks_disjoint:
  assumes create: "arena_create virtual_alloc cap m = (a, m1)" "a \<noteq> 0"
    and region: "unat a + unat cap \<le> 2 ^ 63" "sizeof_Arena \<le> cap"
    and reqs: "\<forall>(n, al) \<in> set rs. request_ok n al"
  shows "\<exists>bs m2. serve (arena_alloc a) rs m1 = Inr (bs, m2) \<and> map snd bs = rs \<and>
    (\<forall>(p, n, al) \<in> set (granted bs). unat al dvd unat p \<and>
       unat a + 24 \<le> unat p \<and> unat p + unat n \<le> unat a + unat cap) \<and>
    sorted_wrt (\<lambda>(p, n, _) (q, _). unat p + unat n \<le> unat q) (granted bs) \<and>
    (24 + (\<Sum>(n, al) \<leftarrow> rs. unat n + unat al) \<le> unat cap \<longrightarrow> granted bs = bs)"
proof -
  have m1: "m1 = m(a \<mapsto> \<lparr>base = a, capacity = cap, offset = sizeof_Arena\<rparr>)"
    using create by (auto simp: arena_create_def split: option.splits)
  have ok: "arena_ok a cap m1" unfolding m1 by (rule arena_fresh_ok) (use create region in auto)
  have cur: "arena_cursor a m1 = unat a + 24" by (simp add: m1 arena_cursor_def sizeof_Arena_def)
  from arena.serve_blocks [OF ok reqs, unfolded cur]
  obtain bs m2 where run: "serve (arena_alloc a) rs m1 = Inr (bs, m2)" and "map snd bs = rs"
      and "\<forall>(p, n, al) \<in> set (granted bs). unat al dvd unat p \<and> unat a + 24 \<le> unat p \<and>
         unat p + unat n \<le> arena_cursor a m2 \<and> unat p + unat n \<le> unat a + unat cap"
      "sorted_wrt (\<lambda>(p, n, _) (q, _). unat p + unat n \<le> unat q) (granted bs)"
    by (elim exE conjE) (rule that)
  moreover from this(3) have "\<forall>(p, n, al) \<in> set (granted bs). unat al dvd unat p \<and>
       unat a + 24 \<le> unat p \<and> unat p + unat n \<le> unat a + unat cap"
    by (simp add: case_prod_beta)
  moreover have "granted bs = bs" if "24 + (\<Sum>(n, al) \<leftarrow> rs. unat n + unat al) \<le> unat cap"
    using arena.serve_all_granted [OF ok reqs run] that by (simp add: cur)
  ultimately show ?thesis by blast
qed

theorem arena_blocks_disjoint_witness:
  "\<exists>bs m2. serve (arena_alloc 65536) [(5, 8), (3, 4), (4096, 1), (1, 64)]
       (snd (arena_create (\<lambda>_ _. Some 65536) 4096 Map.empty)) = Inr (bs, m2) \<and>
     bs = [(65560, 5, 8), (65568, 3, 4), (0, 4096, 1), (65600, 1, 64)] \<and>
     sorted_wrt (\<lambda>(p, n, _) (q, _). unat p + unat n \<le> unat q) (granted bs)"
proof -
  let ?m1 = "snd (arena_create (\<lambda>_ _. Some 65536) 4096 Map.empty)"
  let ?rs = "[(5, 8), (3, 4), (4096, 1), (1, 64)] :: (u64 \<times> u64) list"
  have create: "arena_create (\<lambda>_ _. Some 65536) 4096 Map.empty = (65536, ?m1)"
    by (simp add: arena_create_def)
  obtain m2 where run: "serve (arena_alloc 65536) ?rs ?m1 =
      Inr ([(65560, 5, 8), (65568, 3, 4), (0, 4096, 1), (65600, 1, 64)], m2)"
    by (simp add: arena_create_def arena_alloc_def arena_deref_def sizeof_Arena_def Let_def)
  have reqs: "\<forall>(n, al) \<in> set ?rs. request_ok n al"
    by (auto simp: request_ok_def
        intro: bexI [of _ 0] bexI [of _ 2] bexI [of _ 3] bexI [of _ 6])
  from arena_blocks_disjoint [OF create _ _ _ reqs] run show ?thesis
    by (simp add: sizeof_Arena_def)
qed

text \<open>
  C24: whenever \<open>VirtualAlloc\<close> hands out a fresh region of 4096 bytes in the lower half of the
  address space, the stress test runs all three cycles without a failed assertion, reports
  eight allocations and no overlap in each, prints the same base every time, and leaves the
  memory map as it found it.
\<close>

theorem arena_main_passes:
  assumes "virtual_alloc m 4096 = Some p" "p \<noteq> 0" "unat p + 4096 \<le> 2 ^ 63" "m p = None"
  shows "arena_main fmt_p virtual_alloc m =
    Inr (map (\<lambda>c. ''Cycle '' @ fmt_u c @ '': 8 allocs, 0 overlaps, base '' @ fmt_p p) [0, 1, 2], m)"
proof -
  let ?ar = "\<lparr>base = p, capacity = 4096, offset = sizeof_Arena\<rparr>"
  have "arena_deref (m(p \<mapsto> ?ar)) p = Inr ?ar" using assms(2) by (simp add: arena_deref_def)
  moreover have "arena_destroy p (m(p \<mapsto> ?ar)) = Inr m"
    using arena_at_destroy [of p 4096 m "m(p \<mapsto> ?ar)"] assms(2,4)
    by (auto simp: arena_at_def fun_upd_idem)
  ultimately show ?thesis
    using assms by (simp add: arena_main_def arena_create_def arena_cycle_ok)
qed

theorem arena_main_passes_witness:
  "arena_main (\<lambda>p. ''0x'' @ fmt_x (unat p)) (\<lambda>_ _. Some 131072) Map.empty =
     Inr ([''Cycle 0: 8 allocs, 0 overlaps, base 0x20000'',
           ''Cycle 1: 8 allocs, 0 overlaps, base 0x20000'',
           ''Cycle 2: 8 allocs, 0 overlaps, base 0x20000''], Map.empty)"
  using arena_main_passes [of "\<lambda>_ _. Some 131072" Map.empty 131072 "\<lambda>p. ''0x'' @ fmt_x (unat p)"]
  by (simp add: fmt_eval)

text \<open>
  C28: the exact outcome of an admissible request: the block starts at the cursor rounded up to the
  alignment and the cursor moves to its end if that still fits the region; otherwise the
  result is NULL and nothing changes.
\<close>

theorem arena_alloc_outcome:
  assumes "arena_ok a cap m" "request_ok n al"
  defines "p \<equiv> round_up (unat al) (arena_cursor a m)"
  shows "if p + unat n \<le> unat a + unat cap
    then \<exists>m'. arena_alloc a m n al = Inr (of_nat p, m') \<and> arena_ok a cap m' \<and>
           arena_cursor a m' = p + unat n
    else arena_alloc a m n al = Inr (0, m)"
proof -
  have al: "0 < unat al" using assms by (auto simp: request_ok_def unat_two_power)
  have cur: "unat a \<le> arena_cursor a m" by (simp add: arena_cursor_def)
  have "arena_cursor a m \<le> p" unfolding p_def by (rule round_up_ge [OF al])
  with cur have spec: "bump_spec (unat a) (unat cap) (arena_cursor a m - unat a) (unat n) (unat al) =
      (if unat a + unat cap < p + unat n then None else Some (p, p - unat a + unat n))"
    by (auto simp: bump_spec_def Let_def p_def)
  show ?thesis
    using assms(1,2)
  proof (cases rule: arena_alloc_cases)
    case null
    with spec show ?thesis by (auto split: if_splits)
  next
    case (block q off')
    from block spec have "unat q = p" and fit: "\<not> unat a + unat cap < p + unat n"
      by (auto split: if_splits)
    then have "of_nat p = q" by (metis of_nat_unat ucast_id)
    with fit block arena_alloc_block [OF assms(1,2) block(2,3)] \<open>unat q = p\<close> show ?thesis by auto
  qed
qed

theorem arena_alloc_outcome_witness:
  "arena_alloc 65536 (Map.empty(65536 \<mapsto> \<lparr>base = 65536, capacity = 64, offset = 24\<rparr>)) 40 16 =
     Inr (0, Map.empty(65536 \<mapsto> \<lparr>base = 65536, capacity = 64, offset = 24\<rparr>))"
  using arena_alloc_outcome [of 65536 64 "Map.empty(65536 \<mapsto> \<lparr>base = 65536, capacity = 64, offset = 24\<rparr>)" 40 16]
  by (force simp: arena_ok_def request_ok_def sizeof_Arena_def arena_cursor_def round_up_def
      intro: bexI [of _ 4])

text \<open>
  C39: \<open>arena_reset\<close> brings an arena back to exactly the state \<open>arena_create\<close> left, whatever was
  allocated in between, so the same requests are served at the same addresses again.
\<close>

theorem arena_reset_reuse:
  assumes "arena_create virtual_alloc cap m = (a, m1)" "a \<noteq> 0"
    and "alloc_loop (arena_alloc a) rs m1 = Inr (bs, m2)"
  shows "arena_reset a m2 = Inr m1 \<and>
    bindE (arena_reset a m2) (alloc_loop (arena_alloc a) rs) = Inr (bs, m2)"
proof -
  have m1: "m1 = m(a \<mapsto> \<lparr>base = a, capacity = cap, offset = sizeof_Arena\<rparr>)"
    using assms by (auto simp: arena_create_def split: option.splits)
  have "arena_at a cap m m2"
    using arena_at_loop [OF _ assms(3)] m1 by (auto simp: arena_at_def)
  from arena_at_reset [OF this assms(2)] show ?thesis using assms(3) m1 by simp
qed

theorem arena_reset_reuse_witness:
  "\<exists>m1 m2. arena_create (\<lambda>_ _. Some 65536) 4096 Map.empty = (65536, m1) \<and>
     alloc_loop (arena_alloc 65536) [(7, 8)] m1 = Inr ([(65560, 7)], m2) \<and> m2 \<noteq> m1 \<and>
     arena_reset 65536 m2 = Inr m1"
proof -
  obtain m1 where m1: "arena_create (\<lambda>_ _. Some 65536) 4096 Map.empty = (65536, m1)"
    by (simp add: arena_create_def)
  have m1_eq: "m1 = Map.empty(65536 \<mapsto> \<lparr>base = 65536, capacity = 4096, offset = 24\<rparr>)"
    using m1 by (simp add: arena_create_def sizeof_Arena_def)
  define m2 where "m2 = m1(65536 \<mapsto> \<lparr>base = 65536, capacity = 4096, offset = 31\<rparr>)"
  have m2: "alloc_loop (arena_alloc 65536) [(7, 8)] m1 = Inr ([(65560, 7)], m2)" "m2 65536 \<noteq> m1 65536"
    by (simp_all add: m2_def m1_eq arena_alloc_def arena_deref_def Let_def)
  with arena_reset_reuse [OF m1 _ m2(1)] m1 show ?thesis by auto
qed

text \<open>
  C40: the fit check is made on the wrapped sum.  In any live arena a request of
  \<open>2^64 - offset\<close> bytes is granted although it ends far beyond the region, and it sets the
  offset to 0, so that the next allocation is handed the arena's own header.
\<close>

theorem arena_alloc_size_wraps:
  assumes "arena_ok a cap m" "8 dvd unat a"
  defines "off \<equiv> offset (the (m a))"
  shows "\<exists>m' m''. arena_alloc a m (- off) 1 = Inr (a + off, m') \<and> a + off \<noteq> 0 \<and>
    unat a + unat cap < unat (a + off) + unat (- off) \<and> arena_alloc a m' 8 8 = Inr (a, m'')"
proof -
  obtain o1 where o1: "a \<noteq> 0" "m a = Some \<lparr>base = a, capacity = cap, offset = o1\<rparr>"
    "sizeof_Arena \<le> o1" "unat a + unat cap \<le> 2 ^ 63" "unat o1 \<le> unat cap"
    using assms by (elim arena_okE) auto
  have off: "off = o1" by (simp add: off_def o1)
  have pos: "24 \<le> unat o1" using o1 by (simp add: sizeof_Arena_def word_le_nat_alt)
  have sum: "unat (a + o1) = unat a + unat o1" using o1 by (simp add: unat_word_ariths)
  have neg: "unat (- o1) = 2 ^ 64 - unat o1"
    using pos unat_uminus [of o1] by fastforce
  define m' where "m' = m(a \<mapsto> \<lparr>base = a, capacity = cap, offset = 0\<rparr>)"
  have first: "arena_alloc a m (- off) 1 = Inr (a + off, m')"
    using o1 off by (simp add: m'_def arena_alloc_def arena_deref_def Let_def)
  have nz: "a + off \<noteq> 0" using sum pos off by (metis add_eq_0_iff_both_eq_0 not_numeral_le_zero unat_0)
  have far: "unat a + unat cap < unat (a + off) + unat (- off)"
    using sum neg o1 off pos by simp
  have "unat ((a + 8 - 1) AND NOT (8 - 1)) = unat a"
    using align_up_unat [of 3 a] o1(4) assms(2) by (simp add: round_up_idem)
  then have "(a + 8 - 1) AND NOT (8 - 1) = a" by (rule unsigned_word_eqI)
  moreover have "\<not> cap < 8" using o1 pos by (simp add: word_less_nat_alt)
  ultimately have "\<exists>m''. arena_alloc a m' 8 8 = Inr (a, m'')"
    using o1 by (simp add: m'_def arena_alloc_def arena_deref_def Let_def)
  with first nz far show ?thesis by blast
qed

theorem arena_alloc_size_wraps_witness:
  "\<exists>m'. arena_alloc 65536 (Map.empty(65536 \<mapsto> \<lparr>base = 65536, capacity = 4096, offset = 24\<rparr>)) (- 24) 1
     = Inr (65560, m')"
  using arena_alloc_size_wraps [of 65536 4096 "Map.empty(65536 \<mapsto> \<lparr>base = 65536, capacity = 4096, offset = 24\<rparr>)"]
  by (auto simp: arena_ok_def sizeof_Arena_def)

text \<open>
  destroying an arena releases the region that holds its header, and the caller's pointer is
  left dangling: every later operation through it is a use after free.
\<close>

theorem arena_destroy_dangles:
  assumes "arena_ok a cap m"
  shows "\<exists>m'. arena_destroy a m = Inr m' \<and> arena_alloc a m' n al = Inl UseAfterFree \<and>
    arena_reset a m' = Inl UseAfterFree \<and> arena_destroy a m' = Inl UseAfterFree"
proof -
  obtain off where "a \<noteq> 0" "m a = Some \<lparr>base = a, capacity = cap, offset = off\<rparr>"
    using assms by (elim arena_okE) auto
  then show ?thesis
    by (simp add: arena_destroy_def arena_alloc_def arena_reset_def arena_deref_def)
qed

theorem arena_destroy_dangles_witness:
  "\<exists>m'. arena_destroy 65536 (Map.empty(65536 \<mapsto> \<lparr>base = 65536, capacity = 4096, offset = 24\<rparr>)) = Inr m' \<and>
     arena_alloc 65536 m' 16 8 = Inl UseAfterFree"
  using arena_destroy_dangles [of 65536 4096 "Map.empty(65536 \<mapsto> \<lparr>base = 65536, capacity = 4096, offset = 24\<rparr>)" 16 8]
  by (auto simp: arena_ok_def sizeof_Arena_def)

end
