(* ===== verification/Dns_Encode.thy ===== *)
theory Dns_Encode
  imports Printf
begin

text \<open>
  The sending half of \<^verbatim>\<open>04-dns_query/main.c\<close>: \<open>encode_name\<close>, which turns a domain name into
  length-prefixed labels, and \<open>build_query\<close>, which lays out the whole datagram.

  A domain is the byte list of the C string without its terminator.  Arrays are byte lists of
  the array's size; the contents of uninitialised locals are the parameter \<open>junk\<close>.  Loop
  counters keep their widths: \<open>seg_i\<close> is an 8-bit word, \<open>buf_i\<close> and \<open>domain_i\<close> are 16-bit
  words, so the name loop is a partial function of the option type.
\<close>

section \<open>encode_name\<close>

definition MAX_LABEL_TOTAL :: nat where "MAX_LABEL_TOTAL = 255"
definition MAX_LABEL_SEGMENT :: nat where "MAX_LABEL_SEGMENT = 63"

definition dot :: byte where "dot = 46"

record enc_state =
  seg_i :: u8
  buf_i :: u16
  seg_arr :: "byte list"
  buf_arr :: "byte list"

text \<open>\<open>buf[buf_i++] = b\<close>\<close>

definition put :: "byte \<Rightarrow> enc_state \<Rightarrow> enc_state c_res" where
  "put b st = bindE (wr (buf_arr st) (unat (buf_i st)) b)
     (\<lambda>buf'. Inr (st\<lparr>buf_arr := buf', buf_i := buf_i st + 1\<rparr>))"

text \<open>
  The branch taken at a dot or at the terminator; \<open>None\<close> is the early \<open>return -1\<close>.
\<close>

definition encode_flush :: "enc_state \<Rightarrow> enc_state option c_res" where
  "encode_flush st =
     (if unat (seg_i st) > MAX_LABEL_SEGMENT then Inr None
      else bindE (put (seg_i st) st) (\<lambda>st1.
           bindE (foldE (\<lambda>i st. bindE (rd (seg_arr st) i) (\<lambda>b. put b st)) [0..<unat (seg_i st)] st1) (\<lambda>st2.
             Inr (Some (st2\<lparr>seg_arr := replicate MAX_LABEL_SEGMENT 0, seg_i := 0\<rparr>)))))"

definition encode_step :: "byte \<Rightarrow> enc_state \<Rightarrow> enc_state option c_res" where
  "encode_step c st =
     (if c = dot \<or> c = 0 then encode_flush st
      else bindE (wr (seg_arr st) (unat (seg_i st)) c)
             (\<lambda>seg'. Inr (Some (st\<lparr>seg_arr := seg', seg_i := seg_i st + 1\<rparr>))))"

definition char_at :: "byte list \<Rightarrow> nat \<Rightarrow> byte" where
  "char_at domain i = (if i < length domain then domain ! i else 0)"

partial_function (option) encode_loop ::
    "byte list \<Rightarrow> u16 \<Rightarrow> enc_state \<Rightarrow> enc_state option c_res option" where
  "encode_loop domain i st =
     (if unat i < length domain + 1
      then (case encode_step (char_at domain (unat i)) st of
              Inl e \<Rightarrow> Some (Inl e)
            | Inr r \<Rightarrow> (case r of None \<Rightarrow> Some (Inr None)
                              | Some st' \<Rightarrow> encode_loop domain (i + 1) st'))
      else Some (Inr (Some st)))"

declare encode_loop.simps [code]

definition encode_name :: "(nat \<Rightarrow> byte) \<Rightarrow> byte list \<Rightarrow> byte list \<Rightarrow> (int \<times> byte list) c_res option" where
  "encode_name junk domain out =
     (case encode_loop domain 0
        \<lparr>seg_i = 0, buf_i = 0, seg_arr = map junk [0..<MAX_LABEL_SEGMENT], buf_arr = out\<rparr> of
        None \<Rightarrow> None
      | Some r \<Rightarrow> Some (bindE r (\<lambda>st'.
          case st' of None \<Rightarrow> Inr (-1, out)
          | Some st \<Rightarrow> bindE (put 0 st) (\<lambda>st.
              if unat (buf_i st) > MAX_LABEL_TOTAL then Inr (-1, buf_arr st)
              else Inr (int (unat (buf_i st)), buf_arr st)))))"

section \<open>build_query\<close>

definition DNS_TYPE_A :: u16 where "DNS_TYPE_A = 1"
definition DNS_CLASS_IN :: u16 where "DNS_CLASS_IN = 1"
definition DNS_HEADER_FLAGS :: u16 where "DNS_HEADER_FLAGS = 0x0100"

record dns_header_t =
  hid :: u16
  flags :: u16
  qdcount :: u16
  ancount :: u16
  nscount :: u16
  arcount :: u16

text \<open>The packed header in network byte order, as \<open>htons\<close> and \<open>memcpy\<close> place it.\<close>

definition header_bytes :: "dns_header_t \<Rightarrow> byte list" where
  "header_bytes h = be16_bytes (hid h) @ be16_bytes (flags h) @ be16_bytes (qdcount h) @
     be16_bytes (ancount h) @ be16_bytes (nscount h) @ be16_bytes (arcount h)"

definition query_header :: "u16 \<Rightarrow> dns_header_t" where
  "query_header i = \<lparr>hid = i, flags = DNS_HEADER_FLAGS, qdcount = 1, ancount = 0, nscount = 0, arcount = 0\<rparr>"

definition build_query ::
    "(nat \<Rightarrow> byte) \<Rightarrow> byte list \<Rightarrow> byte list \<Rightarrow> u16 \<Rightarrow> (int \<times> byte list) c_res option" where
  "build_query junk domain pkt i =
     (case wr_bytes pkt 0 (header_bytes (query_header i)) of
        Inl e \<Rightarrow> Some (Inl e)
      | Inr pkt1 \<Rightarrow>
         (case encode_name junk domain (map junk [0..<512]) of
            None \<Rightarrow> None
          | Some r \<Rightarrow> Some (bindE r (\<lambda>(domain_len, encoded).
              if domain_len < 0 then Inr (-1, pkt1)
              else let n = nat domain_len in
                bindE (wr_bytes pkt1 12 (take n encoded)) (\<lambda>pkt2.
                bindE (wr_bytes pkt2 (12 + n) (be16_bytes DNS_TYPE_A)) (\<lambda>pkt3.
                bindE (wr_bytes pkt3 (14 + n) (be16_bytes DNS_CLASS_IN)) (\<lambda>pkt4.
                  Inr (int (16 + n), pkt4))))))))"

section \<open>The wire format of a name\<close>

text \<open>The labels of a dotted name, and their encoding in RFC 1035 form.\<close>

fun split_dots :: "byte list \<Rightarrow> byte list list" where
  "split_dots [] = [[]]"
| "split_dots (c # cs) =
     (if c = dot then [] # split_dots cs
      else case split_dots cs of [] \<Rightarrow> [[c]] | l # ls \<Rightarrow> (c # l) # ls)"

definition wire_label :: "byte list \<Rightarrow> byte list" where
  "wire_label l = of_nat (length l) # l"

definition wire_name :: "byte list list \<Rightarrow> byte list" where
  "wire_name ls = concat (map wire_label ls) @ [0]"

lemma split_dots_nonempty [simp]: "split_dots cs \<noteq> []"
  by (induction cs) (auto split: list.splits)

lemma split_dots_Cons:
  "c \<noteq> dot \<Longrightarrow> split_dots (c # cs) = (c # hd (split_dots cs)) # tl (split_dots cs)"
  by (cases "split_dots cs") auto

lemma length_wire_label [simp]: "length (wire_label l) = length l + 1"
  by (simp add: wire_label_def)

lemma length_labels: "length (concat (map wire_label (split_dots cs))) = length cs + 1"
proof (induction cs)
  case (Cons c cs)
  then show ?case
    by (cases "split_dots cs") (auto simp: length_concat)
qed simp

lemma length_wire_name: "length (wire_name (split_dots cs)) = length cs + 2"
  by (simp add: wire_name_def length_labels)

text \<open>The inverse of splitting: labels joined by dots.\<close>

fun join_dots :: "byte list list \<Rightarrow> byte list" where
  "join_dots [] = []"
| "join_dots [l] = l"
| "join_dots (l # ls) = l @ dot # join_dots ls"

lemma join_split_dots: "join_dots (split_dots cs) = cs"
proof (induction cs)
  case (Cons c cs)
  then show ?case
    by (cases "split_dots cs" rule: join_dots.cases) auto
qed simp

section \<open>Correctness of the name loop\<close>

text \<open>
  \<open>enc_rep out0 out cur st\<close>: the bytes \<open>out\<close> have been written to the buffer that initially
  held \<open>out0\<close>, and \<open>cur\<close> is the label being collected.
\<close>

definition enc_rep :: "byte list \<Rightarrow> byte list \<Rightarrow> byte list \<Rightarrow> enc_state \<Rightarrow> bool" where
  "enc_rep out0 out cur st \<longleftrightarrow>
     seg_i st = of_nat (length cur) \<and> length cur \<le> 63 \<and> length (seg_arr st) = 63 \<and>
     take (length cur) (seg_arr st) = cur \<and> buf_i st = of_nat (length out) \<and>
     length out \<le> length out0 \<and> buf_arr st = out @ drop (length out) out0"

lemma unat_of_nat_u8: "n < 256 \<Longrightarrow> unat (of_nat n :: u8) = n"
  by (simp add: unat_of_nat)

lemma unat_of_nat_u16: "n < 65536 \<Longrightarrow> unat (of_nat n :: u16) = n"
  by (simp add: unat_of_nat)

lemma put_rep:
  assumes "enc_rep out0 out cur st" "length out0 < 65536"
  shows "if length out < length out0
    then \<exists>st'. put b st = Inr st' \<and> enc_rep out0 (out @ [b]) cur st' \<and> seg_arr st' = seg_arr st \<and> seg_i st' = seg_i st
    else put b st = Inl OutOfBounds"
proof -
  have u: "unat (buf_i st) = length out" and b: "buf_arr st = out @ drop (length out) out0"
    using assms by (auto simp: enc_rep_def unat_of_nat_u16)
  show ?thesis
  proof (cases "length out < length out0")
    case True
    then have "wr (buf_arr st) (unat (buf_i st)) b = Inr (out @ b # drop (Suc (length out)) out0)"
      unfolding u b by (subst wr_at_prefix) (auto simp: tl_drop drop_Suc)
    with True assms show ?thesis
      by (auto simp: put_def enc_rep_def)
  next
    case False
    then have "length (buf_arr st) \<le> length out" using b by simp
    with False show ?thesis by (simp add: put_def wr_def u)
  qed
qed

lemma copy_rep:
  assumes "length out0 < 65536"
  shows "enc_rep out0 out cur st \<Longrightarrow> k \<le> length cur \<Longrightarrow>
    (let r = foldE (\<lambda>i st. bindE (rd (seg_arr st) i) (\<lambda>b. put b st)) [k..<length cur] st in
     if length out + (length cur - k) \<le> length out0
     then \<exists>st'. r = Inr st' \<and> enc_rep out0 (out @ drop k cur) cur st'
     else r = Inl OutOfBounds)"
proof (induction "length cur - k" arbitrary: k out st)
  case 0
  then show ?case by (auto simp: enc_rep_def)
next
  case (Suc d)
  then have k: "k < length cur" "k < length (seg_arr st)" by (auto simp: enc_rep_def)
  have ck: "seg_arr st ! k = cur ! k"
    using Suc.prems(1) k by (metis enc_rep_def nth_take)
  have up: "[k..<length cur] = k # [Suc k..<length cur]" using k by (simp add: upt_conv_Cons)
  have rdk: "rd (seg_arr st) k = Inr (cur ! k)" using k ck by (simp add: rd_def)
  note p = put_rep [OF Suc.prems(1) assms, of "cur ! k"]
  show ?case
  proof (cases "length out < length out0")
    case False
    with p k show ?thesis by (simp add: up rdk Let_def)
  next
    case True
    with p obtain st' where st': "put (cur ! k) st = Inr st'" "enc_rep out0 (out @ [cur ! k]) cur st'"
      by auto
    have "drop k cur = cur ! k # drop (Suc k) cur" using k by (simp add: Cons_nth_drop_Suc)
    moreover have "length out + (length cur - k) = length (out @ [cur ! k]) + (length cur - Suc k)"
      using k by simp
    moreover have "d = length cur - Suc k" using Suc.hyps(2) by arith
    ultimately show ?thesis
      using Suc.hyps(1) [of "Suc k" "out @ [cur ! k]" st'] st' k
      by (auto simp: up rdk Let_def split: if_splits)
  qed
qed

lemma flush_rep:
  assumes rep: "enc_rep out0 out cur st" and small: "length out0 < 65536"
  shows "if length out + length (wire_label cur) \<le> length out0
    then \<exists>st'. encode_flush st = Inr (Some st') \<and> enc_rep out0 (out @ wire_label cur) [] st'
    else encode_flush st = Inl OutOfBounds"
proof -
  have si: "unat (seg_i st) = length cur" "seg_i st = of_nat (length cur)" "length cur \<le> 63"
    using rep by (auto simp: enc_rep_def unat_of_nat_u8)
  have no: "\<not> unat (seg_i st) > MAX_LABEL_SEGMENT" using si by (simp add: MAX_LABEL_SEGMENT_def)
  show ?thesis
  proof (cases "length out < length out0")
    case False
    with put_rep [OF rep small, of "seg_i st"] no show ?thesis by (simp add: encode_flush_def)
  next
    case True
    with put_rep [OF rep small, of "seg_i st"] obtain st1 where
      st1: "put (seg_i st) st = Inr st1" "enc_rep out0 (out @ [seg_i st]) cur st1" by auto
    from copy_rep [OF small st1(2), of 0] True show ?thesis
      using no st1 si
      by (auto simp: encode_flush_def Let_def wire_label_def enc_rep_def MAX_LABEL_SEGMENT_def)
  qed
qed

lemma char_rep:
  assumes "enc_rep out0 out cur st" "c \<noteq> dot" "c \<noteq> 0"
  shows "if length cur < 63
    then \<exists>st'. encode_step c st = Inr (Some st') \<and> enc_rep out0 out (cur @ [c]) st'
    else encode_step c st = Inl OutOfBounds"
proof -
  have si: "unat (seg_i st) = length cur" and t: "take (length cur) (seg_arr st) = cur"
    and l: "length (seg_arr st) = 63" "length cur \<le> 63"
    using assms by (auto simp: enc_rep_def unat_of_nat_u8)
  show ?thesis
  proof (cases "length cur < 63")
    case True
    then have "take (Suc (length cur)) ((seg_arr st)[length cur := c]) = cur @ [c]"
      using t l by (simp add: take_Suc_conv_app_nth)
    with True assms si l show ?thesis
      by (auto simp: encode_step_def wr_def enc_rep_def)
  qed (use assms si l in \<open>auto simp: encode_step_def wr_def\<close>)
qed

text \<open>The loop over the remaining characters of the C string, terminator included.\<close>

fun enc_run :: "byte list \<Rightarrow> enc_state \<Rightarrow> enc_state option c_res" where
  "enc_run [] st = Inr (Some st)"
| "enc_run (c # cs) st =
     (case encode_step c st of
        Inl e \<Rightarrow> Inl e
      | Inr r \<Rightarrow> (case r of None \<Rightarrow> Inr None | Some st' \<Rightarrow> enc_run cs st'))"

lemma drop_char:
  assumes "i < length domain + 1"
  shows "drop i (domain @ [0]) = char_at domain i # drop (i + 1) (domain @ [0])"
proof -
  have "(domain @ [0]) ! i = char_at domain i"
    using assms by (auto simp: char_at_def nth_append less_Suc_eq)
  with assms Cons_nth_drop_Suc [of i "domain @ [0]"] show ?thesis by (simp del: drop_append)
qed

lemma encode_loop_run:
  assumes "length domain < 65535" "unat i \<le> length domain + 1"
  shows "encode_loop domain i st = Some (enc_run (drop (unat i) (domain @ [0])) st)"
  using assms(2)
proof (induction "length domain + 1 - unat i" arbitrary: i st)
  case 0
  then show ?case by (simp add: encode_loop.simps)
next
  case (Suc d)
  then have less: "unat i < length domain + 1" by simp
  have i1: "unat (i + 1) = unat i + 1"
    using less assms(1) by (simp add: unat_word_ariths)
  have c: "drop (unat i) (domain @ [0]) = char_at domain (unat i) # drop (unat (i + 1)) (domain @ [0])"
    using drop_char [OF less] i1 by simp
  have ih: "encode_loop domain (i + 1) st' = Some (enc_run (drop (unat (i + 1)) (domain @ [0])) st')" for st'
    using Suc less i1 by simp
  show ?case
    using less by (subst encode_loop.simps)
      (simp add: c ih enc_run.simps del: drop_append split: sum.split option.split)
qed

definition label_ok :: "byte list \<Rightarrow> bool" where
  "label_ok l \<longleftrightarrow> length l \<le> 63"

lemma enc_run_rep:
  assumes small: "length out0 < 65536"
  shows "enc_rep out0 out cur st \<Longrightarrow> 0 \<notin> set cs \<Longrightarrow>
    (let ls = (cur @ hd (split_dots cs)) # tl (split_dots cs); w = concat (map wire_label ls) in
     if list_all label_ok ls \<and> length out + length w \<le> length out0
     then \<exists>st'. enc_run (cs @ [0]) st = Inr (Some st') \<and> enc_rep out0 (out @ w) [] st'
     else enc_run (cs @ [0]) st = Inl OutOfBounds)"
proof (induction cs arbitrary: out cur st)
  case Nil
  then have "label_ok cur" by (simp add: label_ok_def enc_rep_def)
  with flush_rep [OF Nil.prems(1) small] show ?case
    by (auto simp: encode_step_def Let_def)
next
  case (Cons c cs)
  show ?case
  proof (cases "c = dot")
    case True
    have ok: "label_ok cur" using Cons.prems by (simp add: label_ok_def enc_rep_def)
    show ?thesis
    proof (cases "length out + length (wire_label cur) \<le> length out0")
      case False
      with flush_rep [OF Cons.prems(1) small] True show ?thesis
        by (simp add: encode_step_def Let_def)
    next
      case fits: True
      with flush_rep [OF Cons.prems(1) small] obtain st' where
        st': "encode_flush st = Inr (Some st')" "enc_rep out0 (out @ wire_label cur) [] st'" by auto
      from Cons.IH [OF st'(2)] Cons.prems(2) True ok st'(1) show ?thesis
        by (auto simp: encode_step_def Let_def add.assoc split: if_splits)
    qed
  next
    case False
    have nz: "c \<noteq> 0" using Cons.prems by auto
    note ch = char_rep [OF Cons.prems(1) False nz]
    show ?thesis
    proof (cases "length cur < 63")
      case True
      with ch obtain st' where st': "encode_step c st = Inr (Some st')" "enc_rep out0 out (cur @ [c]) st'"
        by auto
      from Cons.IH [OF st'(2)] Cons.prems(2) st'(1) show ?thesis
        by (auto simp: split_dots_Cons [OF False] Let_def simp del: split_dots.simps split: if_splits)
    next
      case over: False
      with ch have "encode_step c st = Inl OutOfBounds" by simp
      with over show ?thesis
        by (simp add: split_dots_Cons [OF False] Let_def label_ok_def del: split_dots.simps)
    qed
  qed
qed

text \<open>
  On a string of any length the loop fails once the buffer is full: it has written, or still holds in
  a label of at most 63 bytes, every character it has read.
\<close>

lemma enc_run_progress:
  assumes small: "length out0 < 65536"
  shows "enc_rep out0 out cur st \<Longrightarrow> 0 \<notin> set xs \<Longrightarrow>
    enc_run xs st = Inl OutOfBounds \<or>
    (\<exists>st' out' cur'. enc_run xs st = Inr (Some st') \<and> enc_rep out0 out' cur' st' \<and>
       length out' + length cur' = length out + length cur + length xs)"
proof (induction xs arbitrary: out cur st)
  case (Cons c xs)
  have "encode_step c st = Inl OutOfBounds \<or>
    (\<exists>st' out' cur'. encode_step c st = Inr (Some st') \<and> enc_rep out0 out' cur' st' \<and>
       length out' + length cur' = length out + length cur + 1)"
  proof (cases "c = dot")
    case True
    have "length (out @ wire_label cur) + length [] = length out + length cur + 1" by simp
    with flush_rep [OF Cons.prems(1) small] True show ?thesis
      by (fastforce simp: encode_step_def split: if_splits)
  next
    case False
    have "length out + length (cur @ [c]) = length out + length cur + 1" by simp
    moreover from Cons.prems(2) have "c \<noteq> 0" by auto
    ultimately show ?thesis
      using char_rep [OF Cons.prems(1) False] by (fastforce split: if_splits)
  qed
  then show ?case
  proof (elim disjE exE conjE)
    fix st' out' cur'
    assume st': "encode_step c st = Inr (Some st')" "enc_rep out0 out' cur' st'"
      "length out' + length cur' = length out + length cur + 1"
    from Cons.IH [OF st'(2)] Cons.prems(2) show ?thesis by (simp add: st'(1,3))
  qed simp
qed auto

lemma encode_loop_prefix:
  "unat i + n \<le> length domain + 1 \<Longrightarrow> unat i + n < 65536 \<Longrightarrow>
   enc_run (take n (drop (unat i) (domain @ [0]))) st = Inl e \<Longrightarrow> encode_loop domain i st = Some (Inl e)"
proof (induction n arbitrary: i st)
  case (Suc n)
  then have less: "unat i < length domain + 1" and i1: "unat (i + 1) = unat i + 1"
    by (simp_all add: unat_word_ariths)
  have c: "drop (unat i) (domain @ [0]) = char_at domain (unat i) # drop (unat (i + 1)) (domain @ [0])"
    using drop_char [OF less] i1 by simp
  have step: "(case encode_step (char_at domain (unat i)) st of Inl e \<Rightarrow> Inl e
    | Inr r \<Rightarrow> (case r of None \<Rightarrow> Inr None
        | Some st' \<Rightarrow> enc_run (take n (drop (unat (i + 1)) (domain @ [0]))) st')) = Inl e"
    using Suc.prems(3) by (simp add: c del: drop_append)
  show ?case
    using less step Suc.IH [of "i + 1"] Suc.prems(1,2) i1
    by (subst encode_loop.simps) (auto simp del: drop_append split: sum.splits option.splits)
qed simp

lemma encode_name_overrun:
  assumes nul: "0 \<notin> set domain" and small: "length out < 65000" and long: "length out + 64 \<le> length domain"
  shows "encode_name junk domain out = Some (Inl OutOfBounds)"
proof -
  let ?st = "\<lparr>seg_i = 0, buf_i = 0, seg_arr = map junk [0..<MAX_LABEL_SEGMENT], buf_arr = out\<rparr>"
  let ?n = "length out + 64"
  have rep: "enc_rep out [] [] ?st" by (simp add: enc_rep_def MAX_LABEL_SEGMENT_def)
  have "0 \<notin> set (take ?n domain)" using nul by (meson in_set_takeD)
  from enc_run_progress [OF _ rep this] small long
  have "enc_run (take ?n domain) ?st = Inl OutOfBounds"
    by (auto simp: enc_rep_def)
  then have "encode_loop domain 0 ?st = Some (Inl OutOfBounds)"
    using encode_loop_prefix [of 0 ?n domain ?st OutOfBounds] small long by simp
  then show ?thesis by (simp add: encode_name_def)
qed

text \<open>What \<open>encode_name\<close> does on every C string shorter than its 16-bit counter can index.\<close>

lemma encode_name_eq:
  assumes nul: "0 \<notin> set domain" and short: "length domain < 65535" and small: "length out < 65536"
  shows "encode_name junk domain out = Some
    (if list_all label_ok (split_dots domain) \<and> length domain + 2 \<le> length out
     then Inr (if length domain + 2 \<le> 255 then int (length domain + 2) else - 1,
               wire_name (split_dots domain) @ drop (length domain + 2) out)
     else Inl OutOfBounds)"
proof -
  let ?w = "concat (map wire_label (split_dots domain))"
  let ?st = "\<lparr>seg_i = 0, buf_i = 0, seg_arr = map junk [0..<MAX_LABEL_SEGMENT], buf_arr = out\<rparr>"
  have rep: "enc_rep out [] [] ?st" by (simp add: enc_rep_def MAX_LABEL_SEGMENT_def)
  have loop: "encode_loop domain 0 ?st = Some (enc_run (domain @ [0]) ?st)"
    using encode_loop_run [OF short, of 0 ?st] by simp
  have len: "length ?w = length domain + 1" by (rule length_labels)
  note run = enc_run_rep [OF small rep nul, unfolded Let_def, simplified]
  show ?thesis
  proof (cases "list_all label_ok (split_dots domain) \<and> length ?w \<le> length out")
    case False
    with run len have "enc_run (domain @ [0]) ?st = Inl OutOfBounds" by auto
    with False loop len show ?thesis by (auto simp: encode_name_def)
  next
    case True
    with run obtain st' where st': "enc_run (domain @ [0]) ?st = Inr (Some st')" "enc_rep out ?w [] st'"
      by auto
    note p = put_rep [OF st'(2) small, of 0]
    show ?thesis
    proof (cases "length ?w < length out")
      case False
      with p True loop len st'(1) show ?thesis by (auto simp: encode_name_def)
    next
      case fits: True
      with p obtain st'' where st'': "put 0 st' = Inr st''" "enc_rep out (?w @ [0]) [] st''" by auto
      then have i: "buf_i st'' = of_nat (length domain + 2)"
          and b: "buf_arr st'' = wire_name (split_dots domain) @ drop (length domain + 2) out"
        using len by (auto simp: enc_rep_def wire_name_def)
      have "unat (buf_i st'') = length domain + 2"
        unfolding i by (rule unat_of_nat_u16) (use fits small len in simp)
      with b True fits loop len st'(1) st''(1) show ?thesis
        by (auto simp: encode_name_def MAX_LABEL_TOTAL_def)
    qed
  qed
qed

section \<open>Reading a name back\<close>

text \<open>An RFC 1035 reader of uncompressed names, the specification the encoder is measured against.\<close>

function read_labels :: "byte list \<Rightarrow> (byte list list \<times> byte list) option" where
  "read_labels [] = None"
| "read_labels (n # bs) =
     (if n = 0 then Some ([], bs)
      else if unat n \<le> 63 \<and> unat n \<le> length bs
      then map_option (\<lambda>(ls, r). (take (unat n) bs # ls, r)) (read_labels (drop (unat n) bs))
      else None)"
  by pat_completeness auto
termination by (relation "measure length") auto

definition host_label :: "byte list \<Rightarrow> bool" where
  "host_label l \<longleftrightarrow> 0 < length l \<and> length l \<le> 63"

lemma read_labels_wire:
  "list_all host_label ls \<Longrightarrow> read_labels (concat (map wire_label ls) @ 0 # rest) = Some (ls, rest)"
proof (induction ls)
  case (Cons l ls)
  then have l: "0 < length l" "length l \<le> 63" by (auto simp: host_label_def)
  then have u: "unat (of_nat (length l) :: u8) = length l" by (simp add: unat_of_nat_u8)
  moreover have "(of_nat (length l) :: u8) \<noteq> 0" using l u by (metis less_numeral_extra(3) unat_0)
  ultimately show ?case using Cons l by (simp add: wire_label_def)
qed simp

lemma host_label_ok: "list_all host_label ls \<Longrightarrow> list_all label_ok ls"
  by (auto simp: list_all_iff host_label_def label_ok_def)

section \<open>The layout of the query\<close>

lemma length_header_bytes [simp]: "length (header_bytes h) = 12"
  by (simp add: header_bytes_def)

definition query_bytes :: "u16 \<Rightarrow> byte list \<Rightarrow> byte list" where
  "query_bytes i domain = header_bytes (query_header i) @ wire_name (split_dots domain) @
     be16_bytes DNS_TYPE_A @ be16_bytes DNS_CLASS_IN"

lemma length_query_bytes: "length (query_bytes i domain) = length domain + 18"
  by (simp add: query_bytes_def length_wire_name)

lemma build_query_eq:
  assumes "0 \<notin> set domain" "list_all label_ok (split_dots domain)" "length domain \<le> 253"
    and "length domain + 18 \<le> length pkt"
  shows "build_query junk domain pkt i =
    Some (Inr (int (length domain + 18), query_bytes i domain @ drop (length domain + 18) pkt))"
proof -
  let ?w = "wire_name (split_dots domain)" and ?n = "length domain + 2"
  have enc: "encode_name junk domain (map junk [0..<512]) =
      Some (Inr (int ?n, ?w @ drop ?n (map junk [0..<512])))"
    using assms by (subst encode_name_eq) auto
  have w: "length ?w = ?n" by (rule length_wire_name)
  have p1: "wr_bytes pkt 0 (header_bytes (query_header i)) =
      Inr (header_bytes (query_header i) @ drop 12 pkt)"
    using assms by (simp add: wr_bytes_def)
  have p2: "wr_bytes (header_bytes (query_header i) @ drop 12 pkt) 12 ?w =
      Inr (header_bytes (query_header i) @ ?w @ drop (12 + ?n) pkt)"
    using assms w by (simp add: wr_bytes_def add.commute)
  have p3: "wr_bytes (header_bytes (query_header i) @ ?w @ drop (12 + ?n) pkt) (12 + ?n) (be16_bytes DNS_TYPE_A) =
      Inr (header_bytes (query_header i) @ ?w @ be16_bytes DNS_TYPE_A @ drop (14 + ?n) pkt)"
    using assms w by (simp add: wr_bytes_def add.commute)
  have p4: "wr_bytes (header_bytes (query_header i) @ ?w @ be16_bytes DNS_TYPE_A @ drop (14 + ?n) pkt) (14 + ?n)
        (be16_bytes DNS_CLASS_IN) =
      Inr (header_bytes (query_header i) @ ?w @ be16_bytes DNS_TYPE_A @ be16_bytes DNS_CLASS_IN @ drop (16 + ?n) pkt)"
    using assms w by (simp add: wr_bytes_def add.commute)
  have t: "take ?n (?w @ drop ?n (map junk [0..<512])) = ?w" using w by simp
  have "nat (int ?n) = ?n" by simp
  with enc p1 p2 p3 p4 t show ?thesis
    by (simp add: build_query_def Let_def query_bytes_def add.commute del: take_append)
qed

section \<open>Properties\<close>

text \<open>
  C7: for every domain whose labels are 1 to 63 bytes long and whose encoding fits 255 bytes,
  \<open>encode_name\<close> returns, reports the number of bytes written, leaves the rest of the buffer
  alone, and an RFC 1035 reader recovers exactly the domain's labels from what it wrote.
\<close>

theorem encode_name_roundtrip:
  assumes "0 \<notin> set domain" "list_all host_label (split_dots domain)" "length domain \<le> 253"
    and "255 \<le> length out" "length out < 65536"
  shows "\<exists>w. encode_name junk domain out =
      Some (Inr (int (length w), w @ drop (length w) out)) \<and> length w = length domain + 2 \<and>
    (\<exists>ls. read_labels w = Some (ls, []) \<and> join_dots ls = domain)"
proof -
  let ?w = "wire_name (split_dots domain)"
  have "encode_name junk domain out = Some (Inr (int (length ?w), ?w @ drop (length ?w) out))"
    using assms host_label_ok by (subst encode_name_eq) (auto simp: length_wire_name)
  moreover have "read_labels ?w = Some (split_dots domain, [])"
    using read_labels_wire [OF assms(2), of "[]"] by (simp add: wire_name_def)
  ultimately show ?thesis
    using length_wire_name join_split_dots by blast
qed

theorem encode_name_roundtrip_witness:
  "\<exists>w. encode_name (\<lambda>_. 7) (bytes_of ''a.bc'') (replicate 512 9) =
      Some (Inr (int (length w), w @ drop (length w) (replicate 512 9))) \<and>
    (\<exists>ls. read_labels w = Some (ls, []) \<and> join_dots ls = bytes_of ''a.bc'')"
  using encode_name_roundtrip [of "bytes_of ''a.bc''" "replicate 512 9" "\<lambda>_. 7"]
  by (force simp: bytes_of_def dot_def host_label_def)

text \<open>
  C34: a label of more than 63 bytes makes \<open>encode_name\<close> write past the end of its local array
  \<open>seg\<close>: the length check is made only after the label has been copied, so the early
  \<open>return -1\<close> for over-long labels is never reached.
\<close>

theorem encode_name_long_label:
  assumes "0 \<notin> set domain" "length domain < 65535" "length out < 65536"
    and "l \<in> set (split_dots domain)" "63 < length l"
  shows "encode_name junk domain out = Some (Inl OutOfBounds)"
proof -
  have "\<not> list_all label_ok (split_dots domain)"
    using assms(4,5) by (auto simp: list_all_iff label_ok_def not_le)
  with assms(1-3) show ?thesis by (subst encode_name_eq) auto
qed

theorem encode_name_long_label_witness:
  "encode_name (\<lambda>_. 0) (replicate 64 97) (replicate 512 0) = Some (Inl OutOfBounds)"
proof -
  have "split_dots (replicate n 97) = [replicate n 97]" for n
    by (induction n) (auto simp: dot_def)
  then show ?thesis
    using encode_name_long_label [of "replicate 64 97" "replicate 512 0" "replicate 64 97"] by simp
qed

text \<open>
  C33: every name whose labels fit but whose encoding would exceed 255 bytes is refused, but not
  always in time.  Up to 510 characters the encoding still fits the 512 bytes of \<open>encoded_domain\<close>:
  \<open>encode_name\<close> returns \<open>-1\<close>, and \<open>build_query\<close> returns \<open>-1\<close> having written the header only.  A longer
  name, however long, is written past the end of \<open>encoded_domain\<close> before the length is tested.
\<close>

theorem build_query_rejects_long_name:
  assumes "0 \<notin> set domain" "list_all label_ok (split_dots domain)"
    and "253 < length domain" "12 \<le> length pkt"
  shows "if length domain \<le> 510
    then encode_name junk domain (map junk [0..<512]) =
        Some (Inr (- 1, wire_name (split_dots domain) @ drop (length domain + 2) (map junk [0..<512]))) \<and>
      build_query junk domain pkt i = Some (Inr (- 1, header_bytes (query_header i) @ drop 12 pkt))
    else encode_name junk domain (map junk [0..<512]) = Some (Inl OutOfBounds) \<and>
      build_query junk domain pkt i = Some (Inl OutOfBounds)"
proof (cases "length domain \<le> 510")
  case True
  then have "encode_name junk domain (map junk [0..<512]) =
      Some (Inr (- 1, wire_name (split_dots domain) @ drop (length domain + 2) (map junk [0..<512])))"
    using assms by (subst encode_name_eq) auto
  with True assms(4) show ?thesis by (simp add: build_query_def wr_bytes_def)
next
  case False
  then have "encode_name junk domain (map junk [0..<512]) = Some (Inl OutOfBounds)"
    using assms(1) encode_name_overrun [of domain "map junk [0..<512]" junk]
      encode_name_eq [of domain "map junk [0..<512]" junk]
    by (cases "length domain < 65535") auto
  with False assms(4) show ?thesis by (simp add: build_query_def wr_bytes_def)
qed

theorem build_query_rejects_long_name_witness:
  "build_query (\<lambda>_. 0) (concat (replicate 127 [97, dot])) (replicate 512 0) 5 =
     Some (Inr (- 1, header_bytes (query_header 5) @ replicate 500 0)) \<and>
   build_query (\<lambda>_. 0) (concat (replicate 256 [97, dot])) (replicate 512 0) 5 = Some (Inl OutOfBounds)"
proof -
  let ?d = "\<lambda>n. concat (replicate n [97 :: byte, dot])"
  have ls: "split_dots (?d n) = replicate n [97] @ [[]]" for n
    by (induction n) (auto simp: dot_def split: list.splits)
  have "0 \<notin> set (?d n)" for n by (auto simp: dot_def)
  moreover have "list_all label_ok (split_dots (?d n))" for n
    unfolding ls by (auto simp: list_all_iff label_ok_def)
  moreover have "length (?d n) = 2 * n" for n by (simp add: length_concat sum_list_replicate)
  ultimately show ?thesis
    using build_query_rejects_long_name [of "?d 127" "replicate 512 0" "\<lambda>_. 0" 5]
      build_query_rejects_long_name [of "?d 256" "replicate 512 0" "\<lambda>_. 0" 5]
    by (simp add: dot_def)
qed

text \<open>
  C17: the datagram \<open>build_query\<close> lays out for a valid name: a 12-byte header that carries the
  given id, the recursion-desired flag and one question, then the encoded name, then type A
  and class IN, every field in network byte order.
\<close>

theorem build_query_layout:
  assumes "0 \<notin> set domain" "list_all host_label (split_dots domain)" "length domain \<le> 253"
    and "271 \<le> length pkt"
  shows "\<exists>pkt' n. build_query junk domain pkt i = Some (Inr (int n, pkt')) \<and>
    length pkt' = length pkt \<and> n = length domain + 18 \<and> drop n pkt' = drop n pkt \<and>
    be16 pkt' 0 = Inr i \<and> be16 pkt' 2 = Inr 0x0100 \<and> be16 pkt' 4 = Inr 1 \<and>
    be16 pkt' 6 = Inr 0 \<and> be16 pkt' 8 = Inr 0 \<and> be16 pkt' 10 = Inr 0 \<and>
    read_labels (drop 12 pkt') = Some (split_dots domain, drop (n - 4) pkt') \<and>
    be16 pkt' (n - 4) = Inr DNS_TYPE_A \<and> be16 pkt' (n - 2) = Inr DNS_CLASS_IN"
proof -
  let ?h = "query_header i" and ?w = "wire_name (split_dots domain)"
  let ?t = "be16_bytes DNS_TYPE_A" and ?c = "be16_bytes DNS_CLASS_IN"
  let ?n = "length domain + 18"
  define pkt' where "pkt' = query_bytes i domain @ drop ?n pkt"
  have q: "build_query junk domain pkt i = Some (Inr (int ?n, pkt'))"
    unfolding pkt'_def using assms host_label_ok by (intro build_query_eq) auto
  have w: "length ?w = length domain + 2" by (rule length_wire_name)
  have l: "length pkt' = length pkt" using assms by (simp add: pkt'_def length_query_bytes)
  have d: "drop ?n pkt' = drop ?n pkt" by (simp add: pkt'_def length_query_bytes)
  have t: "be16 pkt' (?n - 4) = Inr DNS_TYPE_A"
    using be16.dec_enc [of "header_bytes ?h @ ?w" DNS_TYPE_A "?c @ drop ?n pkt"] w
    by (simp add: pkt'_def query_bytes_def)
  have c: "be16 pkt' (?n - 2) = Inr DNS_CLASS_IN"
    using be16.dec_enc [of "header_bytes ?h @ ?w @ ?t" DNS_CLASS_IN "drop ?n pkt"] w
    by (simp add: pkt'_def query_bytes_def)
  have ident: "be16 pkt' 0 = Inr i"
    by (simp add: pkt'_def query_bytes_def header_bytes_def query_header_def be16_eq be16_bytes_def)
  have hdr: "be16 pkt' 2 = Inr 0x0100" "be16 pkt' 4 = Inr 1"
    "be16 pkt' 6 = Inr 0" "be16 pkt' 8 = Inr 0" "be16 pkt' 10 = Inr 0"
    by (simp_all add: pkt'_def query_bytes_def header_bytes_def query_header_def DNS_HEADER_FLAGS_def
        be16_eq be16_bytes_def nth_append be16_of_def)
  have "read_labels (drop 12 pkt') = Some (split_dots domain, drop (?n - 4) pkt')"
    using read_labels_wire [OF assms(2), of "?t @ ?c @ drop ?n pkt"] w
    by (simp add: pkt'_def query_bytes_def wire_name_def)
  with q l d t c ident hdr show ?thesis by blast
qed

theorem build_query_layout_witness:
  "\<exists>pkt'. build_query (\<lambda>_. 0) (bytes_of ''a.bc'') (replicate 512 0) 4660 = Some (Inr (22, pkt')) \<and>
     be16 pkt' 0 = Inr 4660"
  using build_query_layout [of "bytes_of ''a.bc''" "replicate 512 0" "\<lambda>_. 0" 4660]
  by (force simp: bytes_of_def dot_def host_label_def)

text \<open>
  a fully qualified name with its trailing dot is encoded with a spurious empty label: the
  name proper ends one byte early, so one zero byte of the encoding is left where a server
  reads the query type.
\<close>

theorem encode_name_trailing_dot:
  assumes "0 \<notin> set domain" "list_all host_label (split_dots domain)" "length domain \<le> 252"
    and "255 \<le> length out" "length out < 65536"
  shows "\<exists>w. encode_name junk (domain @ [dot]) out =
      Some (Inr (int (length w), w @ drop (length w) out)) \<and>
    read_labels w = Some (split_dots domain, [0])"
proof -
  have sp: "split_dots (domain @ [dot]) = split_dots domain @ [[]]"
  proof (induction domain)
    case (Cons c cs)
    then show ?case by (cases "split_dots cs") auto
  qed simp
  let ?w = "wire_name (split_dots (domain @ [dot]))"
  have "0 \<notin> set (domain @ [dot])" using assms(1) by (simp add: dot_def)
  moreover have "list_all label_ok (split_dots (domain @ [dot]))"
    using host_label_ok [OF assms(2)] by (simp add: sp label_ok_def)
  ultimately have "encode_name junk (domain @ [dot]) out =
      Some (Inr (int (length ?w), ?w @ drop (length ?w) out))"
    using assms by (subst encode_name_eq) (auto simp: length_wire_name)
  moreover have "read_labels ?w = Some (split_dots domain, [0])"
    using read_labels_wire [OF assms(2), of "[0]"] by (simp add: sp wire_name_def wire_label_def)
  ultimately show ?thesis by blast
qed

theorem encode_name_trailing_dot_witness:
  "\<exists>w. encode_name (\<lambda>_. 0) (bytes_of ''a.b'' @ [dot]) (replicate 512 0) =
      Some (Inr (int (length w), w @ drop (length w) (replicate 512 0))) \<and>
    read_labels w = Some (split_dots (bytes_of ''a.b''), [0])"
  using encode_name_trailing_dot [of "bytes_of ''a.b''" "replicate 512 0" "\<lambda>_. 0"]
  by (force simp: bytes_of_def dot_def host_label_def)

end
