(* ===== verification/Dns_Parse.thy ===== *)
theory Dns_Parse
  imports Dns_Encode
begin

text \<open>
  The receiving half of \<^verbatim>\<open>04-dns_query/main.c\<close>: \<open>skip_name\<close>, \<open>print_header\<close>,
  \<open>parse_response\<close> and \<open>main\<close>.

  \<open>buf\<close> is the whole receive array; only its first \<open>len\<close> bytes were received, the rest is
  whatever the array held.  Reads are checked against the array, so \<open>Inl OutOfBounds\<close> is a
  read outside the array and a result that depends on bytes from \<open>len\<close> on is an over-read.
  Printed text is a list of lines.  The positions stay far below \<open>2^31\<close> (they never exceed
  \<open>len + 65550\<close>), so the \<open>int\<close> arithmetic of the code is exact on naturals.
\<close>

section \<open>skip_name\<close>

text \<open>The result pairs the return value (0 or -1) with the final \<open>*pos\<close>.\<close>

function skip_name :: "byte list \<Rightarrow> nat \<Rightarrow> nat \<Rightarrow> (int \<times> nat) c_res" where
  "skip_name buf len pos =
     (if pos < len
      then bindE (rd buf pos) (\<lambda>label_len.
             if label_len = 0 then Inr (0, pos + 1)
             else if label_len AND 0xC0 = 0xC0 then Inr (0, pos + 2)
             else skip_name buf len (pos + 1 + unat label_len))
      else Inr (- 1, pos))"
  by pat_completeness auto
termination by (relation "measure (\<lambda>(buf, len, pos). len - pos)") auto

declare skip_name.simps [simp del]

section \<open>parse_response\<close>

definition read_header :: "byte list \<Rightarrow> dns_header_t c_res" where
  "read_header buf =
     bindE (be16 buf 0) (\<lambda>i. bindE (be16 buf 2) (\<lambda>f. bindE (be16 buf 4) (\<lambda>qd.
     bindE (be16 buf 6) (\<lambda>an. bindE (be16 buf 8) (\<lambda>ns. bindE (be16 buf 10) (\<lambda>ar.
       Inr \<lparr>hid = i, flags = f, qdcount = qd, ancount = an, nscount = ns, arcount = ar\<rparr>))))))"

text \<open>\<open>(f >> s) & m\<close>, stored in a \<open>uint8_t\<close>.\<close>

definition flag_field :: "u16 \<Rightarrow> nat \<Rightarrow> u16 \<Rightarrow> u8" where
  "flag_field f s m = ucast (drop_bit s f AND m)"

definition print_header :: "dns_header_t \<Rightarrow> string list" where
  "print_header h =
     (let f = flags h;
          qr = flag_field f 15 0x1; opcode = flag_field f 11 0xF; aa = flag_field f 10 0x1;
          tc = flag_field f 9 0x1; rdf = flag_field f 8 0x1; ra = flag_field f 7 0x1;
          z = flag_field f 4 0x7; rcode = flag_field f 0 0xF;
          u = (\<lambda>b :: u8. fmt_u (unat b))
      in [''  ID:     '' @ fmt_u (unat (hid h)),
          ''  FLAGS:  0x'' @ pad_left CHR ''0'' 4 (fmt_X (unat f)),
          ''    QR:     '' @ u qr @ '' ('' @ (if qr \<noteq> 0 then ''response'' else ''query'') @ '')'',
          ''    Opcode: '' @ u opcode @ '' ('' @ (if opcode = 0 then ''standard query'' else ''other'') @ '')'',
          ''    AA:     '' @ u aa,
          ''    TC:     '' @ u tc,
          ''    RD:     '' @ u rdf,
          ''    RA:     '' @ u ra,
          ''    Z:      '' @ u z,
          ''    RCODE:  '' @ u rcode @ '' ('' @
            (if rcode = 0 then ''no error'' else if rcode = 3 then ''NXDOMAIN'' else ''other'') @ '')'',
          ''  QDCOUNT: '' @ fmt_u (unat (qdcount h)),
          ''  ANCOUNT: '' @ fmt_u (unat (ancount h)),
          ''  NSCOUNT: '' @ fmt_u (unat (nscount h)),
          ''  ARCOUNT: '' @ fmt_u (unat (arcount h))])"

text \<open>\<open>inet_ntop(AF_INET, ...)\<close>: four bytes in dotted decimal.\<close>

definition inet_ntop :: "byte list \<Rightarrow> string" where
  "inet_ntop bs = concat (map (\<lambda>b. fmt_u (unat b) @ ''.'') (butlast bs)) @ fmt_u (unat (last bs))"

definition a_line :: "byte list \<Rightarrow> u32 \<Rightarrow> u16 \<Rightarrow> string" where
  "a_line addr ttl cls =
     ''  A  '' @ inet_ntop addr @ ''  TTL='' @ fmt_u (unat ttl) @ '' Class:'' @ fmt_u (unat cls)"

text \<open>The answer loop: \<open>n\<close> records left, \<open>an\<close> the 16-bit loop counter.\<close>

fun parse_answers :: "byte list \<Rightarrow> nat \<Rightarrow> nat \<Rightarrow> u16 \<Rightarrow> nat \<Rightarrow> string list c_res" where
  "parse_answers buf len 0 an pos = Inr []"
| "parse_answers buf len (Suc n) an pos =
     bindE (skip_name buf len pos) (\<lambda>(r, pos).
       if r = - 1 then Inr [''Error skipping past name, in an = '' @ fmt_u (unat an)]
       else
         bindE (be16 buf pos) (\<lambda>type.
         bindE (be16 buf (pos + 2)) (\<lambda>cls.
         bindE (be32 buf (pos + 4)) (\<lambda>ttl.
         bindE (be16 buf (pos + 8)) (\<lambda>rdlen.
         bindE (if type = DNS_TYPE_A \<and> rdlen = 4
                then bindE (rd_bytes buf (pos + 10) 4) (\<lambda>addr. Inr [a_line addr ttl cls])
                else Inr []) (\<lambda>line.
         bindE (parse_answers buf len n (an + 1) (pos + 10 + unat rdlen)) (\<lambda>rest.
           Inr (line @ rest))))))))"

definition parse_response :: "byte list \<Rightarrow> nat \<Rightarrow> u16 \<Rightarrow> string list c_res" where
  "parse_response buf len expected_id =
     (let recv = [''Recv '' @ fmt_u len @ '' bytes'', ''''] in
      if len < 12 then Inr (recv @ [''Did not receive header''])
      else bindE (read_header buf) (\<lambda>h.
        let out = recv @ [''Header recv:''] @ print_header h in
        if expected_id \<noteq> hid h then Inr (out @ [''Header IDs do not match!''])
        else bindE (skip_name buf len 12) (\<lambda>(r, pos).
          if r = - 1 then Inr (out @ ['''', ''Error skipping past name''])
          else bindE (parse_answers buf len (unat (ancount h)) 0 (pos + 4)) (\<lambda>ls.
            Inr (out @ [''''] @ ls)))))"

section \<open>main\<close>

text \<open>
  What the operating system contributes to a run: the process id, the result of \<open>socket\<close>, and
  the result of \<open>recvfrom\<close> with the contents of \<open>resp\<close> afterwards, as a function of the
  datagram that was sent.
\<close>

record dns_env =
  env_pid :: u32
  env_socket :: int
  env_recv :: "byte list \<Rightarrow> int \<times> byte list"

datatype dns_event = Out string | Perror string | SendTo int "byte list"

definition dns_main ::
    "(nat \<Rightarrow> byte) \<Rightarrow> byte list list \<Rightarrow> dns_env \<Rightarrow> (int \<times> dns_event list) c_res option" where
  "dns_main junk argv env =
     (if length argv \<noteq> 2
      then Some (Inr (1, [Perror (''usage: '' @ text_of (hd (argv @ [[]])) @ '' <domain>'')]))
      else
        let i = ucast (env_pid env) :: u16; ev0 = [Out (''Header ID: '' @ fmt_u (unat i))] in
        case build_query junk (argv ! 1) (map junk [0..<512]) i of
          None \<Rightarrow> None
        | Some q \<Rightarrow> Some (bindE q (\<lambda>(pkt_len, pkt).
            if env_socket env < 0 then Inr (1, ev0 @ [Perror ''socket''])
            else
              let sent = take (nat pkt_len) pkt;
                  ev1 = ev0 @ [SendTo pkt_len sent];
                  (rlen, resp) = env_recv env sent
              in if rlen < 0 then Inr (1, ev1 @ [Perror ''recvfrom''])
                 else bindE (parse_response resp (nat rlen) i) (\<lambda>ls.
                   Inr (0, ev1 @ map Out ls)))))"

section \<open>Facts about skip_name\<close>

text \<open>
  What the two callers rely on: a successful skip moves forward and never past the byte after
  the received data, a failed one has reached the end, and no byte outside the received data
  is read.
\<close>

locale name_skipper =
  fixes skip :: "byte list \<Rightarrow> nat \<Rightarrow> nat \<Rightarrow> (int \<times> nat) c_res"
  assumes skip_total: "len \<le> length buf \<Longrightarrow> \<exists>r pos'. skip buf len pos = Inr (r, pos') \<and> (r = 0 \<or> r = - 1)"
    and skip_ok: "skip buf len pos = Inr (0, pos') \<Longrightarrow> pos < pos' \<and> pos' \<le> len + 1"
    and skip_fail: "skip buf len pos = Inr (- 1, pos') \<Longrightarrow> len \<le> pos'"
    and skip_local: "take len buf = take len buf' \<Longrightarrow> len \<le> length buf \<Longrightarrow> len \<le> length buf' \<Longrightarrow>
      skip buf len pos = skip buf' len pos"
begin

text \<open>
  A record header read after a successful skip stays within ten bytes of the data's end, and
  the four address bytes within fourteen.
\<close>

lemma fields_in_slack:
  assumes "skip buf len pos = Inr (0, pos')" "len + 15 \<le> length buf"
  shows "(\<exists>t. be16 buf pos' = Inr t) \<and> (\<exists>c. be16 buf (pos' + 2) = Inr c) \<and>
    (\<exists>l. be32 buf (pos' + 4) = Inr l) \<and> (\<exists>n. be16 buf (pos' + 8) = Inr n) \<and>
    (\<exists>a. rd_bytes buf (pos' + 10) 4 = Inr a)"
proof -
  have "pos' \<le> len + 1" using skip_ok [OF assms(1)] by simp
  with assms(2) show ?thesis
    by (auto simp: rd_bytes_def intro!: be16.dec_total be32.dec_total)
qed

lemma skip_cases:
  assumes "len \<le> length buf"
  obtains (ok) pos' where "skip buf len pos = Inr (0, pos')"
    | (fail) pos' where "skip buf len pos = Inr (- 1, pos')" "len \<le> pos'"
  using skip_total [OF assms, of pos] skip_fail by blast

end

interpretation dns: name_skipper skip_name
proof unfold_locales
  show "\<exists>r pos'. skip_name buf len pos = Inr (r, pos') \<and> (r = 0 \<or> r = - 1)"
    if "len \<le> length buf" for len buf pos
    using that
  proof (induction buf len pos rule: skip_name.induct)
    case (1 buf len pos)
    then show ?case
      by (subst skip_name.simps) (auto simp: rd_def)
  qed
  show "pos < pos' \<and> pos' \<le> len + 1" if "skip_name buf len pos = Inr (0, pos')" for buf len pos pos'
    using that
  proof (induction buf len pos rule: skip_name.induct)
    case (1 buf len pos)
    from "1.prems" "1.IH" show ?case
      by (subst (asm) skip_name.simps) (fastforce simp: bindE_Inr_iff split: if_splits)
  qed
  show "len \<le> pos'" if "skip_name buf len pos = Inr (- 1, pos')" for buf len pos pos'
    using that
  proof (induction buf len pos rule: skip_name.induct)
    case (1 buf len pos)
    from "1.prems" "1.IH" show ?case
      by (subst (asm) skip_name.simps) (auto simp: bindE_Inr_iff split: if_splits)
  qed
  show "skip_name buf len pos = skip_name buf' len pos"
    if "take len buf = take len buf'" "len \<le> length buf" "len \<le> length buf'" for buf buf' len pos
    using that
  proof (induction buf len pos rule: skip_name.induct)
    case (1 buf len pos)
    have "pos < len \<Longrightarrow> rd buf pos = rd buf' pos"
      using "1.prems" by (auto simp: rd_def) (metis nth_take)
    with "1.IH" "1.prems" show ?case
      by (subst (1 2) skip_name.simps) (auto intro!: bindE_cong)
  qed
qed

section \<open>Well-formed messages\<close>

text \<open>
  A name on the wire as the RFC has it: labels ended by the root label or by a two-byte
  compression pointer.
\<close>

function name_ok :: "byte list \<Rightarrow> bool" where
  "name_ok [] = False"
| "name_ok (n # bs) =
     (if n = 0 then bs = []
      else if n AND 0xC0 = 0xC0 then length bs = 1
      else unat n \<le> length bs \<and> name_ok (drop (unat n) bs))"
  by pat_completeness auto
termination by (relation "measure length") auto

lemma skip_name_ok:
  "name_ok nm \<Longrightarrow> length pre + length nm \<le> len \<Longrightarrow>
   skip_name (pre @ nm @ post) len (length pre) = Inr (0, length pre + length nm)"
proof (induction nm arbitrary: pre rule: name_ok.induct)
  case (2 n bs)
  have less: "length pre < len" using "2.prems" by simp
  show ?case
  proof (cases "n = 0 \<or> n AND 0xC0 = 0xC0")
    case True
    with "2.prems" less show ?thesis by (subst skip_name.simps) (auto split: if_splits)
  next
    case False
    with "2.prems" have u: "unat n \<le> length bs" "name_ok (drop (unat n) bs)" by auto
    let ?pre = "pre @ n # take (unat n) bs"
    have l: "length ?pre = length pre + 1 + unat n" using u by simp
    have "skip_name (?pre @ drop (unat n) bs @ post) len (length ?pre) =
        Inr (0, length ?pre + length (drop (unat n) bs))"
      using "2.IH" [of ?pre] False u "2.prems" l by auto
    moreover have "take (unat n) bs @ drop (unat n) bs @ post = bs @ post"
      by (metis append.assoc append_take_drop_id)
    ultimately have "skip_name (pre @ (n # bs) @ post) len (length pre + 1 + unat n) =
        Inr (0, length pre + length (n # bs))"
      using l u by simp
    with False less show ?thesis by (subst skip_name.simps) simp
  qed
qed simp

record rr =
  rr_name :: "byte list"
  rr_type :: u16
  rr_class :: u16
  rr_ttl :: u32
  rr_data :: "byte list"

definition rr_ok :: "rr \<Rightarrow> bool" where
  "rr_ok r \<longleftrightarrow> name_ok (rr_name r) \<and> length (rr_data r) < 65536"

definition wire_rr :: "rr \<Rightarrow> byte list" where
  "wire_rr r = rr_name r @ be16_bytes (rr_type r) @ be16_bytes (rr_class r) @ be32_bytes (rr_ttl r) @
     be16_bytes (of_nat (length (rr_data r))) @ rr_data r"

definition is_A :: "rr \<Rightarrow> bool" where
  "is_A r \<longleftrightarrow> rr_type r = DNS_TYPE_A \<and> length (rr_data r) = 4"

definition a_lines :: "rr list \<Rightarrow> string list" where
  "a_lines rs = map (\<lambda>r. a_line (rr_data r) (rr_ttl r) (rr_class r)) (filter is_A rs)"

lemma of_nat_u16_eq_4: "n < 65536 \<Longrightarrow> (of_nat n :: u16) = 4 \<longleftrightarrow> n = 4"
proof
  assume n: "n < 65536" and e: "(of_nat n :: u16) = 4"
  from e have "unat (of_nat n :: u16) = unat (4 :: u16)" by (rule arg_cong)
  with n show "n = 4" by (simp add: unat_of_nat_u16)
qed simp

text \<open>The fields of a record that starts at the end of \<open>pre\<close>.\<close>

lemma wire_rr_fields:
  fixes pre post r
  defines "buf \<equiv> pre @ wire_rr r @ post" and "p \<equiv> length pre + length (rr_name r)"
  shows "be16 buf p = Inr (rr_type r)" "be16 buf (p + 2) = Inr (rr_class r)"
    "be32 buf (p + 4) = Inr (rr_ttl r)" "be16 buf (p + 8) = Inr (of_nat (length (rr_data r)))"
    "length (rr_data r) = 4 \<Longrightarrow> rd_bytes buf (p + 10) 4 = Inr (rr_data r)"
proof -
  let ?t = "be16_bytes (rr_type r)" and ?c = "be16_bytes (rr_class r)" and ?l = "be32_bytes (rr_ttl r)"
  let ?n = "be16_bytes (of_nat (length (rr_data r)))"
  show "be16 buf p = Inr (rr_type r)"
    using be16.dec_enc [of "pre @ rr_name r" "rr_type r" "?c @ ?l @ ?n @ rr_data r @ post"]
    by (simp add: buf_def p_def wire_rr_def)
  show "be16 buf (p + 2) = Inr (rr_class r)"
    using be16.dec_enc [of "pre @ rr_name r @ ?t" "rr_class r" "?l @ ?n @ rr_data r @ post"]
    by (simp add: buf_def p_def wire_rr_def add.assoc)
  show "be32 buf (p + 4) = Inr (rr_ttl r)"
    using be32.dec_enc [of "pre @ rr_name r @ ?t @ ?c" "rr_ttl r" "?n @ rr_data r @ post"]
    by (simp add: buf_def p_def wire_rr_def add.assoc)
  show "be16 buf (p + 8) = Inr (of_nat (length (rr_data r)))"
    using be16.dec_enc [of "pre @ rr_name r @ ?t @ ?c @ ?l" "of_nat (length (rr_data r))" "rr_data r @ post"]
    by (simp add: buf_def p_def wire_rr_def add.assoc)
  show "rd_bytes buf (p + 10) 4 = Inr (rr_data r)" if "length (rr_data r) = 4"
    using that by (simp add: rd_bytes_def buf_def p_def wire_rr_def)
qed

lemma length_wire_rr: "length (wire_rr r) = length (rr_name r) + 10 + length (rr_data r)"
  by (simp add: wire_rr_def)

lemma parse_answers_rrs:
  "list_all rr_ok rs \<Longrightarrow> length pre + length (concat (map wire_rr rs)) \<le> len \<Longrightarrow>
   parse_answers (pre @ concat (map wire_rr rs) @ post) len (length rs) an (length pre) = Inr (a_lines rs)"
proof (induction rs arbitrary: pre an)
  case Nil
  then show ?case by (simp add: a_lines_def)
next
  case (Cons r rs)
  then have "rr_ok r" and rs: "list_all rr_ok rs" by simp_all
  then have ok: "name_ok (rr_name r)" "length (rr_data r) < 65536"
    by (simp_all add: rr_ok_def)
  let ?post = "concat (map wire_rr rs) @ post"
  let ?buf = "pre @ wire_rr r @ ?post"
  have split: "?buf = pre @ rr_name r @ (drop (length (rr_name r)) (wire_rr r) @ ?post)"
    by (simp add: wire_rr_def)
  have skip: "skip_name ?buf len (length pre) = Inr (0, length pre + length (rr_name r))"
    using Cons.prems(2) ok(1) unfolding split
    by (intro skip_name_ok) (auto simp: length_wire_rr)
  note f = wire_rr_fields [where pre = pre and r = r and post = ?post]
  have ih: "parse_answers ?buf len (length rs) (an + 1)
      (length pre + length (rr_name r) + 10 + length (rr_data r)) = Inr (a_lines rs)"
    using Cons.IH [OF rs, of "pre @ wire_rr r" "an + 1"] Cons.prems(2)
    by (simp add: length_wire_rr add.assoc)
  have u: "unat (of_nat (length (rr_data r)) :: u16) = length (rr_data r)"
    using ok by (simp add: unat_of_nat_u16)
  show ?case
    using skip f ih u of_nat_u16_eq_4 [OF ok(2)]
    by (auto simp: a_lines_def is_A_def)
qed

lemma read_header_bytes: "read_header (header_bytes h @ post) = Inr h"
proof -
  let ?b = "\<lambda>x. be16_bytes (x h)"
  have "be16 (header_bytes h @ post) 0 = Inr (hid h)"
    using be16.dec_enc [of "[]" "hid h"] by (simp add: header_bytes_def)
  moreover have "be16 (header_bytes h @ post) 2 = Inr (flags h)"
    using be16.dec_enc [of "?b hid" "flags h"] by (simp add: header_bytes_def)
  moreover have "be16 (header_bytes h @ post) 4 = Inr (qdcount h)"
    using be16.dec_enc [of "?b hid @ ?b flags" "qdcount h"] by (simp add: header_bytes_def)
  moreover have "be16 (header_bytes h @ post) 6 = Inr (ancount h)"
    using be16.dec_enc [of "?b hid @ ?b flags @ ?b qdcount" "ancount h"] by (simp add: header_bytes_def)
  moreover have "be16 (header_bytes h @ post) 8 = Inr (nscount h)"
    using be16.dec_enc [of "?b hid @ ?b flags @ ?b qdcount @ ?b ancount" "nscount h"]
    by (simp add: header_bytes_def)
  moreover have "be16 (header_bytes h @ post) 10 = Inr (arcount h)"
    using be16.dec_enc [of "?b hid @ ?b flags @ ?b qdcount @ ?b ancount @ ?b nscount" "arcount h"]
    by (simp add: header_bytes_def)
  ultimately show ?thesis by (simp add: read_header_def)
qed

definition message :: "dns_header_t \<Rightarrow> byte list \<Rightarrow> u16 \<Rightarrow> u16 \<Rightarrow> rr list \<Rightarrow> byte list \<Rightarrow> byte list" where
  "message h qname qt qc answers extra =
     header_bytes h @ qname @ be16_bytes qt @ be16_bytes qc @ concat (map wire_rr answers) @ extra"

lemma parse_response_message:
  fixes qt qc extra
  assumes "name_ok qname" "list_all rr_ok answers" "unat (ancount h) = length answers"
  defines "msg \<equiv> message h qname qt qc answers extra"
  shows "parse_response (msg @ rest) (length msg) (hid h) =
    Inr ([''Recv '' @ fmt_u (length msg) @ '' bytes'', '''', ''Header recv:''] @ print_header h @
         [''''] @ a_lines answers)"
proof -
  let ?q = "be16_bytes qt @ be16_bytes qc"
  let ?buf = "msg @ rest"
  have len: "length msg = 16 + length qname + length (concat (map wire_rr answers)) + length extra"
    by (simp add: msg_def message_def)
  have hdr: "read_header ?buf = Inr h"
    using read_header_bytes [of h "drop 12 ?buf"] by (simp add: msg_def message_def)
  have skip: "skip_name ?buf (length msg) 12 = Inr (0, 12 + length qname)"
    using skip_name_ok [OF assms(1), of "header_bytes h" "length msg" "drop (12 + length qname) ?buf"] len
    by (simp add: msg_def message_def)
  have ans: "parse_answers ?buf (length msg) (length answers) 0 (12 + length qname + 4) = Inr (a_lines answers)"
    using parse_answers_rrs [OF assms(2), of "header_bytes h @ qname @ ?q" "length msg" "extra @ rest" 0] len
    by (simp add: msg_def message_def add.commute add.left_commute)
  have "\<not> length msg < 12" using len by simp
  with hdr skip ans assms(3) show ?thesis
    by (simp add: parse_response_def Let_def)
qed

section \<open>Reads of arbitrary responses\<close>

lemma parse_answers_total:
  assumes "len + 15 \<le> length buf"
  shows "\<exists>ls. parse_answers buf len n an pos = Inr ls"
proof (induction n arbitrary: an pos)
  case (Suc n)
  have "len \<le> length buf" using assms by simp
  then show ?case
  proof (cases rule: dns.skip_cases [of len buf pos])
    case (ok pos')
    from dns.fields_in_slack [OF ok assms] obtain t c l n' a where
      f: "be16 buf pos' = Inr t" "be16 buf (pos' + 2) = Inr c" "be32 buf (pos' + 4) = Inr l"
      "be16 buf (pos' + 8) = Inr n'" "rd_bytes buf (pos' + 10) 4 = Inr a" by auto
    obtain ls where "parse_answers buf len n (an + 1) (pos' + 10 + unat n') = Inr ls"
      using Suc.IH by blast
    with f ok show ?thesis by simp
  next
    case (fail pos')
    then show ?thesis by simp
  qed
qed simp

section \<open>Names written by encode_name\<close>

lemma short_not_pointer: "unat (n :: byte) \<le> 63 \<Longrightarrow> n AND 0xC0 \<noteq> 0xC0"
proof
  assume "unat n \<le> 63" and e: "n AND 0xC0 = 0xC0"
  then have "unat (take_bit 6 n) = unat n"
    by (simp only: unsigned_take_bit_eq) (simp add: take_bit_nat_eq_self)
  then have "take_bit 6 n = n" by (rule unsigned_word_eqI)
  then have "\<not> bit n 6" by (metis bit_take_bit_iff less_irrefl)
  moreover have "bit (n AND 0xC0) 6" unfolding e by simp
  ultimately show False by (simp add: bit_and_iff)
qed

lemma name_ok_labels:
  "list_all host_label ls \<Longrightarrow> name_ok (concat (map wire_label ls) @ [0])"
proof (induction ls)
  case (Cons l ls)
  then have l: "0 < length l" "length l \<le> 63" by (auto simp: host_label_def)
  then have u: "unat (of_nat (length l) :: byte) = length l" by (simp add: unat_of_nat_u8)
  then have "(of_nat (length l) :: byte) \<noteq> 0" using l by (metis less_numeral_extra(3) unat_0)
  moreover have "(of_nat (length l) :: byte) AND 0xC0 \<noteq> 0xC0"
    by (rule short_not_pointer) (use l u in simp)
  ultimately show ?case using Cons u by (simp add: wire_label_def)
qed simp

lemma name_ok_wire_name: "list_all host_label (split_dots d) \<Longrightarrow> name_ok (wire_name (split_dots d))"
  by (simp add: wire_name_def name_ok_labels)

section \<open>Properties\<close>

text \<open>
  C14: a well-formed response to the expected id is parsed completely: whatever follows the
  message in the receive array, the output is the header dump and then one line per A record
  with four bytes of data, in order, with its address, TTL and class; records of other types
  are skipped by their length.
\<close>

theorem parse_response_roundtrip:
  fixes qt qc extra
  assumes "name_ok qname" "list_all rr_ok answers" "unat (ancount h) = length answers"
  defines "msg \<equiv> message h qname qt qc answers extra"
  shows "parse_response (msg @ rest) (length msg) (hid h) =
    Inr ([''Recv '' @ fmt_u (length msg) @ '' bytes'', '''', ''Header recv:''] @ print_header h @
         [''''] @ map (\<lambda>r. a_line (rr_data r) (rr_ttl r) (rr_class r)) (filter is_A answers))"
  unfolding msg_def a_lines_def [symmetric] by (rule parse_response_message [OF assms(1-3)])

theorem parse_response_roundtrip_witness:
  "parse_response
     (message \<lparr>hid = 7, flags = 0x8180, qdcount = 1, ancount = 2, nscount = 0, arcount = 0\<rparr>
        [1, 97, 0] 1 1
        [\<lparr>rr_name = [0xC0, 12], rr_type = 5, rr_class = 1, rr_ttl = 60, rr_data = [1, 98, 0]\<rparr>,
         \<lparr>rr_name = [0xC0, 12], rr_type = 1, rr_class = 1, rr_ttl = 300, rr_data = [93, 184, 216, 34]\<rparr>] []
      @ [1, 2, 3]) 50 7 =
   Inr ([''Recv 50 bytes'', '''', ''Header recv:''] @
        print_header \<lparr>hid = 7, flags = 0x8180, qdcount = 1, ancount = 2, nscount = 0, arcount = 0\<rparr> @
        ['''', ''  A  93.184.216.34  TTL=300 Class:1''])"
  using parse_response_roundtrip [of "[1, 97, 0]"
      "[\<lparr>rr_name = [0xC0, 12], rr_type = 5, rr_class = 1, rr_ttl = 60, rr_data = [1, 98, 0]\<rparr>,
        \<lparr>rr_name = [0xC0, 12], rr_type = 1, rr_class = 1, rr_ttl = 300, rr_data = [93, 184, 216, 34]\<rparr>]"
      "\<lparr>hid = 7, flags = 0x8180, qdcount = 1, ancount = 2, nscount = 0, arcount = 0\<rparr>" 1 1 "[]" "[1, 2, 3]"]
  by (simp add: rr_ok_def message_def wire_rr_def is_A_def DNS_TYPE_A_def a_line_def inet_ntop_def fmt_eval)

text \<open>
  C19: no response, however malformed, can make \<open>parse_response\<close> read more than 15 bytes past the
  received data: with that much slack in the array it always finishes with some output.
\<close>

theorem parse_response_bounded_reads:
  assumes "len + 15 \<le> length buf"
  shows "\<exists>ls. parse_response buf len expected_id = Inr ls"
proof (cases "len < 12")
  case True
  then show ?thesis by (simp add: parse_response_def Let_def)
next
  case False
  then have "12 \<le> length buf" using assms by simp
  then obtain h where h: "read_header buf = Inr h"
    by (auto simp: read_header_def be16_eq)
  have "len \<le> length buf" using assms by simp
  then show ?thesis
  proof (cases rule: dns.skip_cases [of len buf 12])
    case (ok pos')
    obtain ls where "parse_answers buf len (unat (ancount h)) 0 (pos' + 4) = Inr ls"
      using parse_answers_total [OF assms] by blast
    with ok h False show ?thesis by (simp add: parse_response_def Let_def)
  qed (use h False in \<open>simp add: parse_response_def Let_def\<close>)
qed

theorem parse_response_bounded_reads_witness:
  "\<exists>ls. parse_response (replicate 512 0xFF) 497 0xFFFF = Inr ls"
  by (rule parse_response_bounded_reads) simp

text \<open>
  C35: the bound is needed, and the code does not keep to the received length.  A full 512-byte
  datagram whose last byte is the (empty) name of an answer makes it read past the end of the
  512-byte receive array.
\<close>

theorem parse_response_out_of_bounds:
  "\<exists>msg. length msg = 512 \<and> parse_response msg (length msg) 7 = Inl OutOfBounds"
proof -
  define h where "h = \<lparr>hid = 7, flags = 0, qdcount = 1, ancount = 2, nscount = 0, arcount = 0\<rparr>"
  let ?rr = "\<lparr>rr_name = [0], rr_type = 16, rr_class = 1, rr_ttl = 0, rr_data = replicate 483 0\<rparr>"
  define msg where "msg = header_bytes h @ [0, 0, 1, 0, 1] @ wire_rr ?rr @ [0]"
  have len: "length msg = 512" by (simp add: msg_def wire_rr_def)
  have hdr: "read_header msg = Inr h" by (simp add: msg_def read_header_bytes)
  have q: "skip_name msg 512 12 = Inr (0, 13)"
    using skip_name_ok [of "[0]" "header_bytes h" 512] by (simp add: msg_def)
  have r: "skip_name msg 512 17 = Inr (0, 18)"
    using skip_name_ok [of "[0]" "header_bytes h @ [0, 0, 1, 0, 1]" 512] by (simp add: msg_def wire_rr_def)
  have last: "skip_name msg 512 511 = Inr (0, 512)"
    using skip_name_ok [of "[0]" "header_bytes h @ [0, 0, 1, 0, 1] @ wire_rr ?rr" 512 "[]"]
    by (simp add: msg_def length_wire_rr)
  note f = wire_rr_fields [where pre = "header_bytes h @ [0, 0, 1, 0, 1]" and r = ?rr and post = "[0]"]
  have "be16 msg 18 = Inr 16" "be16 msg 20 = Inr 1" "be32 msg 22 = Inr 0" "be16 msg 26 = Inr 483"
    using f by (simp_all add: msg_def)
  moreover have "be16 msg 512 = Inl OutOfBounds" using len by (simp add: be16_eq)
  ultimately have "parse_answers msg 512 (Suc (Suc 0)) 0 17 = Inl OutOfBounds"
    using r last by (simp add: DNS_TYPE_A_def)
  moreover have "unat (ancount h) = Suc (Suc 0)" "hid h = 7" by (simp_all add: h_def)
  ultimately have "parse_response msg 512 7 = Inl OutOfBounds"
    using hdr q by (simp add: parse_response_def Let_def)
  with len show ?thesis by metis
qed

text \<open>
  a truncated response that ends right after an answer's name is not rejected: the record is
  read from the bytes behind the received data, so the printed answer depends on them.
\<close>

theorem parse_response_reads_stale_bytes:
  "\<exists>msg rest rest'. length rest = length rest' \<and>
     parse_response (msg @ rest) (length msg) 7 \<noteq> parse_response (msg @ rest') (length msg) 7"
proof -
  let ?h = "\<lparr>hid = 7, flags = 0, qdcount = 1, ancount = 1, nscount = 0, arcount = 0\<rparr>"
  let ?pre = "header_bytes ?h @ [0, 0, 1, 0, 1]"
  let ?rr = "\<lambda>x. \<lparr>rr_name = [0], rr_type = 1, rr_class = 1, rr_ttl = 60, rr_data = [10, 0, 0, x :: byte]\<rparr>"
  let ?msg = "?pre @ [0]" and ?rest = "\<lambda>x. drop 1 (wire_rr (?rr x))"
  have buf: "?msg @ ?rest x = ?pre @ wire_rr (?rr x) @ []" for x by (simp add: wire_rr_def)
  have line: "parse_response (?msg @ ?rest x) (length ?msg) 7 =
      Inr ([''Recv '' @ fmt_u 18 @ '' bytes'', [], ''Header recv:''] @ print_header ?h @
           [[], a_line [10, 0, 0, x] 60 1])" for x
  proof -
    define b where "b = ?pre @ wire_rr (?rr x) @ []"
    have hdr: "read_header b = Inr ?h" by (simp add: b_def read_header_bytes)
    have q: "skip_name b 18 12 = Inr (0, 13)"
      using skip_name_ok [of "[0]" "header_bytes ?h" 18] by (simp add: b_def)
    have r: "skip_name b 18 17 = Inr (0, 18)"
      using skip_name_ok [of "[0]" ?pre 18] by (simp add: b_def wire_rr_def)
    note f = wire_rr_fields [where pre = ?pre and r = "?rr x" and post = "[]", folded b_def]
    have "parse_answers b 18 (Suc 0) 0 17 = Inr [a_line [10, 0, 0, x] 60 1]"
      using r f by (simp add: DNS_TYPE_A_def)
    with hdr q have "parse_response b 18 7 = Inr ([''Recv '' @ fmt_u 18 @ '' bytes'', [], ''Header recv:''] @
        print_header ?h @ [[], a_line [10, 0, 0, x] 60 1])"
      by (simp add: parse_response_def Let_def)
    then show ?thesis unfolding buf b_def [symmetric] by simp
  qed
  have "a_line [10, 0, 0, 1] 60 1 \<noteq> a_line [10, 0, 0, 2] 60 1"
    by (simp add: a_line_def inet_ntop_def fmt_eval)
  then have "parse_response (?msg @ ?rest 1) (length ?msg) 7 \<noteq> parse_response (?msg @ ?rest 2) (length ?msg) 7"
    unfolding line by simp
  moreover have "length (?rest 1) = length (?rest 2)" by (simp add: wire_rr_def)
  ultimately show ?thesis by blast
qed

text \<open>
  C32: a response whose id differs from the one sent is reported and nothing of its body is parsed:
  the output stops after the header dump.
\<close>

theorem parse_response_checks_id:
  assumes "12 \<le> len" "len \<le> length buf" "be16 buf 0 = Inr i" "i \<noteq> expected_id"
  shows "\<exists>h. hid h = i \<and> parse_response buf len expected_id =
    Inr ([''Recv '' @ fmt_u len @ '' bytes'', '''', ''Header recv:''] @ print_header h @
         [''Header IDs do not match!''])"
proof -
  have "12 \<le> length buf" using assms by simp
  then obtain h where "read_header buf = Inr h" "hid h = i"
    using assms(3) by (auto simp: read_header_def be16_eq)
  with assms show ?thesis
    by (auto simp: parse_response_def Let_def)
qed

theorem parse_response_checks_id_witness:
  "\<exists>h. hid h = 7 \<and> parse_response (0 # 7 # replicate 60 0) 40 8 =
    Inr ([''Recv 40 bytes'', '''', ''Header recv:''] @ print_header h @ [''Header IDs do not match!''])"
  using parse_response_checks_id [of 40 "0 # 7 # replicate 60 0" 7 8]
  by (simp add: be16_eq be16_of_def fmt_eval)

lemma unat_flag_field: "k \<le> 8 \<Longrightarrow> unat (flag_field f s (mask k)) = unat f div 2 ^ s mod 2 ^ k"
proof -
  assume k: "k \<le> 8"
  have f: "take_bit 16 (unat f) = unat f"
  proof (rule take_bit_nat_eq_self)
    show "unat f < 2 ^ 16" using unsigned_less [of f] by simp
  qed
  have c: "unat (ucast x :: u8) = take_bit 8 (unat x)" for x :: u16
    by (simp add: unsigned_ucast_eq)
  have t: "unat (take_bit k x) = take_bit k (unat x)" for x :: u16
    by (rule unsigned_take_bit_eq)
  have d: "unat (drop_bit s f) = drop_bit s (unat f)"
    by (simp add: unsigned_drop_bit_eq f)
  have "flag_field f s (mask k) = ucast (take_bit k (drop_bit s f))"
    by (simp only: flag_field_def take_bit_eq_mask)
  then have "unat (flag_field f s (mask k)) = take_bit 8 (take_bit k (drop_bit s (unat f)))"
    by (simp only: c t d)
  also have "\<dots> = take_bit k (drop_bit s (unat f))" using k by (simp add: min_def)
  finally show ?thesis by (simp add: take_bit_eq_mod drop_bit_eq_div)
qed

text \<open>
  \<open>print_header\<close> shows the RFC 1035 fields of the flags word: QR is bit 15, the opcode bits
  14 to 11, then AA, TC, RD and RA one bit each, three reserved bits and the response code.
\<close>

theorem print_header_fields:
  "print_header h =
     (let f = unat (flags h); u = fmt_u;
          qr = f div 2 ^ 15; opcode = f div 2 ^ 11 mod 16; rcode = f mod 16
      in [''  ID:     '' @ u (unat (hid h)),
          ''  FLAGS:  0x'' @ pad_left CHR ''0'' 4 (fmt_X f),
          ''    QR:     '' @ u qr @ '' ('' @ (if qr = 1 then ''response'' else ''query'') @ '')'',
          ''    Opcode: '' @ u opcode @ '' ('' @ (if opcode = 0 then ''standard query'' else ''other'') @ '')'',
          ''    AA:     '' @ u (f div 2 ^ 10 mod 2),
          ''    TC:     '' @ u (f div 2 ^ 9 mod 2),
          ''    RD:     '' @ u (f div 2 ^ 8 mod 2),
          ''    RA:     '' @ u (f div 2 ^ 7 mod 2),
          ''    Z:      '' @ u (f div 2 ^ 4 mod 8),
          ''    RCODE:  '' @ u rcode @ '' ('' @
            (if rcode = 0 then ''no error'' else if rcode = 3 then ''NXDOMAIN'' else ''other'') @ '')'',
          ''  QDCOUNT: '' @ u (unat (qdcount h)),
          ''  ANCOUNT: '' @ u (unat (ancount h)),
          ''  NSCOUNT: '' @ u (unat (nscount h)),
          ''  ARCOUNT: '' @ u (unat (arcount h))])"
proof -
  let ?f = "flags h"
  have less: "unat ?f < 2 ^ 16" using unsigned_less [of ?f] by simp
  have m: "mask (Suc 0) = (1 :: u16)" "mask 3 = (7 :: u16)" "mask 4 = (0xF :: u16)"
    by (simp_all add: mask_eq_exp_minus_1)
  have one: "unat (flag_field ?f s 1) = unat ?f div 2 ^ s mod 2" for s
    using unat_flag_field [of "Suc 0" ?f s] by (simp add: m)
  have three: "unat (flag_field ?f 4 7) = unat ?f div 2 ^ 4 mod 8"
    using unat_flag_field [of 3 ?f 4] by (simp add: m)
  have four: "unat (flag_field ?f s 0xF) = unat ?f div 2 ^ s mod 16" for s
    using unat_flag_field [of 4 ?f s] by (simp add: m)
  have top: "unat ?f div 2 ^ 15 mod 2 = unat ?f div 2 ^ 15" using less by simp
  have eq0: "b = 0 \<longleftrightarrow> unat b = 0" for b :: u8 by (simp add: unat_eq_zero)
  have eq3: "b = 3 \<longleftrightarrow> unat b = 3" for b :: u8
    using unsigned_word_eqI [where ?'a = nat and v = b and w = 3] by auto
  have qr: "unat ?f div 2 ^ 15 \<noteq> 0 \<longleftrightarrow> unat ?f div 2 ^ 15 = 1" using less by auto
  show ?thesis
    unfolding print_header_def Let_def eq0 eq3 one three four top
    using qr by simp
qed

text \<open>
  C6: a complete run.  For a valid domain and a reply that is a well-formed response with the id
  derived from the process id, the program sends exactly the RFC query for the domain, prints
  the header and every A record of the reply in order, and exits with 0.
\<close>

theorem dns_main_resolves:
  fixes qt qc extra rest
  assumes valid: "0 \<notin> set domain" "list_all host_label (split_dots domain)" "length domain \<le> 253"
    and reply: "name_ok qname" "list_all rr_ok answers" "unat (ancount h) = length answers"
      "hid h = ucast (env_pid env)"
    and sock: "0 \<le> env_socket env"
  defines "q \<equiv> query_bytes (ucast (env_pid env)) domain"
    and "msg \<equiv> message h qname qt qc answers extra"
  assumes recv: "env_recv env q = (int (length msg), msg @ rest)"
  shows "dns_main junk [prog, domain] env = Some (Inr (0,
    [Out (''Header ID: '' @ fmt_u (unat (hid h))), SendTo (int (length q)) q] @
    map Out ([''Recv '' @ fmt_u (length msg) @ '' bytes'', '''', ''Header recv:''] @ print_header h @
      [''''] @ a_lines answers)))"
proof -
  have bq: "build_query junk domain (map junk [0..<512]) (ucast (env_pid env)) =
      Some (Inr (int (length q), q @ drop (length domain + 18) (map junk [0..<512])))"
    using build_query_eq [OF valid(1) host_label_ok [OF valid(2)] valid(3), of "map junk [0..<512]"] valid(3)
    by (simp add: q_def length_query_bytes)
  have pr: "parse_response (msg @ rest) (length msg) (ucast (env_pid env)) =
      Inr ([''Recv '' @ fmt_u (length msg) @ '' bytes'', '''', ''Header recv:''] @ print_header h @
        [''''] @ a_lines answers)"
    using parse_response_message [OF reply(1-3)] reply(4) by (simp add: msg_def)
  have s: "take (nat (int (length q))) (q @ drop (length domain + 18) (map junk [0..<512])) = q" by simp
  show ?thesis
    using bq pr recv sock reply(4) s by (simp add: dns_main_def Let_def)
qed

theorem dns_main_resolves_witness:
  "dns_main (\<lambda>_. 0) [bytes_of ''dns'', bytes_of ''a'']
     \<lparr>env_pid = 65543, env_socket = 3,
       env_recv = (\<lambda>_. (35, message
         \<lparr>hid = 7, flags = 0x8180, qdcount = 1, ancount = 1, nscount = 0, arcount = 0\<rparr> [1, 97, 0] 1 1
         [\<lparr>rr_name = [0xC0, 12], rr_type = 1, rr_class = 1, rr_ttl = 9, rr_data = [10, 0, 0, 1]\<rparr>] [] @ []))\<rparr> =
   Some (Inr (0, [Out ''Header ID: 7'', SendTo 19 (query_bytes 7 (bytes_of ''a''))] @
     map Out ([''Recv 35 bytes'', '''', ''Header recv:''] @
       print_header \<lparr>hid = 7, flags = 0x8180, qdcount = 1, ancount = 1, nscount = 0, arcount = 0\<rparr> @
       ['''', ''  A  10.0.0.1  TTL=9 Class:1''])))"
proof -
  let ?rr = "\<lparr>rr_name = [0xC0, 12], rr_type = 1, rr_class = 1, rr_ttl = 9, rr_data = [10, 0, 0, 1]\<rparr>"
  let ?h = "\<lparr>hid = 7, flags = 0x8180, qdcount = 1, ancount = 1, nscount = 0, arcount = 0\<rparr>"
  let ?msg = "message ?h [1, 97, 0] 1 1 [?rr] []"
  let ?env = "\<lparr>env_pid = 65543, env_socket = 3, env_recv = (\<lambda>_. (35, ?msg @ []))\<rparr>"
  have len: "length ?msg = 35" by (simp add: message_def wire_rr_def)
  have q: "length (query_bytes 7 (bytes_of ''a'')) = 19" by (simp add: length_query_bytes bytes_of_def)
  have lines: "a_lines [?rr] = [''  A  10.0.0.1  TTL=9 Class:1'']"
    by (simp add: a_lines_def is_A_def DNS_TYPE_A_def a_line_def inet_ntop_def fmt_eval)
  have nums: "fmt_u 7 = ''7''" "fmt_u 35 = ''35''" by (simp_all add: fmt_eval)
  have pid: "(65543 :: u16) = 7" by simp
  have "env_recv ?env (query_bytes (ucast (env_pid ?env)) (bytes_of ''a'')) = (int (length ?msg), ?msg @ [])"
    using len by simp
  from dns_main_resolves [OF _ _ _ _ _ _ _ _ this, of "\<lambda>_. 0" "bytes_of ''dns''"] show ?thesis
    using q len lines nums
    by (simp add: pid bytes_of_def dot_def host_label_def rr_ok_def)
qed

end
