(* ===== verification/Coroutines.thy ===== *)
theory Coroutines
  imports Printf
begin

text \<open>
  The coroutine scheduler of \<^verbatim>\<open>09-stackful_croutines_ucontext_t/main.c\<close>.

  A context is a record of what \<open>makecontext\<close> and \<open>swapcontext\<close> leave in a
  \<open>ucontext_t\<close>: the suspended computation, the stack it runs on and the link taken when its
  function returns.  The functions run as coroutines are arbitrary: a value of type \<open>'k\<close> is a
  suspended call and \<open>resume id k\<close> runs it, with \<open>coros[current].id = id\<close>, up to its next
  \<open>coro_yield\<close> or its return, giving the lines it prints.  Activating a context that was
  never prepared, or whose stack is not allocated, is an error.
\<close>

section \<open>State\<close>

definition MAX_COROUTINES :: nat where "MAX_COROUTINES = 8"
definition STACK_SIZE :: nat where "STACK_SIZE = 64 * 1024"

datatype CoroState = CORO_READY | CORO_RUNNING | CORO_DONE

datatype stack_ref = Heap nat | Static
datatype link = To_done | To_sched

record 'k ucontext =
  uc_code :: "'k option"
  uc_link :: "link option"
  ss_sp :: stack_ref
  ss_size :: nat

record 'k Coroutine =
  ctx :: "'k ucontext"
  stack :: nat
  cstate :: CoroState
  cid :: nat

text \<open>
  The globals; \<open>live\<close> are the blocks \<open>malloc\<close> has handed out and \<open>free\<close> has not taken back,
  \<open>stdout\<close> what has been printed.
\<close>

record 'k world =
  coros :: "'k Coroutine list"
  coro_count :: nat
  current :: int
  done_ctx :: "unit ucontext"
  live :: "nat list"
  stdout :: "string list"

definition blank_ctx :: "'k ucontext" where
  "blank_ctx = \<lparr>uc_code = None, uc_link = None, ss_sp = Static, ss_size = 0\<rparr>"

definition initial_world :: "'k world" where
  "initial_world = \<lparr>
     coros = replicate MAX_COROUTINES \<lparr>ctx = blank_ctx, stack = 0, cstate = CORO_READY, cid = 0\<rparr>,
     coro_count = 0, current = - 1, done_ctx = blank_ctx, live = [], stdout = []\<rparr>"

definition coro_at :: "'k world \<Rightarrow> int \<Rightarrow> 'k Coroutine c_res" where
  "coro_at w i = (if i < 0 then Inl OutOfBounds else rd (coros w) (nat i))"

definition set_coro :: "'k world \<Rightarrow> int \<Rightarrow> 'k Coroutine \<Rightarrow> 'k world c_res" where
  "set_coro w i c = (if i < 0 then Inl OutOfBounds
     else bindE (wr (coros w) (nat i) c) (\<lambda>cs. Inr (w\<lparr>coros := cs\<rparr>)))"

section \<open>Operations\<close>

text \<open>\<open>addr\<close> is the result of \<open>malloc(STACK_SIZE)\<close>, 0 for NULL.\<close>

definition coro_spawn :: "nat \<Rightarrow> 'k \<Rightarrow> 'k world \<Rightarrow> 'k world c_res" where
  "coro_spawn addr fn w =
     bindE (set_coro w (int (coro_count w))
        \<lparr>ctx = \<lparr>uc_code = Some fn, uc_link = Some To_done, ss_sp = Heap addr, ss_size = STACK_SIZE\<rparr>,
         stack = addr, cstate = CORO_READY, cid = coro_count w\<rparr>) (\<lambda>w'.
       Inr (w'\<lparr>coro_count := coro_count w + 1,
               live := (if addr = 0 then live w else addr # live w)\<rparr>))"

definition done_spawn :: "'k world \<Rightarrow> 'k world" where
  "done_spawn w = w\<lparr>done_ctx :=
     \<lparr>uc_code = Some (), uc_link = Some To_sched, ss_sp = Static, ss_size = 4096\<rparr>\<rparr>"

text \<open>\<open>swapcontext(&coros[current].ctx, &sched_ctx)\<close>: the rest of the call is saved.\<close>

definition coro_yield :: "'k \<Rightarrow> 'k world \<Rightarrow> 'k world c_res" where
  "coro_yield rest w =
     bindE (coro_at w (current w)) (\<lambda>c.
       set_coro w (current w) (c\<lparr>ctx := (ctx c)\<lparr>uc_code := Some rest\<rparr>\<rparr>))"

definition finish_trampoline :: "'k world \<Rightarrow> 'k world c_res" where
  "finish_trampoline w =
     bindE (coro_at w (current w)) (\<lambda>c. set_coro w (current w) (c\<lparr>cstate := CORO_DONE\<rparr>))"

definition stack_ready :: "'k world \<Rightarrow> stack_ref \<Rightarrow> bool" where
  "stack_ready w r = (case r of Static \<Rightarrow> True | Heap a \<Rightarrow> a \<in> set (live w))"

text \<open>
  Leaving a context by returning from its function: to \<open>done_ctx\<close>, which must be prepared and
  is used up by running, and whose own link leads to the scheduler.
\<close>

definition follow_link :: "link option \<Rightarrow> 'k world \<Rightarrow> 'k world c_res" where
  "follow_link l w =
     (case l of
        None \<Rightarrow> Inl BadContext
      | Some To_sched \<Rightarrow> Inr w
      | Some To_done \<Rightarrow>
          (if uc_code (done_ctx w) = None \<or> uc_link (done_ctx w) \<noteq> Some To_sched then Inl BadContext
           else bindE (finish_trampoline w) (\<lambda>w'.
             Inr (w'\<lparr>done_ctx := (done_ctx w')\<lparr>uc_code := None\<rparr>\<rparr>))))"

text \<open>\<open>swapcontext(&sched_ctx, &coros[current].ctx)\<close>, up to the scheduler's resumption.\<close>

definition activate :: "(nat \<Rightarrow> 'k \<Rightarrow> string list \<times> 'k option) \<Rightarrow> 'k world \<Rightarrow> 'k world c_res" where
  "activate resume w =
     bindE (coro_at w (current w)) (\<lambda>c.
       case uc_code (ctx c) of
         None \<Rightarrow> Inl BadContext
       | Some k \<Rightarrow>
           if \<not> stack_ready w (ss_sp (ctx c)) then Inl UseAfterFree
           else let (lines, r) = resume (cid c) k; w1 = w\<lparr>stdout := stdout w @ lines\<rparr> in
             case r of Some k' \<Rightarrow> coro_yield k' w1 | None \<Rightarrow> follow_link (uc_link (ctx c)) w1)"

text \<open>The inner \<open>for\<close> of the scheduler: the first ready coroutine after the current one.\<close>

fun search_ready :: "'k world \<Rightarrow> nat list \<Rightarrow> int c_res" where
  "search_ready w [] = Inr (current w)"
| "search_ready w (cr # crs) =
     bindE (coro_at w (int (cr mod coro_count w))) (\<lambda>c.
       if cstate c = CORO_READY then Inr (int (cr mod coro_count w)) else search_ready w crs)"

definition pick_next :: "'k world \<Rightarrow> 'k world c_res" where
  "pick_next w =
     bindE (search_ready w [nat (current w + 1)..<nat (int (coro_count w) + current w + 1)])
       (\<lambda>i. Inr (w\<lparr>current := i\<rparr>))"

text \<open>One iteration of the scheduler's \<open>while\<close> loop; the flag says that a coroutine finished.\<close>

definition sched_step ::
    "(nat \<Rightarrow> 'k \<Rightarrow> string list \<times> 'k option) \<Rightarrow> 'k world \<Rightarrow> (bool \<times> 'k world) c_res" where
  "sched_step resume w =
     bindE (pick_next w) (\<lambda>w1.
     bindE (coro_at w1 (current w1)) (\<lambda>c.
     bindE (set_coro w1 (current w1) (c\<lparr>cstate := CORO_RUNNING\<rparr>)) (\<lambda>w2.
     bindE (activate resume w2) (\<lambda>w3.
     bindE (coro_at w3 (current w3)) (\<lambda>c3.
       if cstate c3 = CORO_DONE then Inr (True, done_spawn w3)
       else bindE (set_coro w3 (current w3) (c3\<lparr>cstate := CORO_READY\<rparr>)) (\<lambda>w4. Inr (False, w4)))))))"

partial_function (option) sched_loop ::
    "(nat \<Rightarrow> 'k \<Rightarrow> string list \<times> 'k option) \<Rightarrow> nat \<Rightarrow> 'k world \<Rightarrow> 'k world c_res option" where
  "sched_loop resume completed_coro w =
     (if completed_coro < coro_count w
      then (case sched_step resume w of
              Inl e \<Rightarrow> Some (Inl e)
            | Inr r \<Rightarrow> sched_loop resume (if fst r then completed_coro + 1 else completed_coro) (snd r))
      else Some (Inr w))"

declare sched_loop.simps [code]

definition scheduler_run ::
    "(nat \<Rightarrow> 'k \<Rightarrow> string list \<times> 'k option) \<Rightarrow> 'k world \<Rightarrow> 'k world c_res option" where
  "scheduler_run resume w = sched_loop resume 0 w"

definition free_block :: "nat \<Rightarrow> 'k world \<Rightarrow> 'k world c_res" where
  "free_block a w =
     (if a = 0 then Inr w
      else if a \<in> set (live w) then Inr (w\<lparr>live := remove1 a (live w)\<rparr>)
      else Inl UseAfterFree)"

definition free_coros_stacks :: "'k world \<Rightarrow> 'k world c_res" where
  "free_coros_stacks w =
     foldE (\<lambda>cr w. bindE (coro_at w (int cr)) (\<lambda>c. free_block (stack c) w)) [0..<coro_count w] w"

section \<open>The worker and main\<close>

datatype worker = Worker_start | Worker_yielded nat nat

text \<open>
  \<open>worker\<close> reads its id once, at its first activation; \<open>Worker_yielded id i\<close> is the call
  suspended in the \<open>coro_yield\<close> of iteration \<open>i\<close>.
\<close>

definition worker_iteration :: "nat \<Rightarrow> nat \<Rightarrow> string list \<times> worker option" where
  "worker_iteration i step =
     (if step < 3
      then ([''coro '' @ fmt_u i @ '': step '' @ fmt_u step], Some (Worker_yielded i step))
      else ([''coro '' @ fmt_u i @ '': done''], None))"

fun worker_resume :: "nat \<Rightarrow> worker \<Rightarrow> string list \<times> worker option" where
  "worker_resume gid Worker_start = worker_iteration gid 0"
| "worker_resume gid (Worker_yielded i step) = worker_iteration i (step + 1)"

text \<open>\<open>main\<close> for the results \<open>a0 \<dots> a3\<close> of the \<open>malloc\<close> calls of its four \<open>coro_spawn\<close>s.\<close>

definition coro_main :: "nat \<Rightarrow> nat \<Rightarrow> nat \<Rightarrow> nat \<Rightarrow> worker world c_res option" where
  "coro_main a0 a1 a2 a3 =
     (case foldE (\<lambda>a. coro_spawn a Worker_start) [a0, a1, a2, a3] (done_spawn initial_world) of
        Inl e \<Rightarrow> Some (Inl e)
      | Inr w \<Rightarrow>
         (case scheduler_run worker_resume w of
            None \<Rightarrow> None
          | Some r \<Rightarrow> Some (bindE r (\<lambda>w.
              free_coros_stacks (w\<lparr>stdout := stdout w @ [''all coroutines finished'']\<rparr>)))))"

section \<open>Round robin\<close>

text \<open>
  The specification: the coroutines take turns in the order of their indices; in every round
  each one that has not finished is resumed once.  \<open>None\<close> is a finished coroutine.
\<close>

definition rr_slot ::
    "(nat \<Rightarrow> 'k \<Rightarrow> string list \<times> 'k option) \<Rightarrow> nat \<Rightarrow> 'k option list \<Rightarrow> string list \<times> 'k option list" where
  "rr_slot resume i bs =
     (case bs ! i of None \<Rightarrow> ([], bs) | Some k \<Rightarrow> (fst (resume i k), bs[i := snd (resume i k)]))"

fun rr_slots ::
    "(nat \<Rightarrow> 'k \<Rightarrow> string list \<times> 'k option) \<Rightarrow> nat list \<Rightarrow> 'k option list \<Rightarrow>
      string list \<times> 'k option list" where
  "rr_slots resume [] bs = ([], bs)"
| "rr_slots resume (i # is) bs =
     (let (l1, bs1) = rr_slot resume i bs; (l2, bs2) = rr_slots resume is bs1 in (l1 @ l2, bs2))"

fun rr_rounds ::
    "(nat \<Rightarrow> 'k \<Rightarrow> string list \<times> 'k option) \<Rightarrow> nat \<Rightarrow> 'k option list \<Rightarrow> string list \<times> 'k option list" where
  "rr_rounds resume 0 bs = ([], bs)"
| "rr_rounds resume (Suc m) bs =
     (let (l1, bs1) = rr_slots resume [0..<length bs] bs; (l2, bs2) = rr_rounds resume m bs1
      in (l1 @ l2, bs2))"

definition rr_from ::
    "(nat \<Rightarrow> 'k \<Rightarrow> string list \<times> 'k option) \<Rightarrow> nat \<Rightarrow> nat \<Rightarrow> 'k option list \<Rightarrow> string list \<times> 'k option list" where
  "rr_from resume p m bs =
     (let (l1, bs1) = rr_slots resume [p..<length bs] bs; (l2, bs2) = rr_rounds resume m bs1
      in (l1 @ l2, bs2))"

lemma rr_slots_append:
  "rr_slots resume (is @ js) bs =
     (let (l1, bs1) = rr_slots resume is bs; (l2, bs2) = rr_slots resume js bs1 in (l1 @ l2, bs2))"
  by (induction "is" arbitrary: bs) (auto simp: split_def Let_def)

lemma length_rr_slots [simp]: "length (snd (rr_slots resume is bs)) = length bs"
  by (induction "is" arbitrary: bs) (auto simp: split_def Let_def rr_slot_def split: option.splits)

lemma rr_slots_dead: "\<forall>i \<in> set is. bs ! i = None \<Longrightarrow> rr_slots resume is bs = ([], bs)"
  by (induction "is") (auto simp: rr_slot_def)

lemma rr_rounds_dead: "\<forall>i < length bs. bs ! i = None \<Longrightarrow> rr_rounds resume m bs = ([], bs)"
  by (induction m) (auto simp: rr_slots_dead)

lemma rr_from_dead: "\<forall>i < length bs. bs ! i = None \<Longrightarrow> rr_from resume p m bs = ([], bs)"
  by (auto simp: rr_from_def rr_slots_dead rr_rounds_dead)

text \<open>Passing over finished coroutines, and starting the next round when none is left in this one.\<close>

lemma rr_from_step:
  assumes "p < length bs" "q \<le> p" "\<forall>j \<in> {q..<p}. bs ! j = None"
  shows "rr_from resume q m bs =
    (let (l1, bs1) = rr_slot resume p bs; (l2, bs2) = rr_from resume (Suc p) m bs1 in (l1 @ l2, bs2))"
proof -
  have "[q..<length bs] = [q..<p] @ p # [Suc p..<length bs]"
    using assms by (metis le_Suc_ex less_imp_le upt_add_eq_append upt_conv_Cons)
  moreover have "length (snd (rr_slot resume p bs)) = length bs"
    by (auto simp: rr_slot_def split: option.splits)
  ultimately show ?thesis
    using assms(3) by (simp add: rr_from_def rr_slots_append rr_slots_dead split_def Let_def)
qed

lemma rr_from_wrap:
  assumes "\<forall>j. q \<le> j \<longrightarrow> j < length bs \<longrightarrow> bs ! j = None"
  shows "rr_from resume q (Suc m) bs = rr_from resume 0 m bs"
  using assms by (auto simp: rr_from_def rr_slots_dead split_def Let_def)

section \<open>The scheduler keeps its representation\<close>

definition coro_ok :: "nat \<Rightarrow> nat \<Rightarrow> 'k option \<Rightarrow> 'k Coroutine \<Rightarrow> bool" where
  "coro_ok i a b c \<longleftrightarrow> cid c = i \<and> stack c = a \<and> uc_link (ctx c) = Some To_done \<and>
     ss_sp (ctx c) = Heap a \<and>
     (case b of None \<Rightarrow> cstate c = CORO_DONE
      | Some k \<Rightarrow> cstate c = CORO_READY \<and> uc_code (ctx c) = Some k)"

text \<open>
  Between two iterations: \<open>bs\<close> are the suspended calls, \<open>ss\<close> the stacks in the order in which
  they were allocated.
\<close>

definition sched_rep :: "nat list \<Rightarrow> 'k option list \<Rightarrow> 'k world \<Rightarrow> bool" where
  "sched_rep ss bs w \<longleftrightarrow>
     length (coros w) = MAX_COROUTINES \<and> coro_count w = length bs \<and> length ss = length bs \<and>
     length bs \<le> MAX_COROUTINES \<and> - 1 \<le> current w \<and> current w < int (length bs) \<and>
     done_ctx w = done_ctx (done_spawn w) \<and> live w = rev ss \<and> 0 \<notin> set ss \<and>
     (\<forall>i < length bs. coro_ok i (ss ! i) (bs ! i) (coros w ! i))"

lemma coro_at_rep:
  assumes "sched_rep ss bs w" "i < length bs"
  shows "coro_at w (int i) = Inr (coros w ! i)" "coro_ok i (ss ! i) (bs ! i) (coros w ! i)"
  using assms by (auto simp: sched_rep_def coro_at_def rd_def)

text \<open>The coroutine picked is the first unfinished one in cyclic order after the current one.\<close>

definition picks :: "'k option list \<Rightarrow> nat \<Rightarrow> nat \<Rightarrow> bool" where
  "picks bs q p \<longleftrightarrow> p < length bs \<and> bs ! p \<noteq> None \<and>
     (q \<le> p \<and> (\<forall>j. q \<le> j \<longrightarrow> j < p \<longrightarrow> bs ! j = None) \<or>
      (\<forall>j. q \<le> j \<longrightarrow> j < length bs \<longrightarrow> bs ! j = None) \<and> (\<forall>j < p. bs ! j = None))"

lemma rr_turn:
  assumes p: "picks bs q p" and m: "c < d" "d \<le> m"
  shows "\<exists>m' \<ge> c. rr_from resume q m bs =
    (let (l2, bs2) = rr_from resume (Suc p) m' (snd (rr_slot resume p bs))
     in (fst (rr_slot resume p bs) @ l2, bs2))"
proof -
  have pn: "p < length bs" using p by (simp add: picks_def)
  from p consider "q \<le> p" "\<forall>j \<in> {q..<p}. bs ! j = None"
    | "\<forall>j. q \<le> j \<longrightarrow> j < length bs \<longrightarrow> bs ! j = None" "\<forall>j \<in> {0..<p}. bs ! j = None"
    by (auto simp: picks_def)
  then show ?thesis
  proof cases
    case 1
    with rr_from_step [OF pn this] m show ?thesis
      by (intro exI [of _ m]) (simp add: split_def Let_def)
  next
    case 2
    obtain m' where "m = Suc m'" using m by (cases m) auto
    with rr_from_wrap [OF 2(1)] rr_from_step [OF pn le0 2(2)] m show ?thesis
      by (intro exI [of _ m']) (simp add: split_def Let_def)
  qed
qed

lemma search_ready_find:
  assumes "sched_rep ss bs w" "bs \<noteq> []"
  shows "search_ready w crs =
    Inr (case find (\<lambda>cr. bs ! (cr mod length bs) \<noteq> None) crs of
           None \<Rightarrow> current w | Some cr \<Rightarrow> int (cr mod length bs))"
proof (induction crs)
  case (Cons cr crs)
  let ?i = "cr mod length bs"
  have i: "?i < length bs" using assms(2) by simp
  have n: "coro_count w = length bs" using assms(1) by (simp add: sched_rep_def)
  from coro_at_rep [OF assms(1) i] Cons show ?case
    by (auto simp: n coro_ok_def split: option.splits)
qed simp

lemma find_picks:
  assumes q: "q \<le> length bs" and alive: "a < length bs" "bs ! a \<noteq> None"
  shows "\<exists>cr. find (\<lambda>cr. bs ! (cr mod length bs) \<noteq> None) [q..<length bs + q] = Some cr \<and>
    picks bs q (cr mod length bs)"
proof -
  let ?n = "length bs" and ?P = "\<lambda>cr. bs ! (cr mod length bs) \<noteq> None"
  have "\<exists>x \<in> set [q..<?n + q]. ?P x"
  proof (cases "q \<le> a")
    case True
    then show ?thesis using alive by (intro bexI [of _ a]) auto
  next
    case False
    then show ?thesis using alive q by (intro bexI [of _ "a + ?n"]) auto
  qed
  then obtain cr where cr: "find ?P [q..<?n + q] = Some cr"
    by (cases "find ?P [q..<?n + q]") (auto simp: find_None_iff)
  then obtain i where i: "i < ?n" "cr = q + i" "?P cr" and before: "\<And>j. j < i \<Longrightarrow> bs ! ((q + j) mod ?n) = None"
    by (auto simp: find_Some_iff)
  have "picks bs q (cr mod ?n)"
  proof (cases "cr < ?n")
    case True
    have "bs ! j = None" if "q \<le> j" "j < cr" for j
      using before [of "j - q"] that i True by simp
    with True i show ?thesis by (auto simp: picks_def)
  next
    case False
    then have p: "cr mod ?n = cr - ?n" using i q by (simp add: mod_if)
    have "bs ! j = None" if "q \<le> j" "j < ?n" for j
      using before [of "j - q"] that i False by simp
    moreover have "bs ! j = None" if "j < cr - ?n" for j
    proof -
      have "j + ?n - q < i" "q + (j + ?n - q) = j + ?n" "j < ?n" using that i q by linarith+
      with before [of "j + ?n - q"] show ?thesis by simp
    qed
    ultimately show ?thesis using i p q by (auto simp: picks_def)
  qed
  with cr show ?thesis by blast
qed

lemma pick_next_rep:
  assumes rep: "sched_rep ss bs w" and alive: "a < length bs" "bs ! a \<noteq> None"
  obtains p where "picks bs (nat (current w + 1)) p" "pick_next w = Inr (w\<lparr>current := int p\<rparr>)"
proof -
  let ?q = "nat (current w + 1)"
  have cur: "- 1 \<le> current w" "?q \<le> length bs" "coro_count w = length bs"
    using rep by (auto simp: sched_rep_def)
  have ne: "bs \<noteq> []" using alive by auto
  have r: "nat (int (coro_count w) + current w + 1) = length bs + ?q" using cur by simp
  obtain cr where cr: "find (\<lambda>cr. bs ! (cr mod length bs) \<noteq> None) [?q..<length bs + ?q] = Some cr"
    "picks bs ?q (cr mod length bs)"
    using find_picks [OF cur(2) alive] by blast
  then have "pick_next w = Inr (w\<lparr>current := int (cr mod length bs)\<rparr>)"
    using search_ready_find [OF rep ne] by (simp add: pick_next_def r)
  with cr that show thesis by blast
qed

lemma sched_step_rep:
  assumes rep: "sched_rep ss bs w" and alive: "a < length bs" "bs ! a \<noteq> None"
  obtains p w' where "picks bs (nat (current w + 1)) p"
    "sched_step resume w = Inr (snd (rr_slot resume p bs) ! p = None, w')"
    "sched_rep ss (snd (rr_slot resume p bs)) w'" "current w' = int p"
    "stdout w' = stdout w @ fst (rr_slot resume p bs)"
proof -
  obtain p where p: "picks bs (nat (current w + 1)) p" "pick_next w = Inr (w\<lparr>current := int p\<rparr>)"
    using pick_next_rep [OF rep alive] by blast
  then have pn: "p < length bs" and "bs ! p \<noteq> None" by (auto simp: picks_def)
  then obtain k where k: "bs ! p = Some k" by auto
  define c where "c = coros w ! p"
  have ok: "coro_ok p (ss ! p) (Some k) c" using coro_at_rep [OF rep pn] k by (simp add: c_def)
  have len: "p < length (coros w)" "length (coros w) = MAX_COROUTINES" "length bs \<le> MAX_COROUTINES"
    using rep pn by (auto simp: sched_rep_def)
  have st: "stack_ready w (ss_sp (ctx c))"
    using ok rep pn by (auto simp: coro_ok_def stack_ready_def sched_rep_def)
  obtain ls r where res: "resume p k = (ls, r)" by fastforce
  have slot: "rr_slot resume p bs = (ls, bs[p := r])" by (simp add: rr_slot_def k res)
  have dn: "uc_code (done_ctx w) = Some ()" "uc_link (done_ctx w) = Some To_sched"
    using rep by (auto simp: sched_rep_def done_spawn_def)
  note defs = sched_step_def p(2) coro_at_def set_coro_def rd_def wr_def activate_def c_def [symmetric]
    stack_ready_def
  show thesis
  proof (cases r)
    case (Some k')
    define w' where "w' = w\<lparr>current := int p, stdout := stdout w @ ls,
      coros := (coros w)[p := c\<lparr>ctx := (ctx c)\<lparr>uc_code := Some k'\<rparr>, cstate := CORO_READY\<rparr>]\<rparr>"
    have "sched_step resume w = Inr (False, w')"
      using ok st len res Some
      by (simp add: defs coro_ok_def coro_yield_def w'_def)
    moreover have "sched_rep ss (bs[p := r]) w'"
      using rep ok pn len Some
      by (auto simp: sched_rep_def w'_def coro_ok_def nth_list_update done_spawn_def)
    ultimately show thesis
      using that [of p w'] p(1) slot Some pn by (simp add: w'_def)
  next
    case None
    define w' where "w' = done_spawn (w\<lparr>current := int p, stdout := stdout w @ ls,
      coros := (coros w)[p := c\<lparr>cstate := CORO_DONE\<rparr>]\<rparr>)"
    have "sched_step resume w = Inr (True, w')"
      using ok st len res None dn
      by (simp add: defs coro_ok_def follow_link_def finish_trampoline_def done_spawn_def w'_def)
    moreover have "sched_rep ss (bs[p := r]) w'"
      using rep ok pn len None
      by (auto simp: sched_rep_def w'_def coro_ok_def nth_list_update done_spawn_def)
    ultimately show thesis
      using that [of p w'] p(1) slot None pn by (simp add: w'_def done_spawn_def)
  qed
qed

text \<open>
  The contract of the functions run as coroutines: each activation strictly lowers a step count,
  so that every coroutine returns after finitely many yields.
\<close>

definition calls_left :: "('k \<Rightarrow> nat) \<Rightarrow> 'k option list \<Rightarrow> nat" where
  "calls_left steps bs = (\<Sum>b\<leftarrow>bs. case b of None \<Rightarrow> 0 | Some k \<Rightarrow> steps k)"

definition finished :: "'k option list \<Rightarrow> nat" where
  "finished bs = length (filter (\<lambda>b. b = None) bs)"

lemma finished_update:
  assumes "p < length bs" "bs ! p = Some k"
  shows "finished (bs[p := b]) = finished bs + (if b = None then 1 else 0)"
  using assms by (induction bs arbitrary: p) (auto simp: finished_def nth_Cons split: nat.splits)

lemma finished_less:
  "finished bs < length bs \<longleftrightarrow> (\<exists>a < length bs. bs ! a \<noteq> None)"
proof
  assume less: "finished bs < length bs"
  show "\<exists>a < length bs. bs ! a \<noteq> None"
  proof (rule ccontr)
    assume "\<not> ?thesis"
    then have "\<forall>b \<in> set bs. b = None" by (auto simp: in_set_conv_nth)
    then have "filter (\<lambda>b. b = None) bs = bs" by simp
    with less show False by (simp add: finished_def)
  qed
next
  assume "\<exists>a < length bs. bs ! a \<noteq> None"
  then obtain a where "bs ! a \<in> set bs" "bs ! a \<noteq> None" by (metis nth_mem)
  then show "finished bs < length bs" unfolding finished_def by (intro length_filter_less) auto
qed

locale resumable =
  fixes resume :: "nat \<Rightarrow> 'k \<Rightarrow> string list \<times> 'k option" and steps :: "'k \<Rightarrow> nat"
  assumes steps_pos: "0 < steps k"
    and steps_less: "resume i k = (ls, Some k') \<Longrightarrow> steps k' < steps k"
begin

lemma calls_left_slot:
  assumes "p < length bs" "bs ! p \<noteq> None"
  shows "calls_left steps (snd (rr_slot resume p bs)) < calls_left steps bs"
proof -
  obtain k where k: "bs ! p = Some k" using assms by auto
  obtain ls r where res: "resume p k = (ls, r)" by fastforce
  have less: "(case r of None \<Rightarrow> 0 | Some k \<Rightarrow> steps k) < steps k"
    using steps_pos steps_less res by (auto split: option.splits)
  have "calls_left steps (bs[p := r]) < calls_left steps bs"
    using assms(1) k less
    by (induction bs arbitrary: p) (auto simp: calls_left_def nth_Cons split: nat.splits option.splits)
  then show ?thesis by (simp add: rr_slot_def k res)
qed

lemma calls_left_dead: "calls_left steps bs = 0 \<Longrightarrow> a < length bs \<Longrightarrow> bs ! a = None"
  using steps_pos by (force simp: calls_left_def sum_list_eq_0_iff split: option.splits)

lemma sched_loop_rr:
  assumes "sched_rep ss bs w" "calls_left steps bs \<le> m"
  shows "\<exists>w'. sched_loop resume (finished bs) w = Some (Inr w') \<and>
    sched_rep ss (replicate (length bs) None) w' \<and>
    stdout w' = stdout w @ fst (rr_from resume (nat (current w + 1)) m bs)"
  using assms
proof (induction "calls_left steps bs" arbitrary: bs w m rule: less_induct)
  case less
  let ?q = "nat (current w + 1)"
  have n: "coro_count w = length bs" using less.prems by (simp add: sched_rep_def)
  show ?case
  proof (cases "finished bs < length bs")
    case False
    then have dead: "\<forall>a < length bs. bs ! a = None" by (simp add: finished_less)
    then have "bs = replicate (length bs) None" by (simp add: list_eq_iff_nth_eq)
    moreover have "sched_loop resume (finished bs) w = Some (Inr w)"
      using False n by (simp add: sched_loop.simps)
    ultimately show ?thesis using less.prems dead by (simp add: rr_from_dead)
  next
    case True
    then obtain a where a: "a < length bs" "bs ! a \<noteq> None" by (auto simp: finished_less)
    obtain p w' where p: "picks bs ?q p"
      and step: "sched_step resume w = Inr (snd (rr_slot resume p bs) ! p = None, w')"
      and rep: "sched_rep ss (snd (rr_slot resume p bs)) w'" and cur: "current w' = int p"
      and out: "stdout w' = stdout w @ fst (rr_slot resume p bs)"
      using sched_step_rep [OF less.prems(1) a] by blast
    define bs' where "bs' = snd (rr_slot resume p bs)"
    have pn: "p < length bs" and pk: "bs ! p \<noteq> None" using p by (auto simp: picks_def)
    then obtain k where k: "bs ! p = Some k" by auto
    have bs': "bs' = bs[p := snd (resume p k)]" by (simp add: bs'_def rr_slot_def k)
    have fin: "finished bs' = (if bs' ! p = None then finished bs + 1 else finished bs)"
      using finished_update [OF pn k] by (simp add: bs' pn)
    have dec: "calls_left steps bs' < calls_left steps bs"
      using calls_left_slot [OF pn pk] by (simp add: bs'_def)
    have loop: "sched_loop resume (finished bs) w = sched_loop resume (finished bs') w'"
      using True n by (subst sched_loop.simps) (simp add: step fin bs'_def [symmetric])
    obtain m' where m': "calls_left steps bs' \<le> m'"
      "rr_from resume ?q m bs = (let (l2, bs2) = rr_from resume (Suc p) m' bs' in (fst (rr_slot resume p bs) @ l2, bs2))"
      using rr_turn [OF p] dec less.prems(2) bs'_def by metis
    from less.hyps [OF dec rep [folded bs'_def] m'(1)]
    show ?thesis by (simp add: loop cur out m'(2) split_def Let_def nat_add_distrib bs')
  qed
qed

end

section \<open>Spawning and freeing\<close>

lemma coro_spawn_rep:
  assumes "sched_rep ss bs w" "length bs < MAX_COROUTINES" "a \<noteq> 0"
  shows "\<exists>w'. coro_spawn a k w = Inr w' \<and> sched_rep (ss @ [a]) (bs @ [Some k]) w' \<and>
    current w' = current w \<and> stdout w' = stdout w"
proof -
  define c where "c = \<lparr>ctx = \<lparr>uc_code = Some k, uc_link = Some To_done, ss_sp = Heap a,
    ss_size = STACK_SIZE\<rparr>, stack = a, cstate = CORO_READY, cid = length bs\<rparr>"
  define w' where "w' = w\<lparr>coros := (coros w)[length bs := c], coro_count := length bs + 1, live := a # live w\<rparr>"
  have "coro_ok (length bs) a (Some k) c" by (simp add: coro_ok_def c_def)
  then have "sched_rep (ss @ [a]) (bs @ [Some k]) w'"
    using assms by (auto simp: sched_rep_def w'_def done_spawn_def nth_append nth_list_update less_Suc_eq)
  moreover have "coro_spawn a k w = Inr w'"
    using assms by (simp add: coro_spawn_def set_coro_def wr_def sched_rep_def w'_def c_def)
  ultimately show ?thesis by (simp add: w'_def)
qed

lemma initial_rep: "sched_rep [] [] (done_spawn initial_world)"
  by (simp add: sched_rep_def done_spawn_def initial_world_def)

lemma coro_spawns_rep:
  assumes "sched_rep ss bs w" "length bs + length ps \<le> MAX_COROUTINES" "0 \<notin> fst ` set ps"
  shows "\<exists>w'. foldE (\<lambda>(a, fn). coro_spawn a fn) ps w = Inr w' \<and>
    sched_rep (ss @ map fst ps) (bs @ map (Some \<circ> snd) ps) w' \<and>
    current w' = current w \<and> stdout w' = stdout w"
  using assms
proof (induction ps arbitrary: ss bs w)
  case (Cons p ps)
  then have "length bs < MAX_COROUTINES" "fst p \<noteq> 0" by auto
  then obtain w1 where w1: "coro_spawn (fst p) (snd p) w = Inr w1"
    "sched_rep (ss @ [fst p]) (bs @ [Some (snd p)]) w1" "current w1 = current w" "stdout w1 = stdout w"
    using coro_spawn_rep [OF Cons.prems(1)] by metis
  then show ?case
    using Cons.IH [OF w1(2)] Cons.prems(2,3) by (auto simp: split_def)
qed simp

lemma coro_spawn_full:
  "length (coros w) \<le> coro_count w \<Longrightarrow> coro_spawn a k w = Inl OutOfBounds"
  by (simp add: coro_spawn_def set_coro_def wr_def)

lemma coro_spawn_keeps:
  "coro_spawn a k w = Inr w' \<Longrightarrow> length (coros w') = length (coros w) \<and> coro_count w' = coro_count w + 1"
  by (auto simp: coro_spawn_def set_coro_def wr_def split: if_splits)

lemma coro_spawns_full:
  assumes "length (coros w) < coro_count w + length ps" "coro_count w \<le> length (coros w)"
  shows "foldE (\<lambda>(a, fn). coro_spawn a fn) ps w = Inl OutOfBounds"
  using assms
proof (induction ps arbitrary: w)
  case (Cons p ps)
  show ?case
  proof (cases "coro_spawn (fst p) (snd p) w")
    case (Inl e)
    moreover from Inl have "e = OutOfBounds"
      by (auto simp: coro_spawn_def set_coro_def wr_def split: if_splits)
    ultimately show ?thesis by (simp add: split_def)
  next
    case (Inr w')
    then have "coro_count w < length (coros w)"
      by (auto simp: coro_spawn_def set_coro_def wr_def split: if_splits)
    with coro_spawn_keeps [OF Inr] Inr Cons show ?thesis
      by (simp add: split_def)
  qed
qed simp

lemma free_stacks_from:
  assumes "distinct ss" "0 \<notin> set ss" "i \<le> length ss" "live w = rev (drop i ss)"
    and "length ss \<le> length (coros w)" "\<forall>j < length ss. stack (coros w ! j) = ss ! j"
  shows "foldE (\<lambda>cr w. bindE (coro_at w (int cr)) (\<lambda>c. free_block (stack c) w)) [i..<length ss] w =
    Inr (w\<lparr>live := []\<rparr>)"
  using assms
proof (induction "length ss - i" arbitrary: i w)
  case 0
  then show ?case by simp
next
  case (Suc d)
  then have i: "i < length ss" by simp
  have drop: "drop i ss = ss ! i # drop (Suc i) ss" using i by (simp add: Cons_nth_drop_Suc)
  then have "ss ! i \<notin> set (drop (Suc i) ss)" using Suc.prems(1) by (metis distinct.simps(2) distinct_drop)
  then have rm: "remove1 (ss ! i) (rev (drop i ss)) = rev (drop (Suc i) ss)"
    by (simp add: drop remove1_append)
  have "ss ! i \<noteq> 0" using Suc.prems(2) i by (metis nth_mem)
  moreover have "ss ! i \<in> set (live w)" by (simp add: Suc.prems(4) drop)
  ultimately have "bindE (coro_at w (int i)) (\<lambda>c. free_block (stack c) w) =
      Inr (w\<lparr>live := rev (drop (Suc i) ss)\<rparr>)"
    using i Suc.prems by (simp add: coro_at_def rd_def free_block_def rm)
  moreover have "foldE (\<lambda>cr w. bindE (coro_at w (int cr)) (\<lambda>c. free_block (stack c) w)) [Suc i..<length ss]
      (w\<lparr>live := rev (drop (Suc i) ss)\<rparr>) = Inr (w\<lparr>live := []\<rparr>)"
    using Suc.hyps(1) [of "Suc i" "w\<lparr>live := rev (drop (Suc i) ss)\<rparr>"] Suc.hyps(2) Suc.prems i by simp
  ultimately show ?case using i by (simp add: upt_conv_Cons)
qed

lemma free_coros_stacks_rep:
  assumes "sched_rep ss bs w" "distinct ss"
  shows "free_coros_stacks w = Inr (w\<lparr>live := []\<rparr>)"
proof -
  have n: "coro_count w = length ss" using assms by (simp add: sched_rep_def)
  have "\<forall>j < length ss. stack (coros w ! j) = ss ! j"
    using assms by (auto simp: sched_rep_def coro_ok_def)
  then show ?thesis
    unfolding free_coros_stacks_def n using assms by (intro free_stacks_from) (auto simp: sched_rep_def)
qed

section \<open>The workers\<close>

text \<open>\<open>worker\<close> yields three times; the calls it may still make bound the rounds.\<close>

fun worker_steps :: "worker \<Rightarrow> nat" where
  "worker_steps Worker_start = 5"
| "worker_steps (Worker_yielded i step) = Suc (3 - step)"

interpretation workers: resumable worker_resume worker_steps
proof
  show "0 < worker_steps k" for k by (cases k) auto
  show "worker_steps k' < worker_steps k" if "worker_resume i k = (ls, Some k')" for i k ls k'
    using that by (cases k) (auto simp: worker_iteration_def split: if_splits)
qed

text \<open>The run of any set of coroutines: spawned, scheduled and freed.\<close>

lemma scheduler_run_rep:
  assumes "resumable resume steps" "length ps \<le> MAX_COROUTINES" "0 \<notin> fst ` set ps"
    and m: "calls_left steps (map (Some \<circ> snd) ps) < m"
  shows "\<exists>w w'. foldE (\<lambda>(a, fn). coro_spawn a fn) ps (done_spawn initial_world) = Inr w \<and>
    scheduler_run resume w = Some (Inr w') \<and>
    sched_rep (map fst ps) (replicate (length ps) None) w' \<and>
    stdout w' = fst (rr_rounds resume m (map (Some \<circ> snd) ps))"
proof -
  let ?bs = "map (Some \<circ> snd) ps"
  obtain w where w: "foldE (\<lambda>(a, fn). coro_spawn a fn) ps (done_spawn initial_world) = Inr w"
    "sched_rep (map fst ps) ?bs w" "current w = - 1" "stdout w = []"
    using coro_spawns_rep [OF initial_rep, of ps] assms(2,3)
    by (auto simp: done_spawn_def initial_world_def)
  obtain m' where m': "m = Suc m'" "calls_left steps ?bs \<le> m'" using m by (cases m) auto
  have fin: "finished ?bs = 0" by (simp add: finished_def filter_empty_conv)
  have "rr_from resume 0 m' ?bs = rr_rounds resume m ?bs" by (simp add: rr_from_def m'(1))
  with resumable.sched_loop_rr [OF assms(1) w(2) m'(2)] w show ?thesis
    by (auto simp: fin scheduler_run_def)
qed

text \<open>
  C1: The scheduler implements round robin and terminates.  Any list of at most eight functions
  that each return after finitely many yields, spawned on stacks that \<open>malloc\<close> gave, is run
  to completion: \<open>scheduler_run\<close> returns, the lines printed are those of cooperative rounds in
  index order in which every unfinished coroutine gets one turn per round, every coroutine ends in
  \<open>CORO_DONE\<close>, and \<open>free_coros_stacks\<close> then releases every stack exactly once.
\<close>

theorem scheduler_run_round_robin:
  assumes "resumable resume steps" "length ps \<le> MAX_COROUTINES"
    and "distinct (map fst ps)" "0 \<notin> fst ` set ps"
    and "calls_left steps (map (Some \<circ> snd) ps) < m"
  shows "\<exists>w w'. foldE (\<lambda>(a, fn). coro_spawn a fn) ps (done_spawn initial_world) = Inr w \<and>
    scheduler_run resume w = Some (Inr w') \<and>
    stdout w' = fst (rr_rounds resume m (map (Some \<circ> snd) ps)) \<and>
    (\<forall>i < length ps. cstate (coros w' ! i) = CORO_DONE) \<and>
    free_coros_stacks w' = Inr (w'\<lparr>live := []\<rparr>)"
proof -
  obtain w w' where w: "foldE (\<lambda>(a, fn). coro_spawn a fn) ps (done_spawn initial_world) = Inr w"
    "scheduler_run resume w = Some (Inr w')"
    "sched_rep (map fst ps) (replicate (length ps) None) w'"
    "stdout w' = fst (rr_rounds resume m (map (Some \<circ> snd) ps))"
    using scheduler_run_rep [OF assms(1,2,4,5)] by blast
  moreover have "\<forall>i < length ps. cstate (coros w' ! i) = CORO_DONE"
    using w(3) by (auto simp: sched_rep_def coro_ok_def)
  moreover note free_coros_stacks_rep [OF w(3) assms(3)]
  ultimately show ?thesis by blast
qed

theorem scheduler_run_round_robin_witness:
  "\<exists>w w'. foldE (\<lambda>(a, fn). coro_spawn a fn) [(16, Worker_start), (32, Worker_yielded 1 2)]
       (done_spawn initial_world) = Inr w \<and>
    scheduler_run worker_resume w = Some (Inr w') \<and>
    stdout w' = fst (rr_rounds worker_resume 8 [Some Worker_start, Some (Worker_yielded 1 2)]) \<and>
    (\<forall>i < 2. cstate (coros w' ! i) = CORO_DONE) \<and>
    free_coros_stacks w' = Inr (w'\<lparr>live := []\<rparr>)"
  using scheduler_run_round_robin [OF workers.resumable_axioms,
      of "[(16, Worker_start), (32, Worker_yielded 1 2)]" 8]
  by (simp add: MAX_COROUTINES_def calls_left_def numeral_2_eq_2)

text \<open>
  C25: \<open>main\<close> interleaves its four workers: when its four \<open>malloc\<close> calls return distinct
  blocks, it terminates without error, prints the three steps of the workers in turn, then their
  \<open>done\<close> lines, then the closing line, and no stack is left allocated.
\<close>

theorem coro_main_output:
  assumes "distinct [a0, a1, a2, a3]" "0 \<notin> {a0, a1, a2, a3}"
  shows "\<exists>w. coro_main a0 a1 a2 a3 = Some (Inr w) \<and> live w = [] \<and>
    stdout w = [''coro '' @ fmt_u i @ '': step '' @ fmt_u s. s \<leftarrow> [0..<3], i \<leftarrow> [0..<4]] @
      [''coro '' @ fmt_u i @ '': done''. i \<leftarrow> [0..<4]] @ [''all coroutines finished'']"
proof -
  let ?ps = "[(a0, Worker_start), (a1, Worker_start), (a2, Worker_start), (a3, Worker_start)]"
  obtain w w' where w: "foldE (\<lambda>(a, fn). coro_spawn a fn) ?ps (done_spawn initial_world) = Inr w"
    "scheduler_run worker_resume w = Some (Inr w')"
    "sched_rep [a0, a1, a2, a3] [None, None, None, None] w'"
    "stdout w' = fst (rr_rounds worker_resume 21 (map (Some \<circ> snd) ?ps))"
    using scheduler_run_rep [OF workers.resumable_axioms, of ?ps 21] assms(2)
    by (auto simp: MAX_COROUTINES_def calls_left_def)
  have spawns: "foldE (\<lambda>a. coro_spawn a Worker_start) [a0, a1, a2, a3] (done_spawn initial_world) = Inr w"
    using w(1) foldE_map [of "\<lambda>(a, fn). coro_spawn a fn" "\<lambda>a. (a, Worker_start)" "[a0, a1, a2, a3]"] by simp
  let ?w = "w'\<lparr>stdout := stdout w' @ [''all coroutines finished'']\<rparr>"
  have "sched_rep [a0, a1, a2, a3] [None, None, None, None] ?w"
    using w(3) by (simp add: sched_rep_def done_spawn_def)
  from free_coros_stacks_rep [OF this assms(1)]
  have "coro_main a0 a1 a2 a3 = Some (Inr (?w\<lparr>live := []\<rparr>))"
    using w(2) spawns by (simp add: coro_main_def)
  moreover have "stdout w' = [''coro '' @ fmt_u i @ '': step '' @ fmt_u s. s \<leftarrow> [0..<3], i \<leftarrow> [0..<4]] @
      [''coro '' @ fmt_u i @ '': done''. i \<leftarrow> [0..<4]]"
    unfolding w(4)
    by (simp add: eval_nat_numeral rr_slot_def worker_iteration_def Let_def upt_rec)
  ultimately show ?thesis by simp
qed

theorem coro_main_output_witness:
  "\<exists>w. coro_main 1 2 3 4 = Some (Inr w) \<and> live w = [] \<and>
    stdout w = [''coro '' @ fmt_u i @ '': step '' @ fmt_u s. s \<leftarrow> [0..<3], i \<leftarrow> [0..<4]] @
      [''coro '' @ fmt_u i @ '': done''. i \<leftarrow> [0..<4]] @ [''all coroutines finished'']"
  using coro_main_output [of 1 2 3 4] by simp

text \<open>
  \<open>coro_spawn\<close> does not check \<open>coro_count\<close> against \<open>MAX_COROUTINES\<close>: spawning more than
  eight coroutines writes past the array \<open>coros\<close>.
\<close>

theorem coro_spawn_overflow:
  assumes "MAX_COROUTINES < length ps"
  shows "foldE (\<lambda>(a, fn). coro_spawn a fn) ps (done_spawn initial_world) = Inl OutOfBounds"
  using assms by (intro coro_spawns_full) (auto simp: done_spawn_def initial_world_def)

theorem coro_spawn_overflow_witness:
  "foldE (\<lambda>(a, fn). coro_spawn a fn) (map (\<lambda>i. (i + 1, Worker_start)) [0..<9])
     (done_spawn initial_world) = Inl OutOfBounds"
  using coro_spawn_overflow [of "map (\<lambda>i. (i + 1, Worker_start)) [0..<9]"]
  by (simp add: MAX_COROUTINES_def)

end
