(* ===== verification/Jit.thy ===== *)
theory Jit
  imports Printf
begin

text \<open>
  The code generator of \<^verbatim>\<open>07-JIT/main.c\<close>.

  The page that \<open>mmap\<close> returns is a list of bytes with its protection; stores need a writable
  page, calls an executable one.  The processor is the part of IA-32 that the emitted bytes use:
  the 32-bit register forms of \<open>MOV\<close>, \<open>ADD\<close> and \<open>IMUL\<close>, and \<open>RET\<close>, decoded from the
  opcode and the ModRM byte for all eight registers.
\<close>

unbundle bit_operations_syntax

section \<open>The processor\<close>

datatype reg = EAX | ECX | EDX | EBX | ESP | EBP | ESI | EDI

datatype instr = MOV reg reg | ADD reg reg | IMUL reg reg | RET

datatype jit_fault = Segv | Illegal_instruction

type_synonym regs = "reg \<Rightarrow> u32"

definition all_regs :: "reg list" where
  "all_regs = [EAX, ECX, EDX, EBX, ESP, EBP, ESI, EDI]"

fun reg_code :: "reg \<Rightarrow> byte" where
  "reg_code EAX = 0" | "reg_code ECX = 1" | "reg_code EDX = 2" | "reg_code EBX = 3"
| "reg_code ESP = 4" | "reg_code EBP = 5" | "reg_code ESI = 6" | "reg_code EDI = 7"

definition modrm_reg :: "byte \<Rightarrow> reg" where
  "modrm_reg m = all_regs ! unat (drop_bit 3 m AND 7)"

definition modrm_rm :: "byte \<Rightarrow> reg" where
  "modrm_rm m = all_regs ! unat (m AND 7)"

text \<open>Only the register-direct form of an operand, with the two mode bits set, is covered.\<close>

definition reg_direct :: "byte \<Rightarrow> bool" where
  "reg_direct m \<longleftrightarrow> drop_bit 6 m = 3"

fun decode :: "byte list \<Rightarrow> (instr \<times> byte list) option" where
  "decode (op # m # rest) =
     (if op = 0xC3 then Some (RET, m # rest)
      else if op = 0x89 \<and> reg_direct m then Some (MOV (modrm_rm m) (modrm_reg m), rest)
      else if op = 0x01 \<and> reg_direct m then Some (ADD (modrm_rm m) (modrm_reg m), rest)
      else if op = 0x0F \<and> m = 0xAF then
        (case rest of
           m' # rest' \<Rightarrow>
             (if reg_direct m' then Some (IMUL (modrm_reg m') (modrm_rm m'), rest') else None)
         | [] \<Rightarrow> None)
      else None)"
| "decode [op] = (if op = 0xC3 then Some (RET, []) else None)"
| "decode [] = None"

text \<open>The assembler, for comparison: destination first.\<close>

definition modrm :: "reg \<Rightarrow> reg \<Rightarrow> byte" where
  "modrm r rm = 0xC0 OR push_bit 3 (reg_code r) OR reg_code rm"

fun assemble :: "instr \<Rightarrow> byte list" where
  "assemble (MOV d s) = [0x89, modrm s d]"
| "assemble (ADD d s) = [0x01, modrm s d]"
| "assemble (IMUL d s) = [0x0F, 0xAF, modrm d s]"
| "assemble RET = [0xC3]"

fun exec_instr :: "instr \<Rightarrow> regs \<Rightarrow> regs" where
  "exec_instr (MOV d s) r = r(d := r s)"
| "exec_instr (ADD d s) r = r(d := r d + r s)"
| "exec_instr (IMUL d s) r = r(d := r d * r s)"
| "exec_instr RET r = r"

lemma decode_shorter: "decode bs = Some (i, rest) \<Longrightarrow> length rest < length bs"
  by (cases bs rule: decode.cases) (auto split: if_splits list.splits)

function run_from :: "byte list \<Rightarrow> regs \<Rightarrow> jit_fault + regs" where
  "run_from bs r =
     (case decode bs of
        None \<Rightarrow> Inl Illegal_instruction
      | Some (RET, _) \<Rightarrow> Inr r
      | Some (i, rest) \<Rightarrow> run_from rest (exec_instr i r))"
  by pat_completeness auto
termination
  by (relation "measure (length \<circ> fst)") (auto dest: decode_shorter)

declare run_from.simps [simp del]

lemma modrm_fields:
  "modrm_reg (modrm r rm) = r" "modrm_rm (modrm r rm) = rm" "reg_direct (modrm r rm)"
  by (cases r; cases rm; simp add: modrm_def modrm_reg_def modrm_rm_def reg_direct_def all_regs_def)+

text \<open>Decoding inverts the assembler on every instruction.\<close>

lemma decode_assemble: "decode (assemble i @ rest) = Some (i, rest)"
  by (cases i; cases rest) (auto simp: modrm_fields)

lemma run_from_assemble:
  "run_from (concat (map assemble is) @ assemble RET @ rest) r = Inr (fold exec_instr is r)"
  if "RET \<notin> set is"
  using that
proof (induction "is" arbitrary: r)
  case Nil
  show ?case by (subst run_from.simps) (simp only: list.map concat.simps append_Nil decode_assemble option.case prod.case instr.case fold.simps id_apply)
next
  case (Cons i "is")
  then show ?case
    by (subst run_from.simps) (cases i; simp add: modrm_fields)
qed

section \<open>The code page\<close>

definition JIT_SIZE :: nat where "JIT_SIZE = 4096"

datatype page_prot = PROT_RW | PROT_RX

record jit_state =
  page :: "byte list"
  page_prot :: page_prot
  off :: nat

text \<open>A fresh anonymous mapping is filled with zeros.\<close>

definition mmap_page :: jit_state where
  "mmap_page = \<lparr>page = replicate JIT_SIZE 0, page_prot = PROT_RW, off = 0\<rparr>"

text \<open>\<open>code[off++] = b\<close>\<close>

definition emit :: "byte \<Rightarrow> jit_state \<Rightarrow> jit_fault + jit_state" where
  "emit b st =
     (if page_prot st = PROT_RW \<and> off st < length (page st)
      then Inr (st\<lparr>page := (page st)[off st := b], off := off st + 1\<rparr>) else Inl Segv)"

definition emit_add :: "jit_state \<Rightarrow> jit_fault + jit_state" where
  "emit_add = foldE emit [0x89, 0xF8, 0x01, 0xF0, 0xC3]"

definition emit_mul :: "jit_state \<Rightarrow> jit_fault + jit_state" where
  "emit_mul = foldE emit [0x89, 0xF8, 0x0F, 0xAF, 0xC6, 0xC3]"

definition mprotect_rx :: "jit_state \<Rightarrow> jit_state" where
  "mprotect_rx st = st\<lparr>page_prot := PROT_RX\<rparr>"

text \<open>
  A call through a function pointer into the page: the System V convention passes the arguments
  in \<open>edi\<close> and \<open>esi\<close> and returns \<open>eax\<close>; \<open>r\<close> are the registers of the caller.
\<close>

definition call_code :: "regs \<Rightarrow> jit_state \<Rightarrow> nat \<Rightarrow> u32 \<Rightarrow> u32 \<Rightarrow> jit_fault + u32" where
  "call_code r st entry a b =
     (if page_prot st = PROT_RX \<and> entry < length (page st)
      then bindE (run_from (drop entry (page st)) (r(EDI := a, ESI := b))) (\<lambda>r'. Inr (r' EAX))
      else Inl Segv)"

text \<open>Both functions emitted one after the other: the page and the two entry offsets.\<close>

definition emit_all :: "jit_state \<Rightarrow> jit_fault + (nat \<times> nat \<times> jit_state)" where
  "emit_all st =
     (let add_off = off st in
      bindE (emit_add st) (\<lambda>st1. let mul_off = off st1 in
      bindE (emit_mul st1) (\<lambda>st2. Inr (add_off, mul_off, st2))))"

section \<open>main\<close>

record jit_result =
  jit_stdout :: "string list"
  jit_stderr :: "string list"
  jit_exit :: nat
  still_mapped :: bool

definition verdict :: "bool \<Rightarrow> string" where
  "verdict ok = (if ok then ''OK'' else ''FAIL'')"

text \<open>\<open>main\<close>, for the outcomes of \<open>mmap\<close> and \<open>mprotect\<close>.\<close>

definition jit_main :: "bool \<Rightarrow> bool \<Rightarrow> regs \<Rightarrow> jit_fault + jit_result" where
  "jit_main mmap_ok mprotect_ok r =
     (if \<not> mmap_ok
      then Inr \<lparr>jit_stdout = [], jit_stderr = [''mmap''], jit_exit = 1, still_mapped = False\<rparr>
      else bindE (emit_all mmap_page) (\<lambda>(add_off, mul_off, st).
        if \<not> mprotect_ok
        then Inr \<lparr>jit_stdout = [], jit_stderr = [''mprotect''], jit_exit = 1, still_mapped = True\<rparr>
        else let st = mprotect_rx st in
          bindE (call_code r st add_off 3 4) (\<lambda>r_add.
          bindE (call_code r st mul_off 6 7) (\<lambda>r_mul.
            Inr \<lparr>jit_stdout =
                   [''add(3,  4)  = '' @ fmt_d (sint r_add) @ ''   ['' @ verdict (r_add = 7) @ '']'',
                    ''mul(6,  7)  = '' @ fmt_d (sint r_mul) @ ''  ['' @ verdict (r_mul = 42) @ '']''],
                 jit_stderr = [], jit_exit = (if r_add = 7 \<and> r_mul = 42 then 0 else 1),
                 still_mapped = False\<rparr>))))"

section \<open>What is emitted\<close>

definition add_code :: "instr list" where "add_code = [MOV EAX EDI, ADD EAX ESI]"
definition mul_code :: "instr list" where "mul_code = [MOV EAX EDI, IMUL EAX ESI]"

lemma emit_fold:
  assumes "page_prot st = PROT_RW" "off st + length bs \<le> length (page st)"
  shows "foldE emit bs st = Inr (st\<lparr>
    page := take (off st) (page st) @ bs @ drop (off st + length bs) (page st),
    off := off st + length bs\<rparr>)"
  using assms
proof (induction bs arbitrary: st)
  case (Cons b bs)
  have "emit b st = Inr (st\<lparr>page := (page st)[off st := b], off := off st + 1\<rparr>)"
    using Cons.prems by (simp add: emit_def)
  then show ?case
    using Cons.prems Cons.IH [of "st\<lparr>page := (page st)[off st := b], off := off st + 1\<rparr>"]
    by (simp add: take_Suc_conv_app_nth nth_append)
qed simp

text \<open>
  The comments of the source give the encodings; they are those of the assembler.
\<close>

lemma code_bytes:
  "concat (map assemble add_code) @ assemble RET = [0x89, 0xF8, 0x01, 0xF0, 0xC3]"
  "concat (map assemble mul_code) @ assemble RET = [0x89, 0xF8, 0x0F, 0xAF, 0xC6, 0xC3]"
  by (simp_all add: add_code_def mul_code_def modrm_def)

definition compiled :: jit_state where
  "compiled = \<lparr>page = concat (map assemble add_code) @ assemble RET @
     concat (map assemble mul_code) @ assemble RET @ replicate (JIT_SIZE - 11) 0,
     page_prot = PROT_RX, off = 11\<rparr>"

lemma emit_all_compiled:
  "emit_all mmap_page = Inr (0, 5, compiled\<lparr>page_prot := PROT_RW\<rparr>)"
proof -
  have "emit_add mmap_page = Inr (mmap_page\<lparr>page := [0x89, 0xF8, 0x01, 0xF0, 0xC3] @ replicate (JIT_SIZE - 5) 0, off := 5\<rparr>)"
    unfolding emit_add_def by (subst emit_fold) (simp_all add: mmap_page_def JIT_SIZE_def)
  moreover have "emit_mul (mmap_page\<lparr>page := [0x89, 0xF8, 0x01, 0xF0, 0xC3] @ replicate (JIT_SIZE - 5) 0, off := 5\<rparr>) =
      Inr (mmap_page\<lparr>page := [0x89, 0xF8, 0x01, 0xF0, 0xC3] @ [0x89, 0xF8, 0x0F, 0xAF, 0xC6, 0xC3] @ replicate (JIT_SIZE - 11) 0, off := 11\<rparr>)"
    unfolding emit_mul_def by (subst emit_fold) (simp_all add: mmap_page_def JIT_SIZE_def)
  ultimately show ?thesis
    using code_bytes by (simp add: emit_all_def compiled_def mmap_page_def)
qed

lemma call_add: "call_code r compiled 0 a b = Inr (a + b)"
proof -
  have "run_from (page compiled) (r(EDI := a, ESI := b)) =
      Inr (fold exec_instr add_code (r(EDI := a, ESI := b)))"
    unfolding compiled_def jit_state.select_convs
    by (rule run_from_assemble) (simp add: add_code_def)
  then show ?thesis
    by (simp add: call_code_def compiled_def add_code_def)
qed

lemma call_mul: "call_code r compiled 5 a b = Inr (a * b)"
proof -
  have "drop 5 (page compiled) =
      concat (map assemble mul_code) @ assemble RET @ replicate (JIT_SIZE - 11) 0"
    by (simp add: compiled_def add_code_def)
  then have "run_from (drop 5 (page compiled)) (r(EDI := a, ESI := b)) =
      Inr (fold exec_instr mul_code (r(EDI := a, ESI := b)))"
    using run_from_assemble [of mul_code] by (simp add: mul_code_def)
  then show ?thesis
    by (simp add: call_code_def compiled_def mul_code_def add_code_def)
qed

lemma mprotect_compiled: "mprotect_rx (compiled\<lparr>page_prot := PROT_RW\<rparr>) = compiled"
  by (simp add: mprotect_rx_def compiled_def)

text \<open>
  C8: The generated code is correct.  The bytes stored in the page are the assembly of the two
  functions, and for every pair of 32-bit arguments and every register contents of the caller,
  calling the first entry returns the sum and calling the second returns the product, modulo
  \<open>2\<^sup>3\<^sup>2\<close>.
\<close>

theorem jit_code_correct:
  "\<exists>add_off mul_off st. emit_all mmap_page = Inr (add_off, mul_off, st) \<and>
     take (off st) (page st) = concat (map assemble (add_code @ [RET] @ mul_code @ [RET])) \<and>
     (\<forall>r a b. call_code r (mprotect_rx st) add_off a b = Inr (a + b) \<and>
              call_code r (mprotect_rx st) mul_off a b = Inr (a * b))"
proof -
  have "take (off compiled) (page compiled) = concat (map assemble (add_code @ [RET] @ mul_code @ [RET]))"
    by (simp add: compiled_def add_code_def mul_code_def)
  then show ?thesis
    using emit_all_compiled call_add call_mul mprotect_compiled by simp
qed

text \<open>
  The page is never writable and executable at once: before \<open>mprotect\<close> a call into it
  faults, after it a store does.
\<close>

theorem jit_w_xor_x:
  assumes "emit_all mmap_page = Inr (add_off, mul_off, st)"
  shows "call_code r st entry a b = Inl Segv \<and> emit v (mprotect_rx st) = Inl Segv"
  using assms by (auto simp: emit_all_compiled call_code_def emit_def mprotect_rx_def)

theorem jit_w_xor_x_witness:
  "call_code (\<lambda>_. 0) (compiled\<lparr>page_prot := PROT_RW\<rparr>) 0 3 4 = Inl Segv \<and>
   emit 0xC3 (mprotect_rx (compiled\<lparr>page_prot := PROT_RW\<rparr>)) = Inl Segv"
  using jit_w_xor_x [OF emit_all_compiled] by blast

end
