(* ===== verification/Reactor.thy ===== *)
theory Reactor
  imports Printf
begin

text \<open>
  The echo server of \<^verbatim>\<open>06-epoll_reactor/reactor.c\<close>.

  The operating system is a parameter: a record \<open>sys\<close> of functions on an arbitrary kernel state
  \<open>'s\<close>, one per system call of the source, returning the errno or the result and the next kernel
  state.  What the program relies on is the contract \<open>socket_kernel\<close>, stated over a view of the
  kernel state (descriptors, interest list, pending edges); \<open>linux\<close> is an executable kernel that
  meets it.
\<close>

unbundle bit_operations_syntax

section \<open>The system interface\<close>

type_synonym fd = nat

datatype errno = EAGAIN | EWOULDBLOCK | EOther nat

definition O_NONBLOCK :: u32 where "O_NONBLOCK = 0x800"
definition SOCK_NONBLOCK :: u32 where "SOCK_NONBLOCK = 0x800"
definition EPOLLIN :: u32 where "EPOLLIN = 0x1"
definition EPOLLERR :: u32 where "EPOLLERR = 0x8"
definition EPOLLHUP :: u32 where "EPOLLHUP = 0x10"
definition EPOLLRDHUP :: u32 where "EPOLLRDHUP = 0x2000"
definition EPOLLET :: u32 where "EPOLLET = 0x80000000"

definition PORT :: nat where "PORT = 8080"
definition MAX_EVENTS :: nat where "MAX_EVENTS = 64"
definition BUF_SIZE :: nat where "BUF_SIZE = 4096"

record 's sys =
  fcntl_getfl :: "fd \<Rightarrow> 's \<Rightarrow> (errno + u32) \<times> 's"
  fcntl_setfl :: "fd \<Rightarrow> u32 \<Rightarrow> 's \<Rightarrow> (errno + unit) \<times> 's"
  sys_socket :: "'s \<Rightarrow> (errno + fd) \<times> 's"
  set_reuseaddr :: "fd \<Rightarrow> 's \<Rightarrow> (errno + unit) \<times> 's"
  sys_bind :: "fd \<Rightarrow> nat \<Rightarrow> 's \<Rightarrow> (errno + unit) \<times> 's"
  sys_listen :: "fd \<Rightarrow> 's \<Rightarrow> (errno + unit) \<times> 's"
  accept4 :: "fd \<Rightarrow> u32 \<Rightarrow> 's \<Rightarrow> (errno + fd) \<times> 's"
  epoll_create1 :: "'s \<Rightarrow> (errno + fd) \<times> 's"
  epoll_add :: "fd \<Rightarrow> fd \<Rightarrow> u32 \<Rightarrow> 's \<Rightarrow> (errno + unit) \<times> 's"
  epoll_del :: "fd \<Rightarrow> fd \<Rightarrow> 's \<Rightarrow> (errno + unit) \<times> 's"
  epoll_wait :: "fd \<Rightarrow> nat \<Rightarrow> 's \<Rightarrow> (errno + (u32 \<times> fd) list) \<times> 's"
  sys_read :: "fd \<Rightarrow> nat \<Rightarrow> 's \<Rightarrow> (errno + byte list) \<times> 's"
  sys_write :: "fd \<Rightarrow> byte list \<Rightarrow> 's \<Rightarrow> (errno + nat) \<times> 's"
  sys_close :: "fd \<Rightarrow> 's \<Rightarrow> (errno + unit) \<times> 's"

section \<open>The program\<close>

text \<open>
  The state of a run: the kernel, the text on the two output streams (for \<open>perror\<close> the prefix
  only), and the storage of the local array \<open>buf\<close>, whose contents C leaves indeterminate.
\<close>

record 's reactor =
  kern :: 's
  out :: "string list"
  err :: "string list"
  rbuf :: "byte list"

definition perror :: "string \<Rightarrow> 's reactor \<Rightarrow> 's reactor" where
  "perror msg st = st\<lparr>err := err st @ [msg]\<rparr>"

definition would_block :: "errno \<Rightarrow> bool" where
  "would_block e \<longleftrightarrow> e = EAGAIN \<or> e = EWOULDBLOCK"

definition make_nonblocking :: "'s sys \<Rightarrow> fd \<Rightarrow> 's reactor \<Rightarrow> bool \<times> 's reactor" where
  "make_nonblocking sys fd st =
     (case fcntl_getfl sys fd (kern st) of
        (Inl _, k) \<Rightarrow> (False, perror ''read flags'' (st\<lparr>kern := k\<rparr>))
      | (Inr flag, k) \<Rightarrow>
         (case fcntl_setfl sys fd (flag OR O_NONBLOCK) k of
            (Inl _, k') \<Rightarrow> (False, perror ''set flags'' (st\<lparr>kern := k'\<rparr>))
          | (Inr _, k') \<Rightarrow> (True, st\<lparr>kern := k'\<rparr>)))"

text \<open>\<open>None\<close> is the result -1.\<close>

definition create_listen_socket :: "'s sys \<Rightarrow> nat \<Rightarrow> 's reactor \<Rightarrow> fd option \<times> 's reactor" where
  "create_listen_socket sys port st =
     (case sys_socket sys (kern st) of
        (Inl _, k) \<Rightarrow> (None, perror ''create socket'' (st\<lparr>kern := k\<rparr>))
      | (Inr fd, k) \<Rightarrow>
     (case set_reuseaddr sys fd k of
        (Inl _, k) \<Rightarrow> (None, perror ''set socket options'' (st\<lparr>kern := k\<rparr>))
      | (Inr _, k) \<Rightarrow>
     (case sys_bind sys fd port k of
        (Inl _, k) \<Rightarrow> (None, perror ''bind'' (st\<lparr>kern := k\<rparr>))
      | (Inr _, k) \<Rightarrow>
     (case sys_listen sys fd k of
        (Inl _, k) \<Rightarrow> (None, perror ''listen'' (st\<lparr>kern := k\<rparr>))
      | (Inr _, k) \<Rightarrow>
     (case make_nonblocking sys fd (st\<lparr>kern := k\<rparr>) of
        (ok, st') \<Rightarrow> (if ok then Some fd else None, st'))))))"

definition client_events :: u32 where
  "client_events = EPOLLIN OR EPOLLET OR EPOLLRDHUP"

definition close_fd :: "'s sys \<Rightarrow> fd \<Rightarrow> 's reactor \<Rightarrow> 's reactor" where
  "close_fd sys fd st = st\<lparr>kern := snd (sys_close sys fd (kern st))\<rparr>"

text \<open>\<open>epoll_ctl(epfd, EPOLL_CTL_DEL, fd, NULL); close(fd);\<close>\<close>

definition drop_client :: "'s sys \<Rightarrow> fd \<Rightarrow> fd \<Rightarrow> 's reactor \<Rightarrow> 's reactor" where
  "drop_client sys epfd fd st =
     close_fd sys fd (st\<lparr>kern := snd (epoll_del sys epfd fd (kern st))\<rparr>)"

partial_function (option) handle_new_connection ::
    "'s sys \<Rightarrow> fd \<Rightarrow> fd \<Rightarrow> 's reactor \<Rightarrow> 's reactor option" where
  "handle_new_connection sys epfd listenfd st =
     (case accept4 sys listenfd SOCK_NONBLOCK (kern st) of
        (Inl e, k) \<Rightarrow>
          Some (if would_block e then st\<lparr>kern := k\<rparr> else perror ''accept4'' (st\<lparr>kern := k\<rparr>))
      | (Inr clientfd, k) \<Rightarrow>
         (case epoll_add sys epfd clientfd client_events k of
            (Inl _, k') \<Rightarrow>
              handle_new_connection sys epfd listenfd
                (close_fd sys clientfd (perror ''epoll_ctl add client'' (st\<lparr>kern := k'\<rparr>)))
          | (Inr _, k') \<Rightarrow> handle_new_connection sys epfd listenfd (st\<lparr>kern := k'\<rparr>)))"

text \<open>\<open>read\<close> fills the front of \<open>buf\<close>; \<open>printf\<close> then prints \<open>buf\<close> up to the first NUL.\<close>

partial_function (option) handle_client_data ::
    "'s sys \<Rightarrow> fd \<Rightarrow> fd \<Rightarrow> 's reactor \<Rightarrow> 's reactor c_res option" where
  "handle_client_data sys epfd clientfd st =
     (case sys_read sys clientfd BUF_SIZE (kern st) of
        (Inl e, k) \<Rightarrow>
          Some (Inr (if would_block e then st\<lparr>kern := k\<rparr>
                     else drop_client sys epfd clientfd (perror ''read'' (st\<lparr>kern := k\<rparr>))))
      | (Inr data, k) \<Rightarrow>
         (if data = [] then Some (Inr (drop_client sys epfd clientfd (st\<lparr>kern := k\<rparr>)))
          else let buf = data @ drop (length data) (rbuf st) in
           (case until_nul buf of
              Inl e \<Rightarrow> Some (Inl e)
            | Inr s \<Rightarrow>
               (case sys_write sys clientfd (take (length data) buf) k of
                  (Inl e, k') \<Rightarrow>
                    Some (Inr (drop_client sys epfd clientfd (perror ''write''
                      (st\<lparr>kern := k', out := out st @ [''Recv: '' @ text_of s], rbuf := buf\<rparr>))))
                | (Inr _, k') \<Rightarrow>
                    handle_client_data sys epfd clientfd
                      (st\<lparr>kern := k', out := out st @ [''Recv: '' @ text_of s], rbuf := buf\<rparr>)))))"

declare handle_new_connection.simps [code] handle_client_data.simps [code]

text \<open>The body of \<open>main\<close>'s inner loop, for one event.\<close>

definition dispatch ::
    "'s sys \<Rightarrow> fd \<Rightarrow> fd \<Rightarrow> u32 \<times> fd \<Rightarrow> 's reactor \<Rightarrow> 's reactor c_res option" where
  "dispatch sys epfd listenfd ev st =
     (if fst ev AND (EPOLLHUP OR EPOLLERR) \<noteq> 0 then Some (Inr (drop_client sys epfd (snd ev) st))
      else if snd ev = listenfd then map_option Inr (handle_new_connection sys epfd (snd ev) st)
      else handle_client_data sys epfd (snd ev) st)"

fun dispatch_all ::
    "'s sys \<Rightarrow> fd \<Rightarrow> fd \<Rightarrow> (u32 \<times> fd) list \<Rightarrow> 's reactor \<Rightarrow> 's reactor c_res option" where
  "dispatch_all sys epfd listenfd [] st = Some (Inr st)"
| "dispatch_all sys epfd listenfd (ev # evs) st =
     (case dispatch sys epfd listenfd ev st of
        None \<Rightarrow> None
      | Some (Inl e) \<Rightarrow> Some (Inl e)
      | Some (Inr st') \<Rightarrow> dispatch_all sys epfd listenfd evs st')"

text \<open>One iteration of the event loop; a failed \<open>epoll_wait\<close> leaves nothing to do.\<close>

definition reactor_iteration ::
    "'s sys \<Rightarrow> fd \<Rightarrow> fd \<Rightarrow> 's reactor \<Rightarrow> 's reactor c_res option" where
  "reactor_iteration sys epfd listenfd st =
     (case epoll_wait sys epfd MAX_EVENTS (kern st) of
        (Inl _, k) \<Rightarrow> Some (Inr (st\<lparr>kern := k\<rparr>))
      | (Inr evs, k) \<Rightarrow> dispatch_all sys epfd listenfd evs (st\<lparr>kern := k\<rparr>))"

text \<open>\<open>main\<close> up to the event loop: \<open>Inl\<close> the exit status, or the two descriptors.\<close>

definition reactor_start :: "'s sys \<Rightarrow> 's reactor \<Rightarrow> (nat + fd \<times> fd) \<times> 's reactor" where
  "reactor_start sys st =
     (case create_listen_socket sys PORT st of
        (None, st1) \<Rightarrow> (Inl 1, perror ''listen'' st1)
      | (Some listenfd, st1) \<Rightarrow>
         (case epoll_create1 sys (kern st1) of
            (Inl _, k) \<Rightarrow> (Inl 1, perror ''epoll_create1'' (st1\<lparr>kern := k\<rparr>))
          | (Inr epfd, k) \<Rightarrow>
             (case epoll_add sys epfd listenfd (EPOLLIN OR EPOLLET) k of
                (r, k') \<Rightarrow>
                  let st2 = st1\<lparr>kern := k'\<rparr>; st3 = (case r of Inl _ \<Rightarrow> perror ''epoll_ctl'' st2 | Inr _ \<Rightarrow> st2) in
                  (Inr (listenfd, epfd),
                   st3\<lparr>out := out st3 @ [''Reactor listening on port '' @ fmt_u PORT]\<rparr>))))"

section \<open>What the program relies on\<close>

text \<open>
  A connection as the kernel holds it: bytes received and not yet read, whether the peer has
  closed its side or reset the connection, the room in the send buffer, and the bytes taken for
  sending.
\<close>

record conn =
  rcv :: "byte list"
  eof :: bool
  broken :: bool
  room :: nat
  snt :: "byte list"

datatype fobj = Unbound | is_Listener: Listener "conn list" | is_Client: Client conn | Epoll

record ofile =
  fflags :: u32
  obj :: fobj

text \<open>
  \<open>interest\<close> is the event mask each descriptor is registered with, and \<open>edges\<close> is the ready list of
  the epoll instance: the descriptors for which an event is pending.
\<close>

record kview =
  fds :: "fd \<Rightarrow> ofile option"
  interest :: "fd \<Rightarrow> u32 option"
  edges :: "fd set"

definition nonblock :: "ofile \<Rightarrow> bool" where
  "nonblock f \<longleftrightarrow> fflags f AND O_NONBLOCK \<noteq> 0"

text \<open>
  The events that are true of an object, of those the program has to do with; \<open>EPOLLOUT\<close> and the
  others, which no mask of it contains, are left out.
\<close>

fun ready :: "fobj \<Rightarrow> u32" where
  "ready (Listener cs) = (if cs = [] then 0 else EPOLLIN)"
| "ready (Client c) =
     (if broken c then EPOLLIN OR EPOLLRDHUP OR EPOLLERR OR EPOLLHUP
      else if eof c then EPOLLIN OR EPOLLRDHUP
      else if rcv c \<noteq> [] then EPOLLIN
      else 0)"
| "ready _ = 0"

definition waiting :: "fobj \<Rightarrow> bool" where
  "waiting q \<longleftrightarrow> ready q \<noteq> 0"

text \<open>
  The events \<open>epoll\<close> reports of a descriptor: those true of it that its mask asks for, and errors and
  hang-ups in any case.
\<close>

definition reportable :: "u32 \<Rightarrow> fobj \<Rightarrow> u32" where
  "reportable ev q = ready q AND (ev OR EPOLLERR OR EPOLLHUP)"

definition events_at :: "kview \<Rightarrow> fd \<Rightarrow> u32" where
  "events_at v fd =
     (case interest v fd of
        None \<Rightarrow> 0
      | Some ev \<Rightarrow> (case fds v fd of None \<Rightarrow> 0 | Some f \<Rightarrow> reportable ev (obj f)))"

definition edge_triggered :: "kview \<Rightarrow> fd \<Rightarrow> bool" where
  "edge_triggered v fd \<longleftrightarrow> (case interest v fd of None \<Rightarrow> False | Some ev \<Rightarrow> ev AND EPOLLET \<noteq> 0)"

text \<open>A change of a descriptor puts it on the ready list if its mask asks for what is true of it now.\<close>

definition signal :: "fd \<Rightarrow> kview \<Rightarrow> kview" where
  "signal fd v = (if events_at v fd = 0 then v else v\<lparr>edges := insert fd (edges v)\<rparr>)"

definition set_file :: "fd \<Rightarrow> ofile \<Rightarrow> kview \<Rightarrow> kview" where
  "set_file fd f v = v\<lparr>fds := (fds v)(fd := Some f)\<rparr>"

definition unwatch :: "fd \<Rightarrow> kview \<Rightarrow> kview" where
  "unwatch fd v = v\<lparr>interest := (interest v)(fd := None), edges := edges v - {fd}\<rparr>"

definition shut :: "fd \<Rightarrow> kview \<Rightarrow> kview" where
  "shut fd v = unwatch fd (v\<lparr>fds := (fds v)(fd := None)\<rparr>)"

text \<open>Registering a descriptor that is already ready makes its event pending at once.\<close>

definition watch :: "fd \<Rightarrow> u32 \<Rightarrow> kview \<Rightarrow> kview" where
  "watch fd ev v = signal fd (v\<lparr>interest := (interest v)(fd := Some ev)\<rparr>)"

text \<open>
  The calls of the manual pages: what each may return for a descriptor of the given kind, and
  its effect.  How many bytes \<open>read\<close> returns, which descriptors of the ready list \<open>epoll_wait\<close> reports,
  whether \<open>accept4\<close>, \<open>epoll_ctl\<close> and the calls of the start-up fail, and all file status flags but
  \<open>O_NONBLOCK\<close> are left open.  \<open>epoll_wait\<close> takes an edge-triggered descriptor it reports off the ready
  list and keeps a level-triggered one; of the others it may only drop those that nothing is true of
  any more.
\<close>

locale socket_kernel =
  fixes sys :: "'s sys" and view :: "'s \<Rightarrow> kview"
  assumes socket: "sys_socket sys k = (r, k') \<Longrightarrow>
      (case r of Inl _ \<Rightarrow> view k' = view k
       | Inr fd \<Rightarrow> fds (view k) fd = None \<and>
           (\<exists>fl. view k' = set_file fd \<lparr>fflags = fl, obj = Unbound\<rparr> (view k)))"
    and setsockopt: "set_reuseaddr sys fd k = (r1, k') \<Longrightarrow> view k' = view k"
    and bind_laws: "sys_bind sys fd port k = (r1, k') \<Longrightarrow> view k' = view k"
    and listen: "fds (view k) fd = Some f \<Longrightarrow> sys_listen sys fd k = (r1, k') \<Longrightarrow>
      view k' = (case r1 of Inl _ \<Rightarrow> view k | Inr _ \<Rightarrow> set_file fd (f\<lparr>obj := Listener []\<rparr>) (view k))"
    and getfl: "fds (view k) fd = Some f \<Longrightarrow> fcntl_getfl sys fd k = (rf, k') \<Longrightarrow>
      view k' = view k \<and> (\<forall>fl. rf = Inr fl \<longrightarrow> fl = fflags f)"
    and setfl: "fds (view k) fd = Some f \<Longrightarrow> fcntl_setfl sys fd fl k = (r1, k') \<Longrightarrow>
      (case r1 of Inl _ \<Rightarrow> view k' = view k
       | Inr _ \<Rightarrow> (\<exists>fl'. fl' AND O_NONBLOCK = fl AND O_NONBLOCK \<and> view k' = set_file fd (f\<lparr>fflags := fl'\<rparr>) (view k)))"
    and create: "epoll_create1 sys k = (r, k') \<Longrightarrow>
      (case r of Inl _ \<Rightarrow> view k' = view k
       | Inr fd \<Rightarrow> fds (view k) fd = None \<and>
           (\<exists>fl. view k' = set_file fd \<lparr>fflags = fl, obj = Epoll\<rparr> (view k)))"
    and add: "fds (view k) fd = Some f \<Longrightarrow> epoll_add sys epfd fd ev k = (r1, k') \<Longrightarrow>
      view k' = (case r1 of Inl _ \<Rightarrow> view k | Inr _ \<Rightarrow> watch fd ev (view k))"
    and del: "epoll_del sys epfd fd k = (r1, k') \<Longrightarrow> view k' = unwatch fd (view k)"
    and close_laws: "sys_close sys fd k = (r1, k') \<Longrightarrow> view k' = shut fd (view k)"
    and wait: "epoll_wait sys epfd n k = (re, k') \<Longrightarrow>
      (case re of Inl _ \<Rightarrow> view k' = view k
       | Inr evs \<Rightarrow> distinct (map snd evs) \<and> length evs \<le> n \<and>
           (\<forall>(e, fd) \<in> set evs. fd \<in> edges (view k) \<and> e = events_at (view k) fd \<and> e \<noteq> 0) \<and>
           (\<exists>E \<subseteq> edges (view k). view k' = (view k)\<lparr>edges := E\<rparr> \<and>
              (\<forall>fd \<in> edges (view k). if fd \<in> snd ` set evs then fd \<in> E \<longleftrightarrow> \<not> edge_triggered (view k) fd
                 else events_at (view k) fd \<noteq> 0 \<longrightarrow> fd \<in> E)))"
    and accept_some: "fds (view k) fd = Some f \<Longrightarrow> obj f = Listener (c # cs) \<Longrightarrow>
      accept4 sys fd fl k = (r, k') \<Longrightarrow>
      (case r of Inl e \<Rightarrow> \<not> would_block e \<and> view k' = view k
       | Inr cfd \<Rightarrow> fds (view k) cfd = None \<and>
           (\<exists>fl'. (fl' AND O_NONBLOCK \<noteq> 0 \<longleftrightarrow> fl AND SOCK_NONBLOCK \<noteq> 0) \<and>
              view k' = set_file cfd \<lparr>fflags = fl', obj = Client c\<rparr> (set_file fd (f\<lparr>obj := Listener cs\<rparr>) (view k))))"
    and accept_none: "fds (view k) fd = Some f \<Longrightarrow> obj f = Listener [] \<Longrightarrow> nonblock f \<Longrightarrow>
      accept4 sys fd fl k = (r, k') \<Longrightarrow> view k' = view k \<and> (\<exists>e. would_block e \<and> r = Inl e)"
    and read_some: "fds (view k) fd = Some f \<Longrightarrow> obj f = Client c \<Longrightarrow> \<not> broken c \<Longrightarrow> rcv c \<noteq> [] \<Longrightarrow>
      0 < n \<Longrightarrow> sys_read sys fd n k = (rb, k') \<Longrightarrow>
      (\<exists>m. 0 < m \<and> m \<le> n \<and> rb = Inr (take m (rcv c)) \<and>
         view k' = set_file fd (f\<lparr>obj := Client (c\<lparr>rcv := drop m (rcv c)\<rparr>)\<rparr>) (view k))"
    and read_none: "fds (view k) fd = Some f \<Longrightarrow> obj f = Client c \<Longrightarrow> \<not> broken c \<Longrightarrow> rcv c = [] \<Longrightarrow>
      nonblock f \<Longrightarrow> sys_read sys fd n k = (rb, k') \<Longrightarrow>
      view k' = view k \<and> (if eof c then rb = Inr [] else \<exists>e. would_block e \<and> rb = Inl e)"
    and read_broken: "fds (view k) fd = Some f \<Longrightarrow> obj f = Client c \<Longrightarrow> broken c \<Longrightarrow>
      sys_read sys fd n k = (rb, k') \<Longrightarrow> view k' = view k \<and> (\<exists>e. \<not> would_block e \<and> rb = Inl e)"
    and write_laws: "fds (view k) fd = Some f \<Longrightarrow> obj f = Client c \<Longrightarrow> \<not> broken c \<Longrightarrow> nonblock f \<Longrightarrow>
      bs \<noteq> [] \<Longrightarrow> sys_write sys fd bs k = (rn, k') \<Longrightarrow>
      (if room c = 0 then (\<exists>e. rn = Inl e) \<and> view k' = view k
       else let n = min (room c) (length bs) in rn = Inr n \<and>
         view k' = set_file fd (f\<lparr>obj := Client (c\<lparr>snt := snt c @ take n bs, room := room c - n\<rparr>)\<rparr>) (view k))"

lemmas view_defs = set_file_def unwatch_def shut_def

lemma waiting_simps [simp]:
  "waiting (Listener cs) \<longleftrightarrow> cs \<noteq> []"
  "waiting (Client c) \<longleftrightarrow> rcv c \<noteq> [] \<or> eof c \<or> broken c"
  "\<not> waiting Unbound" "\<not> waiting Epoll"
  by (simp_all add: waiting_def EPOLLIN_def EPOLLRDHUP_def EPOLLERR_def EPOLLHUP_def)

text \<open>The masks of the program ask for everything that can wait on its sockets.\<close>

lemma reportable_client: "reportable client_events (Client c) \<noteq> 0 \<longleftrightarrow> waiting (Client c)"
  by (simp add: reportable_def client_events_def EPOLLIN_def EPOLLRDHUP_def EPOLLERR_def EPOLLHUP_def EPOLLET_def)

lemma reportable_listener: "reportable (EPOLLIN OR EPOLLET) (Listener cs) \<noteq> 0 \<longleftrightarrow> waiting (Listener cs)"
  by (simp add: reportable_def EPOLLIN_def EPOLLERR_def EPOLLHUP_def EPOLLET_def)

lemma signal_simps [simp]:
  "fds (signal fd v) = fds v" "interest (signal fd v) = interest v"
  "edges (signal fd v) = (if events_at v fd = 0 then edges v else insert fd (edges v))"
  by (simp_all add: signal_def)

lemma watch_simps [simp]:
  "fds (watch fd ev v) = fds v" "interest (watch fd ev v) = (interest v)(fd := Some ev)"
  by (simp_all add: watch_def)

lemma edges_watch:
  "fds v fd = Some f \<Longrightarrow>
   edges (watch fd ev v) = (if reportable ev (obj f) = 0 then edges v else insert fd (edges v))"
  by (simp add: watch_def events_at_def)

lemma shut_set_file [simp]: "shut fd (set_file fd f v) = shut fd v"
  by (simp add: view_defs)

lemma shut_unwatch [simp]: "shut fd (unwatch fd v) = shut fd v"
  by (simp add: view_defs)

lemma set_file_set_file [simp]: "set_file fd g (set_file fd f v) = set_file fd g v"
  by (simp add: view_defs)

lemma fds_set_file [simp]: "fds (set_file fd f v) fd' = (if fd' = fd then Some f else fds v fd')"
  by (simp add: view_defs)

lemma set_file_same: "fds v fd = Some f \<Longrightarrow> set_file fd f v = v"
  by (simp add: set_file_def fun_upd_idem)

section \<open>The handlers under the contract\<close>

text \<open>After a client's event: it is closed and off the interest list, or nothing waits on it.\<close>

definition served :: "fd \<Rightarrow> ofile \<Rightarrow> kview \<Rightarrow> kview \<Rightarrow> bool" where
  "served fd f v v' \<longleftrightarrow> v' = shut fd v \<or>
     (\<exists>c. v' = set_file fd (f\<lparr>obj := Client c\<rparr>) v \<and> \<not> waiting (Client c))"

lemma served_set_file: "served fd (f\<lparr>obj := q\<rparr>) (set_file fd g v) v' \<longleftrightarrow> served fd f v v'"
  by (simp add: served_def)

lemma perror_simps [simp]:
  "kern (perror m st) = kern st" "err (perror m st) = err st @ [m]"
  "out (perror m st) = out st" "rbuf (perror m st) = rbuf st"
  by (simp_all add: perror_def)

lemma drop_client_simps [simp]:
  "err (drop_client sys epfd fd st) = err st" "err (close_fd sys fd st) = err st"
  by (simp_all add: drop_client_def close_fd_def)

text \<open>
  \<open>printable d b\<close>: no chunk of the waiting bytes \<open>d\<close> can fill the array \<open>b\<close>, and its last byte is a NUL.
\<close>

definition printable :: "byte list \<Rightarrow> byte list \<Rightarrow> bool" where
  "printable d b \<longleftrightarrow> length d < BUF_SIZE \<and> length b = BUF_SIZE \<and> b ! (BUF_SIZE - 1) = 0"

lemma printable_take:
  assumes "printable d b"
  shows "printable (drop m d) (take m d @ drop (length (take m d)) b)"
    "0 \<in> set (take m d @ drop (length (take m d)) b)"
proof -
  let ?b = "take m d @ drop (length (take m d)) b"
  have "length (take m d) < BUF_SIZE" using assms by (auto simp: printable_def)
  then have b: "?b ! (BUF_SIZE - 1) = 0" "length ?b = BUF_SIZE" "BUF_SIZE - 1 < length ?b"
    using assms by (simp_all add: printable_def nth_append BUF_SIZE_def)
  then show "0 \<in> set ?b" by (metis nth_mem)
  show "printable (drop m d) ?b" using assms b by (auto simp: printable_def)
qed

context socket_kernel
begin

lemma view_close_fd [simp]: "view (kern (close_fd sys fd st)) = shut fd (view (kern st))"
  by (simp add: close_fd_def close_laws [OF prod.collapse [symmetric]])

lemma view_drop_client [simp]: "view (kern (drop_client sys epfd fd st)) = shut fd (view (kern st))"
  by (simp add: drop_client_def del [OF prod.collapse [symmetric]])

lemma handle_client_data_idle:
  assumes f: "fds (view (kern st)) fd = Some f" "obj f = Client c" "nonblock f"
    and idle: "broken c \<or> rcv c = []"
  shows "\<exists>st1. handle_client_data sys epfd fd st =
      Some (Inr (if waiting (Client c) then drop_client sys epfd fd st1 else st1)) \<and>
    view (kern st1) = view (kern st) \<and> err st1 = err st @ (if broken c then [''read''] else [])"
proof -
  obtain r k where r: "sys_read sys fd BUF_SIZE (kern st) = (r, k)" by fastforce
  show ?thesis
  proof (cases "broken c")
    case True
    with read_broken [OF f(1,2) True r] r show ?thesis
      by (intro exI [of _ "perror ''read'' (st\<lparr>kern := k\<rparr>)"])
        (auto simp: handle_client_data.simps [of sys epfd fd st])
  next
    case False
    with idle read_none [OF f(1,2) False _ f(3) r] r show ?thesis
      by (intro exI [of _ "st\<lparr>kern := k\<rparr>"])
        (auto simp: handle_client_data.simps [of sys epfd fd st] split: if_splits)
  qed
qed

lemma handle_client_data_chunk:
  assumes f: "fds (view (kern st)) fd = Some f" "obj f = Client c" "nonblock f"
    and busy: "\<not> broken c" "rcv c \<noteq> []"
  obtains (oob) m where "handle_client_data sys epfd fd st = Some (Inl OutOfBounds)" "m \<le> BUF_SIZE"
      "0 \<notin> set (take m (rcv c) @ drop (length (take m (rcv c))) (rbuf st))"
    | (full) st' m where "room c = 0" "handle_client_data sys epfd fd st = Some (Inr (drop_client sys epfd fd st'))"
      "view (kern st') = set_file fd (f\<lparr>obj := Client (c\<lparr>rcv := drop m (rcv c)\<rparr>)\<rparr>) (view (kern st))"
      "err st' = err st @ [''write'']"
    | (more) st' m where "0 < room c" "0 < m" "m \<le> BUF_SIZE"
      "handle_client_data sys epfd fd st = handle_client_data sys epfd fd st'" "err st' = err st"
      "view (kern st') = set_file fd (f\<lparr>obj := Client (c\<lparr>rcv := drop m (rcv c),
         snt := snt c @ take (room c) (take m (rcv c)),
         room := room c - length (take m (rcv c))\<rparr>)\<rparr>) (view (kern st))"
      "rbuf st' = take m (rcv c) @ drop (length (take m (rcv c))) (rbuf st)"
proof -
  have pos: "0 < BUF_SIZE" by (simp add: BUF_SIZE_def)
  obtain r k where r: "sys_read sys fd BUF_SIZE (kern st) = (r, k)" by fastforce
  obtain m where m: "0 < m" "m \<le> BUF_SIZE" "r = Inr (take m (rcv c))"
    and vk: "view k = set_file fd (f\<lparr>obj := Client (c\<lparr>rcv := drop m (rcv c)\<rparr>)\<rparr>) (view (kern st))"
    using read_some [OF f(1,2) busy pos r] by blast
  define d where "d = take m (rcv c)"
  define b where "b = d @ drop (length d) (rbuf st)"
  have d: "d \<noteq> []" using m busy by (simp add: d_def)
  obtain w k' where w: "sys_write sys fd d k = (w, k')" by fastforce
  let ?f = "f\<lparr>obj := Client (c\<lparr>rcv := drop m (rcv c)\<rparr>)\<rparr>"
  have fk: "fds (view k) fd = Some ?f" "nonblock ?f"
    using f(3) by (simp_all add: vk nonblock_def)
  have W: "if room c = 0 then (\<exists>e. w = Inl e) \<and> view k' = view k
      else let n = min (room c) (length d) in w = Inr n \<and>
        view k' = set_file fd (f\<lparr>obj := Client (c\<lparr>rcv := drop m (rcv c), snt := snt c @ take n d,
          room := room c - n\<rparr>)\<rparr>) (view k)"
    using write_laws [OF fk(1) _ _ fk(2) d w, of "c\<lparr>rcv := drop m (rcv c)\<rparr>"] busy(1)
    by (simp add: Let_def split: if_splits)
  have td: "take (length d) b = d" by (simp add: b_def)
  note body = r m(3) d_def [symmetric] b_def [symmetric] Let_def td
  show thesis
  proof (cases "until_nul b")
    case (Inl e)
    then have e: "e = OutOfBounds" "0 \<notin> set b" using until_nul_Inl by blast+
    then have z: "0 \<notin> set (take m (rcv c) @ drop (length (take m (rcv c))) (rbuf st))"
      by (simp add: b_def d_def)
    show thesis
      using e oob [OF _ m(2) z] d Inl by (simp add: handle_client_data.simps [of sys epfd fd st] body)
  next
    case (Inr s)
    show thesis
    proof (cases "room c = 0")
      case True
      let ?st = "perror ''write'' (st\<lparr>kern := k', out := out st @ [''Recv: '' @ text_of s], rbuf := b\<rparr>)"
      have "handle_client_data sys epfd fd st = Some (Inr (drop_client sys epfd fd ?st))"
        using True W d Inr w by (auto simp: handle_client_data.simps [of sys epfd fd st] body)
      with full [of ?st m] True W show thesis by (simp add: vk)
    next
      case False
      let ?st = "st\<lparr>kern := k', out := out st @ [''Recv: '' @ text_of s], rbuf := b\<rparr>"
      have tk: "take (min (room c) (length d)) d = take (room c) d" by (simp add: min_def)
      have rm: "room c - min (room c) (length d) = room c - length d" by simp
      have "view k' = set_file fd (f\<lparr>obj := Client (c\<lparr>rcv := drop m (rcv c),
         snt := snt c @ take (room c) d, room := room c - length d\<rparr>)\<rparr>) (view (kern st))"
        using W False by (simp add: Let_def vk tk rm)
      moreover have "handle_client_data sys epfd fd st = handle_client_data sys epfd fd ?st"
        using W False d Inr w
        by (subst handle_client_data.simps) (simp add: body)
      ultimately show thesis
        using False m(1,2) by (intro more [of m ?st]) (simp_all add: d_def b_def)
    qed
  qed
qed

lemma handle_client_data_serves:
  assumes "fds (view (kern st)) fd = Some f" "obj f = Client c" "nonblock f"
  shows "\<exists>r. handle_client_data sys epfd fd st = Some r \<and>
    (\<forall>st'. r = Inr st' \<longrightarrow> served fd f (view (kern st)) (view (kern st')) \<and> (\<exists>es. err st' = err st @ es))"
  using assms
proof (induction "length (rcv c)" arbitrary: c f st rule: less_induct)
  case less
  show ?case
  proof (cases "broken c \<or> rcv c = []")
    case True
    have "view (kern st) = set_file fd (f\<lparr>obj := Client c\<rparr>) (view (kern st))"
      using less.prems by (simp add: set_file_same)
    then have s: "served fd f (view (kern st)) (if waiting (Client c) then shut fd (view (kern st)) else view (kern st))"
      unfolding served_def by (metis (full_types))
    obtain st1 where "handle_client_data sys epfd fd st =
        Some (Inr (if waiting (Client c) then drop_client sys epfd fd st1 else st1))"
      "view (kern st1) = view (kern st)" "\<exists>es. err st1 = err st @ es"
      using handle_client_data_idle [OF less.prems True] by blast
    with s show ?thesis by (auto split: if_splits)
  next
    case False
    then have busy: "\<not> broken c" "rcv c \<noteq> []" by auto
    from less.prems busy show ?thesis
    proof (cases rule: handle_client_data_chunk [where epfd = epfd])
      case oob
      then show ?thesis by simp
    next
      case (full st' m)
      then show ?thesis by (simp add: served_def)
    next
      case (more st' m)
      let ?c = "c\<lparr>rcv := drop m (rcv c), snt := snt c @ take (room c) (take m (rcv c)),
         room := room c - length (take m (rcv c))\<rparr>"
      have "length (rcv ?c) < length (rcv c)" using more(2) busy(2) by (cases "rcv c") auto
      from less.hyps [OF this, of st' "f\<lparr>obj := Client ?c\<rparr>"] less.prems(3) more show ?thesis
        by (simp add: served_set_file nonblock_def)
    qed
  qed
qed

text \<open>Everything the handler can do for a connection that has not been reset.\<close>

lemma handle_client_data_outcome:
  assumes "fds (view (kern st)) fd = Some f" "obj f = Client c" "nonblock f" "\<not> broken c"
  shows "handle_client_data sys epfd fd st = Some (Inl OutOfBounds) \<and> \<not> printable (rcv c) (rbuf st) \<or>
    (\<exists>st1 n. view (kern st1) = set_file fd (f\<lparr>obj := Client (c\<lparr>rcv := drop n (rcv c),
         snt := snt c @ take (room c) (rcv c), room := room c - length (rcv c)\<rparr>)\<rparr>) (view (kern st)) \<and>
      (drop n (rcv c) = [] \<and> err st1 = err st \<and>
         handle_client_data sys epfd fd st = Some (Inr (if eof c then drop_client sys epfd fd st1 else st1)) \<or>
       room c < length (rcv c) \<and> err st1 = err st @ [''write''] \<and>
         handle_client_data sys epfd fd st = Some (Inr (drop_client sys epfd fd st1))))"
    (is "?P c f st")
  using assms
proof (induction "length (rcv c)" arbitrary: c f st rule: less_induct)
  case less
  show ?case
  proof (cases "rcv c = []")
    case True
    have same: "f\<lparr>obj := Client (c\<lparr>rcv := [], snt := snt c, room := room c\<rparr>)\<rparr> = f"
      using less.prems(2) True by simp
    from handle_client_data_idle [OF less.prems(1-3), of epfd] True less.prems(4) obtain st1 where
      "handle_client_data sys epfd fd st = Some (Inr (if eof c then drop_client sys epfd fd st1 else st1))"
      "view (kern st1) = view (kern st)" "err st1 = err st"
      by auto
    then show ?thesis
      using True same less.prems(1) by (intro disjI2 exI [of _ st1]) (simp add: set_file_same)
  next
    case False
    from less.prems(1-4) False show ?thesis
    proof (cases rule: handle_client_data_chunk [where epfd = epfd])
      case (oob m)
      with printable_take(2) [of "rcv c" "rbuf st" m] show ?thesis by blast
    next
      case (full st' m)
      have "c\<lparr>rcv := x, room := 0\<rparr> = c\<lparr>rcv := x\<rparr>" for x using full(1) by (cases c) simp
      then show ?thesis
        using False by (intro disjI2 exI [of _ st'] exI [of _ m]) (simp only: full take_0 append_Nil2; simp)
    next
      case (more st' m)
      define d where "d = take m (rcv c)"
      define c1 where "c1 = c\<lparr>rcv := drop m (rcv c), snt := snt c @ take (room c) d, room := room c - length d\<rparr>"
      have d: "d @ drop m (rcv c) = rcv c" by (simp add: d_def)
      then have len: "length d + length (drop m (rcv c)) = length (rcv c)"
        by (metis length_append)
      have dec: "length (rcv c1) < length (rcv c)" using more(2) False by (cases "rcv c") (auto simp: c1_def)
      have view': "view (kern st') = set_file fd (f\<lparr>obj := Client c1\<rparr>) (view (kern st))"
        using more(6) by (simp only: d_def [symmetric] c1_def)
      have "take (room c) (rcv c) = take (room c) d @ take (room c - length d) (drop m (rcv c))"
        by (metis d take_append)
      then have c1: "snt c1 @ take (room c1) (rcv c1) = snt c @ take (room c) (rcv c)"
        "room c1 - length (rcv c1) = room c - length (rcv c)" "drop n (rcv c1) = drop (n + m) (rcv c)"
        "eof c1 = eof c" "\<not> broken c1" for n
        using len less.prems(4) by (simp_all add: c1_def)
      have lt: "room c1 < length (rcv c1) \<Longrightarrow> room c < length (rcv c)"
        using len by (auto simp: c1_def)
      have merge: "(f\<lparr>obj := Client c1\<rparr>)\<lparr>obj := Client (c1\<lparr>rcv := w, snt := x, room := y\<rparr>)\<rparr> =
          f\<lparr>obj := Client (c\<lparr>rcv := w, snt := x, room := y\<rparr>)\<rparr>" for w x y
        by (simp add: c1_def)
      have print: "printable (rcv c) (rbuf st) \<Longrightarrow> printable (rcv c1) (rbuf st')"
        using printable_take(1) [of "rcv c" "rbuf st" m] more(7) by (simp add: c1_def)
      have nb: "fds (view (kern st')) fd = Some (f\<lparr>obj := Client c1\<rparr>)" "nonblock (f\<lparr>obj := Client c1\<rparr>)"
        using less.prems(3) by (simp_all add: view' nonblock_def)
      have "?P c1 (f\<lparr>obj := Client c1\<rparr>) st'"
        by (rule less.hyps [OF dec nb(1) _ nb(2) c1(5)]) simp
      then show ?thesis
        unfolding more(4,5) merge c1(1-4) view' set_file_set_file
        using print lt by (fastforce split: if_splits)
    qed
  qed
qed

end

section \<open>The invariant of the event loop\<close>

text \<open>
  Between two events, \<open>P\<close> being the descriptors whose event has been taken from the kernel and not
  yet handled: the registered descriptors are the listener \<open>l\<close> and open non-blocking clients, each with
  the event mask of its kind, every open client is registered, and no wake-up is lost: a client on which
  something waits has an event pending.
\<close>

definition mask_of :: "fd \<Rightarrow> fd \<Rightarrow> u32" where
  "mask_of l fd = (if fd = l then EPOLLIN OR EPOLLET else client_events)"

lemma mask_of_simps [simp]:
  "mask_of l l = EPOLLIN OR EPOLLET" "fd \<noteq> l \<Longrightarrow> mask_of l fd = client_events"
  by (simp_all add: mask_of_def)

definition reactor_inv :: "fd \<Rightarrow> fd set \<Rightarrow> kview \<Rightarrow> bool" where
  "reactor_inv l P v \<longleftrightarrow>
     (\<forall>fd ev. interest v fd = Some ev \<longrightarrow> ev = mask_of l fd) \<and>
     (\<forall>fd. interest v fd \<noteq> None \<longrightarrow> (\<exists>f. fds v fd = Some f \<and> nonblock f \<and>
        (if fd = l then is_Listener (obj f) else is_Client (obj f)))) \<and>
     (\<forall>fd f. fds v fd = Some f \<longrightarrow> is_Client (obj f) \<longrightarrow> fd \<noteq> l \<and> interest v fd \<noteq> None) \<and>
     edges v \<subseteq> dom (interest v) \<and> P \<subseteq> dom (interest v) \<and>
     (\<forall>fd f. fds v fd = Some f \<longrightarrow> is_Client (obj f) \<longrightarrow> waiting (obj f) \<longrightarrow> fd \<in> edges v \<union> P)"

text \<open>
  Likewise for connections waiting to be accepted, as long as neither the registration of the
  listener nor \<open>accept4\<close> has failed.
\<close>

definition accept_failed :: "string list \<Rightarrow> bool" where
  "accept_failed es \<longleftrightarrow> ''accept4'' \<in> set es \<or> ''epoll_ctl'' \<in> set es"

lemma accept_failed_append [simp]: "accept_failed (es @ es') \<longleftrightarrow> accept_failed es \<or> accept_failed es'"
  by (auto simp: accept_failed_def)

definition listener_inv :: "fd \<Rightarrow> fd set \<Rightarrow> bool \<Rightarrow> kview \<Rightarrow> bool" where
  "listener_inv l P failed v \<longleftrightarrow>
     (\<forall>f. fds v l = Some f \<longrightarrow> is_Listener (obj f) \<longrightarrow>
        failed \<or> interest v l = Some (EPOLLIN OR EPOLLET) \<and> (waiting (obj f) \<longrightarrow> l \<in> edges v \<union> P))"

lemma reactor_inv_registered:
  assumes "reactor_inv l P v" "interest v fd \<noteq> None"
  obtains f where "fds v fd = Some f" "nonblock f"
    "if fd = l then is_Listener (obj f) else is_Client (obj f)"
  using assms unfolding reactor_inv_def by blast

lemma reactor_inv_mask: "reactor_inv l P v \<Longrightarrow> interest v fd = Some ev \<Longrightarrow> ev = mask_of l fd"
  by (simp add: reactor_inv_def)

lemma reactor_inv_client:
  assumes "reactor_inv l P v" "fds v fd = Some f" "is_Client (obj f)"
  shows "fd \<noteq> l" "interest v fd = Some client_events" "nonblock f"
proof -
  show ne: "fd \<noteq> l" using assms by (auto simp: reactor_inv_def)
  have reg: "interest v fd \<noteq> None" using assms by (auto simp: reactor_inv_def)
  then obtain ev where "interest v fd = Some ev" by blast
  with reactor_inv_mask [OF assms(1) this] ne show "interest v fd = Some client_events" by simp
  from reactor_inv_registered [OF assms(1) reg] assms(2) show "nonblock f" by (metis option.inject)
qed

lemma reactor_inv_waiting:
  "reactor_inv l P v \<Longrightarrow> fds v fd = Some f \<Longrightarrow> is_Client (obj f) \<Longrightarrow> waiting (obj f) \<Longrightarrow> fd \<in> edges v \<union> P"
  by (simp add: reactor_inv_def)

lemma reactor_inv_signals:
  assumes "reactor_inv l P v" "fds v fd = Some f" "is_Client (obj f)" "waiting (obj f)"
  shows "events_at v fd \<noteq> 0"
proof -
  obtain c where c: "obj f = Client c" using assms(3) by (auto simp: is_Client_def)
  from reactor_inv_client(2) [OF assms(1-3)] assms(2,4) reportable_client [of c] show ?thesis by (simp add: events_at_def c)
qed

lemma reactor_inv_shut:
  "reactor_inv l (insert fd P) v \<Longrightarrow> fd \<notin> P \<Longrightarrow> reactor_inv l P (shut fd v)"
  by (auto simp: reactor_inv_def view_defs split: if_splits)

lemma reactor_inv_served:
  assumes inv: "reactor_inv l (insert fd P) v" and "fd \<notin> P" "fd \<noteq> l"
    and f: "fds v fd = Some f" "nonblock f" "obj f = Client c" and served: "served fd f v v'"
  shows "reactor_inv l P v'"
proof (cases "v' = shut fd v")
  case True
  with assms show ?thesis by (simp add: reactor_inv_shut)
next
  case False
  then obtain c' where c': "v' = set_file fd (f\<lparr>obj := Client c'\<rparr>) v" "\<not> waiting (Client c')"
    using served by (auto simp: served_def)
  have same: "interest v' = interest v" "edges v' = edges v" by (simp_all add: c'(1) set_file_def)
  have "nonblock (f\<lparr>obj := Client c'\<rparr>)" using f(2) by (simp add: nonblock_def)
  then show ?thesis
    using inv assms(2,3) f c'(2) unfolding reactor_inv_def same unfolding c'(1) fds_set_file
    by (auto split: if_splits)
qed

lemma reactor_inv_listener:
  assumes "reactor_inv l P v" "fds v l = Some f" "obj f = Listener cs" "nonblock f"
  shows "reactor_inv l P (set_file l (f\<lparr>obj := Listener cs'\<rparr>) v)"
  using assms unfolding reactor_inv_def by (auto simp: set_file_def nonblock_def)

lemma reactor_inv_new_client:
  assumes "reactor_inv l P v" "fds v cfd = None" "nonblock g" "obj g = Client c" "cfd \<noteq> l"
  shows "reactor_inv l P (watch cfd client_events (set_file cfd g v))"
proof -
  let ?v = "watch cfd client_events (set_file cfd g v)"
  have e: "edges ?v = (if waiting (Client c) then insert cfd (edges v) else edges v)"
    using reportable_client [of c] assms(4)
    by (subst edges_watch [where f = g]) (auto simp: set_file_def)
  show ?thesis
    using assms unfolding reactor_inv_def e
    by (auto simp: set_file_def simp del: waiting_simps)
qed

lemma reactor_inv_fresh:
  assumes "reactor_inv l P v" "fds v cfd = None"
  shows "interest v cfd = None" "cfd \<notin> edges v" "cfd \<notin> P"
  using assms unfolding reactor_inv_def by (metis domIff option.distinct(1) subsetD)+

lemma shut_new:
  assumes "fds v cfd = None" "interest v cfd = None" "cfd \<notin> edges v"
  shows "shut cfd (set_file cfd g v) = v"
  using assms by (simp add: view_defs fun_upd_idem)

context socket_kernel
begin

lemma handle_new_connection_step:
  assumes inv: "reactor_inv l P (view (kern st))" and f: "fds (view (kern st)) l = Some f" "nonblock f"
    and cs: "obj f = Listener (c # cs)" "accept4 sys l SOCK_NONBLOCK (kern st) = (Inr cfd, k)"
  obtains st' where
    "handle_new_connection sys epfd l st = handle_new_connection sys epfd l st'"
    "reactor_inv l P (view (kern st'))" "fds (view (kern st')) l = Some (f\<lparr>obj := Listener cs\<rparr>)"
    "interest (view (kern st')) l = interest (view (kern st)) l" "\<exists>es. err st' = err st @ es"
proof -
  let ?v = "set_file l (f\<lparr>obj := Listener cs\<rparr>) (view (kern st))"
  from accept_some [OF f(1) cs] obtain fl where fl: "fl AND O_NONBLOCK \<noteq> 0"
    and new: "fds (view (kern st)) cfd = None" "view k = set_file cfd \<lparr>fflags = fl, obj = Client c\<rparr> ?v"
    by (auto simp: SOCK_NONBLOCK_def)
  let ?g = "\<lparr>fflags = fl, obj = Client c\<rparr>"
  have ne: "cfd \<noteq> l" using new f by auto
  have inv': "reactor_inv l P ?v" using reactor_inv_listener [OF inv f(1) cs(1) f(2)] .
  have fresh: "fds ?v cfd = None" using new(1) ne by simp
  have nb: "nonblock ?g" using fl by (simp add: nonblock_def)
  obtain r k' where add_r: "epoll_add sys epfd cfd client_events k = (r, k')" by fastforce
  have fk: "fds (view k) cfd = Some ?g" by (simp add: new(2))
  show thesis
  proof (cases r)
    case (Inl e)
    let ?st = "close_fd sys cfd (perror ''epoll_ctl add client'' (st\<lparr>kern := k'\<rparr>))"
    have "view (kern ?st) = ?v"
      using add [OF fk add_r] Inl shut_new [OF fresh reactor_inv_fresh(1,2) [OF inv' fresh]]
      by (simp add: new(2))
    moreover have "interest ?v = interest (view (kern st))" by (simp add: set_file_def)
    ultimately show thesis
      using inv' add_r Inl cs(2)
      by (intro that [of ?st]) (simp_all add: handle_new_connection.simps [of sys epfd l st])
  next
    case (Inr u)
    let ?st = "st\<lparr>kern := k'\<rparr>"
    have "view (kern ?st) = watch cfd client_events (set_file cfd ?g ?v)"
      using add [OF fk add_r] Inr by (simp add: new(2))
    moreover have "reactor_inv l P (watch cfd client_events (set_file cfd ?g ?v))"
      using reactor_inv_new_client [OF inv' fresh nb _ ne] by simp
    ultimately show thesis
      using ne add_r Inr cs(2)
      by (intro that [of ?st]) (simp_all add: handle_new_connection.simps [of sys epfd l st] set_file_def)
  qed
qed

lemma handle_new_connection_serves:
  assumes "reactor_inv l P (view (kern st))" "fds (view (kern st)) l = Some f" "nonblock f"
    and "obj f = Listener cs" "interest (view (kern st)) l = Some (EPOLLIN OR EPOLLET)"
  shows "\<exists>st'. handle_new_connection sys epfd l st = Some st' \<and> reactor_inv l P (view (kern st')) \<and>
    listener_inv l P (accept_failed (err st')) (view (kern st')) \<and> (\<exists>es. err st' = err st @ es)"
  using assms
proof (induction cs arbitrary: f st)
  case Nil
  obtain r k where r: "accept4 sys l SOCK_NONBLOCK (kern st) = (r, k)" by fastforce
  from accept_none [OF Nil.prems(2,4,3) r] r Nil.prems show ?case
    by (auto simp: handle_new_connection.simps [of sys epfd l st] listener_inv_def)
next
  case (Cons c cs)
  obtain r k where r: "accept4 sys l SOCK_NONBLOCK (kern st) = (r, k)" by fastforce
  show ?case
  proof (cases r)
    case (Inl e)
    with accept_some [OF Cons.prems(2,4) r] r Cons.prems(1) show ?thesis
      by (simp add: handle_new_connection.simps [of sys epfd l st] listener_inv_def accept_failed_def)
  next
    case (Inr cfd)
    with r obtain st' where st': "handle_new_connection sys epfd l st = handle_new_connection sys epfd l st'"
      "reactor_inv l P (view (kern st'))" "fds (view (kern st')) l = Some (f\<lparr>obj := Listener cs\<rparr>)"
      "interest (view (kern st')) l = interest (view (kern st)) l" "\<exists>es. err st' = err st @ es"
      using handle_new_connection_step [OF Cons.prems(1-4)] by metis
    have "nonblock (f\<lparr>obj := Listener cs\<rparr>)" using Cons.prems(3) by (simp add: nonblock_def)
    from Cons.IH [OF st'(2,3) this] st'(1,4,5) Cons.prems(5) show ?thesis by auto
  qed
qed

end

lemma reactor_inv_mono_listener:
  "reactor_inv l (insert l P) v \<Longrightarrow> reactor_inv l P v"
  by (simp add: reactor_inv_def) metis

lemma listener_inv_shut:
  assumes "listener_inv l (insert fd P) failed v" "failed \<Longrightarrow> failed'"
  shows "listener_inv l P failed' (shut fd v)"
  using assms by (cases "fd = l") (auto simp: listener_inv_def shut_def unwatch_def)

lemma listener_inv_served:
  assumes "listener_inv l (insert fd P) failed v" "failed \<Longrightarrow> failed'" "fd \<noteq> l" "served fd f v v'"
  shows "listener_inv l P failed' v'"
proof (cases "v' = shut fd v")
  case True
  with assms show ?thesis by (simp add: listener_inv_shut)
next
  case False
  then obtain c where "v' = set_file fd (f\<lparr>obj := Client c\<rparr>) v" using assms(4) by (auto simp: served_def)
  with assms(1-3) show ?thesis by (auto simp: listener_inv_def set_file_def)
qed

definition no_lost_wakeup :: "('s \<Rightarrow> kview) \<Rightarrow> fd \<Rightarrow> fd set \<Rightarrow> 's reactor \<Rightarrow> bool" where
  "no_lost_wakeup view l P st \<longleftrightarrow> reactor_inv l P (view (kern st)) \<and>
     listener_inv l P (accept_failed (err st)) (view (kern st))"

context socket_kernel
begin

lemma dispatch_keeps:
  assumes inv: "no_lost_wakeup view l (insert (snd ev) P) st" and fresh: "snd ev \<notin> P"
  shows "\<exists>r. dispatch sys epfd l ev st = Some r \<and> (\<forall>st'. r = Inr st' \<longrightarrow> no_lost_wakeup view l P st')"
proof -
  let ?fd = "snd ev"
  have rinv: "reactor_inv l (insert ?fd P) (view (kern st))"
    and linv: "listener_inv l (insert ?fd P) (accept_failed (err st)) (view (kern st))"
    using inv by (simp_all add: no_lost_wakeup_def)
  then have reg: "interest (view (kern st)) ?fd \<noteq> None" by (auto simp: reactor_inv_def)
  with rinv obtain f where f: "fds (view (kern st)) ?fd = Some f" "nonblock f"
    and kind: "if ?fd = l then is_Listener (obj f) else is_Client (obj f)"
    by (rule reactor_inv_registered)
  show ?thesis
  proof (cases "fst ev AND (EPOLLHUP OR EPOLLERR) \<noteq> 0")
    case True
    with reactor_inv_shut [OF rinv fresh] listener_inv_shut [OF linv] show ?thesis
      by (simp add: dispatch_def no_lost_wakeup_def)
  next
    case False
    show ?thesis
    proof (cases "?fd = l")
      case True
      with kind obtain cs where "obj f = Listener cs" by (auto simp: is_Listener_def)
      moreover have "interest (view (kern st)) l = Some (EPOLLIN OR EPOLLET)"
        using reg True reactor_inv_mask [OF rinv] by fastforce
      ultimately show ?thesis using True f rinv handle_new_connection_serves [of l P st f cs epfd] False
        by (auto simp: dispatch_def no_lost_wakeup_def dest: reactor_inv_mono_listener)
    next
      case client: False
      with kind obtain c where c: "obj f = Client c" by (auto simp: is_Client_def)
      obtain r where r: "handle_client_data sys epfd ?fd st = Some r"
        and fin: "\<And>st'. r = Inr st' \<Longrightarrow> served ?fd f (view (kern st)) (view (kern st')) \<and> (\<exists>es. err st' = err st @ es)"
        using handle_client_data_serves [OF f(1) c f(2)] by blast
      have "no_lost_wakeup view l P st'" if "r = Inr st'" for st'
        using fin [OF that] reactor_inv_served [OF rinv fresh client f c]
          listener_inv_served [OF linv _ client, of "accept_failed (err st')" f "view (kern st')"]
        by (auto simp: no_lost_wakeup_def)
      with r False client show ?thesis by (simp add: dispatch_def)
    qed
  qed
qed

lemma dispatch_all_keeps:
  assumes "no_lost_wakeup view l (snd ` set evs) st" "distinct (map snd evs)"
  shows "\<exists>r. dispatch_all sys epfd l evs st = Some r \<and> (\<forall>st'. r = Inr st' \<longrightarrow> no_lost_wakeup view l {} st')"
  using assms
proof (induction evs arbitrary: st)
  case (Cons ev evs)
  obtain r where r: "dispatch sys epfd l ev st = Some r"
    and inv: "\<And>st'. r = Inr st' \<Longrightarrow> no_lost_wakeup view l (snd ` set evs) st'"
    using dispatch_keeps [of l ev "snd ` set evs" st epfd] Cons.prems by auto
  show ?case
  proof (cases r)
    case (Inl e)
    with r show ?thesis by simp
  next
    case (Inr st')
    with r inv Cons.IH [of st'] Cons.prems(2) show ?thesis by simp
  qed
qed simp

lemma wait_keeps:
  assumes inv: "no_lost_wakeup view l {} st" and wr: "epoll_wait sys epfd n (kern st) = (Inr evs, k)"
  shows "no_lost_wakeup view l (snd ` set evs) (st\<lparr>kern := k\<rparr>)" "distinct (map snd evs)"
proof -
  let ?v = "view (kern st)" and ?P = "snd ` set evs"
  note W = wait [OF wr, simplified]
  from W obtain E where E: "E \<subseteq> edges ?v" "view k = ?v\<lparr>edges := E\<rparr>"
    and keep: "\<And>fd. fd \<in> edges ?v \<Longrightarrow> fd \<notin> ?P \<Longrightarrow> events_at ?v fd \<noteq> 0 \<Longrightarrow> fd \<in> E"
    by (metis (no_types, lifting))
  from W have P: "?P \<subseteq> edges ?v" by auto
  have r: "reactor_inv l {} ?v" and li: "listener_inv l {} (accept_failed (err st)) ?v"
    using inv by (simp_all add: no_lost_wakeup_def)
  have "fd \<in> E \<union> ?P" if "fds ?v fd = Some g" "is_Client (obj g)" "waiting (obj g)" for fd g
  proof -
    have "fd \<in> edges ?v" using reactor_inv_waiting [OF r that] by simp
    moreover have "events_at ?v fd \<noteq> 0" by (rule reactor_inv_signals [OF r that])
    ultimately show ?thesis using keep by blast
  qed
  with r E P have "reactor_inv l ?P (view k)" by (auto simp: reactor_inv_def)
  moreover have "listener_inv l ?P (accept_failed (err st)) (view k)"
    unfolding listener_inv_def
  proof (intro allI impI)
    fix f assume f: "fds (view k) l = Some f" "is_Listener (obj f)"
    with E have fv: "fds ?v l = Some f" by simp
    from f(2) obtain cs where cs: "obj f = Listener cs" by (auto simp: is_Listener_def)
    from li fv f(2) consider "accept_failed (err st)"
      | "interest ?v l = Some (EPOLLIN OR EPOLLET)" "waiting (obj f) \<longrightarrow> l \<in> edges ?v"
      unfolding listener_inv_def by auto
    then show "accept_failed (err st) \<or>
        interest (view k) l = Some (EPOLLIN OR EPOLLET) \<and> (waiting (obj f) \<longrightarrow> l \<in> edges (view k) \<union> ?P)"
    proof cases
      case 2
      then have "waiting (obj f) \<Longrightarrow> events_at ?v l \<noteq> 0"
        using fv reportable_listener [of cs] by (simp add: events_at_def cs)
      with 2 keep [of l] E(2) show ?thesis by auto
    qed simp
  qed
  ultimately show "no_lost_wakeup view l ?P (st\<lparr>kern := k\<rparr>)" by (simp add: no_lost_wakeup_def)
  from W show "distinct (map snd evs)" by simp
qed

lemma reactor_iteration_keeps:
  assumes "no_lost_wakeup view l {} st"
  shows "\<exists>r. reactor_iteration sys epfd l st = Some r \<and> (\<forall>st'. r = Inr st' \<longrightarrow> no_lost_wakeup view l {} st')"
proof -
  obtain re k where wr: "epoll_wait sys epfd MAX_EVENTS (kern st) = (re, k)" by fastforce
  show ?thesis
  proof (cases re)
    case (Inl e)
    with wr wait [OF wr] assms show ?thesis by (simp add: reactor_iteration_def no_lost_wakeup_def)
  next
    case (Inr evs)
    with wr dispatch_all_keeps [OF wait_keeps [OF assms, of epfd MAX_EVENTS evs k]] show ?thesis
      by (simp add: reactor_iteration_def)
  qed
qed

end

section \<open>Runs\<close>

text \<open>What the peers do between two system calls; what arrives is an edge as far as the mask asks for it.\<close>

definition arrive :: "fd \<Rightarrow> ofile \<Rightarrow> kview \<Rightarrow> kview" where
  "arrive fd f v = signal fd (set_file fd f v)"

inductive env_step :: "kview \<Rightarrow> kview \<Rightarrow> bool" where
  peer_sends: "fds v fd = Some f \<Longrightarrow> obj f = Client c \<Longrightarrow> \<not> eof c \<Longrightarrow> d \<noteq> [] \<Longrightarrow>
    env_step v (arrive fd (f\<lparr>obj := Client (c\<lparr>rcv := rcv c @ d\<rparr>)\<rparr>) v)"
| peer_closes: "fds v fd = Some f \<Longrightarrow> obj f = Client c \<Longrightarrow>
    env_step v (arrive fd (f\<lparr>obj := Client (c\<lparr>eof := True\<rparr>)\<rparr>) v)"
| peer_resets: "fds v fd = Some f \<Longrightarrow> obj f = Client c \<Longrightarrow>
    env_step v (arrive fd (f\<lparr>obj := Client (c\<lparr>broken := True\<rparr>)\<rparr>) v)"
| peer_reads: "fds v fd = Some f \<Longrightarrow> obj f = Client c \<Longrightarrow>
    env_step v (set_file fd (f\<lparr>obj := Client (c\<lparr>room := room c + n\<rparr>)\<rparr>) v)"
| peer_connects: "fds v fd = Some f \<Longrightarrow> obj f = Listener cs \<Longrightarrow> snt c = [] \<Longrightarrow>
    env_step v (arrive fd (f\<lparr>obj := Listener (cs @ [c])\<rparr>) v)"

lemma reactor_inv_set_client:
  assumes "reactor_inv l P v" "fds v fd = Some f" "obj f = Client c"
    and "waiting (Client c') \<Longrightarrow> waiting (Client c) \<or> fd \<in> E" "edges v \<subseteq> E" "E \<subseteq> insert fd (edges v)"
  shows "reactor_inv l P ((set_file fd (f\<lparr>obj := Client c'\<rparr>) v)\<lparr>edges := E\<rparr>)"
proof -
  have reg: "fd \<noteq> l" "interest v fd \<noteq> None" "nonblock f"
    using reactor_inv_client [OF assms(1,2)] assms(3) by simp_all
  have "fd' \<in> E \<union> P" if "fds (set_file fd (f\<lparr>obj := Client c'\<rparr>) v) fd' = Some g" "is_Client (obj g)" "waiting (obj g)"
    for fd' g
  proof (cases "fd' = fd")
    case True
    with that have "waiting (Client c')" by auto
    with assms(4) reactor_inv_waiting [OF assms(1,2)] assms(3,5) True show ?thesis by fastforce
  next
    case False
    with that reactor_inv_waiting [OF assms(1), of fd' g] assms(5) show ?thesis by auto
  qed
  moreover have "E \<subseteq> dom (interest v)" using assms(1,6) reg by (auto simp: reactor_inv_def)
  ultimately show ?thesis
    using assms(1) reg by (auto simp: reactor_inv_def set_file_def nonblock_def)
qed

lemma reactor_inv_arrive:
  assumes "reactor_inv l P v" "fds v fd = Some f" "obj f = Client c"
  shows "reactor_inv l P (arrive fd (f\<lparr>obj := Client c'\<rparr>) v)"
proof -
  have "interest v fd = Some client_events" using reactor_inv_client [OF assms(1,2)] assms(3) by simp
  then have "events_at (set_file fd (f\<lparr>obj := Client c'\<rparr>) v) fd \<noteq> 0 \<longleftrightarrow> waiting (Client c')"
    using reportable_client [of c'] by (simp add: events_at_def set_file_def)
  then have "arrive fd (f\<lparr>obj := Client c'\<rparr>) v = (set_file fd (f\<lparr>obj := Client c'\<rparr>) v)
      \<lparr>edges := (if waiting (Client c') then insert fd (edges v) else edges v)\<rparr>"
    by (auto simp: arrive_def signal_def set_file_def)
  then show ?thesis using reactor_inv_set_client [OF assms, of c'] by (simp add: subset_insertI del: waiting_simps)
qed

lemma reactor_inv_env:
  assumes "reactor_inv l {} v" "env_step v v'"
  shows "reactor_inv l {} v'"
  using assms(2,1)
proof cases
  case (peer_connects fd f cs c)
  have "\<not> is_Client (obj f)" "nonblock (f\<lparr>obj := x\<rparr>) = nonblock f" for x
    by (simp_all add: peer_connects nonblock_def)
  with assms(1) peer_connects show ?thesis
    by (auto simp: reactor_inv_def arrive_def set_file_def events_at_def split: if_splits option.splits)
next
  case (peer_reads fd f c n)
  have "set_file fd g v = (set_file fd g v)\<lparr>edges := edges v\<rparr>" for g by (simp add: set_file_def)
  then show ?thesis
    using reactor_inv_set_client [OF assms(1) peer_reads(2,3), of "c\<lparr>room := room c + n\<rparr>" "edges v"]
    unfolding peer_reads(1) by (simp add: subset_insertI)
qed (use assms(1) in \<open>simp_all add: reactor_inv_arrive\<close>)

lemma listener_inv_arrive:
  assumes "listener_inv l P failed v" "fds v fd = Some f" "is_Listener (obj g) \<longleftrightarrow> is_Listener (obj f)"
  shows "listener_inv l P failed (arrive fd g v)"
  using assms reportable_listener
  by (auto simp: listener_inv_def arrive_def set_file_def events_at_def is_Listener_def split: if_splits)

lemma listener_inv_env:
  assumes "listener_inv l {} failed v" "env_step v v'"
  shows "listener_inv l {} failed v'"
  using assms(2,1)
proof cases
  case (peer_reads fd f c n)
  with assms(1) show ?thesis by (auto simp: listener_inv_def set_file_def)
qed (use assms(1) in \<open>auto intro: listener_inv_arrive\<close>)

text \<open>
  The event loop of \<open>main\<close>: peers act at any time between iterations.
\<close>

inductive reactor_run :: "'s sys \<Rightarrow> ('s \<Rightarrow> kview) \<Rightarrow> fd \<Rightarrow> fd \<Rightarrow> 's reactor \<Rightarrow> 's reactor \<Rightarrow> bool"
  for sys view epfd listenfd st0 where
  run_start: "reactor_run sys view epfd listenfd st0 st0"
| run_peers: "reactor_run sys view epfd listenfd st0 st \<Longrightarrow> env_step (view (kern st)) (view k) \<Longrightarrow>
    reactor_run sys view epfd listenfd st0 (st\<lparr>kern := k\<rparr>)"
| run_iteration: "reactor_run sys view epfd listenfd st0 st \<Longrightarrow>
    reactor_iteration sys epfd listenfd st = Some (Inr st') \<Longrightarrow>
    reactor_run sys view epfd listenfd st0 st'"

text \<open>At program start no socket is open and nothing is registered.\<close>

definition no_sockets :: "kview \<Rightarrow> bool" where
  "no_sockets v \<longleftrightarrow> interest v = (\<lambda>_. None) \<and> edges v = {} \<and>
     (\<forall>fd f. fds v fd = Some f \<longrightarrow> \<not> is_Client (obj f) \<and> \<not> is_Listener (obj f))"

context socket_kernel
begin

lemma make_nonblocking_ok:
  assumes "fds (view (kern st)) fd = Some f" "make_nonblocking sys fd st = (True, st')"
  shows "\<exists>fl. fl AND O_NONBLOCK \<noteq> 0 \<and> view (kern st') = set_file fd (f\<lparr>fflags := fl\<rparr>) (view (kern st)) \<and>
    err st' = err st"
proof -
  obtain rf k where g: "fcntl_getfl sys fd (kern st) = (rf, k)" by fastforce
  note G = getfl [OF assms(1) g]
  with assms g obtain fl where fl: "rf = Inr fl" by (cases rf) (auto simp: make_nonblocking_def)
  obtain r k' where s: "fcntl_setfl sys fd (fflags f OR O_NONBLOCK) k = (r, k')" by fastforce
  have "(fflags f OR O_NONBLOCK) AND O_NONBLOCK = O_NONBLOCK" by (rule bit_word_eqI) (auto simp: bit_simps)
  then have on: "(fflags f OR O_NONBLOCK) AND O_NONBLOCK \<noteq> 0" by (simp add: O_NONBLOCK_def)
  have "fds (view k) fd = Some f" using G assms(1) by simp
  note S = setfl [OF this s]
  have r: "r = Inr ()" and st': "st' = st\<lparr>kern := k'\<rparr>"
    using assms(2) G g s fl by (auto simp: make_nonblocking_def split: sum.splits)
  from S r obtain fl' where fl': "fl' AND O_NONBLOCK = (fflags f OR O_NONBLOCK) AND O_NONBLOCK"
    "view k' = set_file fd (f\<lparr>fflags := fl'\<rparr>) (view k)" by auto
  show ?thesis
    by (rule exI [of _ fl']) (use fl' G on st' in simp)
qed

lemma create_listen_socket_ok:
  assumes "create_listen_socket sys port st = (Some l, st')"
  shows "fds (view (kern st)) l = None \<and> err st' = err st \<and>
    (\<exists>fl. fl AND O_NONBLOCK \<noteq> 0 \<and>
       view (kern st') = set_file l \<lparr>fflags = fl, obj = Listener []\<rparr> (view (kern st)))"
proof -
  obtain fd k1 where s: "sys_socket sys (kern st) = (Inr fd, k1)"
    using assms by (auto simp: create_listen_socket_def split: prod.splits sum.splits)
  from socket [OF s] obtain fl0 where S: "fds (view (kern st)) fd = None"
    "view k1 = set_file fd \<lparr>fflags = fl0, obj = Unbound\<rparr> (view (kern st))" by auto
  obtain k2 where o: "set_reuseaddr sys fd k1 = (Inr (), k2)"
    using assms s by (auto simp: create_listen_socket_def split: prod.splits sum.splits)
  note O = setsockopt [OF o]
  obtain k3 where b: "sys_bind sys fd port k2 = (Inr (), k3)"
    using assms s o by (auto simp: create_listen_socket_def split: prod.splits sum.splits)
  note B = bind_laws [OF b]
  obtain k4 where li: "sys_listen sys fd k3 = (Inr (), k4)"
    using assms s o b by (auto simp: create_listen_socket_def split: prod.splits sum.splits)
  have v3: "fds (view k3) fd = Some \<lparr>fflags = fl0, obj = Unbound\<rparr>" by (simp add: S O B)
  have v4: "view k4 = set_file fd \<lparr>fflags = fl0, obj = Listener []\<rparr> (view (kern st))"
    using listen [OF v3 li] by (simp add: S O B)
  obtain st1 where mk: "make_nonblocking sys fd (st\<lparr>kern := k4\<rparr>) = (True, st1)" "l = fd" "st' = st1"
    using assms s o b li by (auto simp: create_listen_socket_def split: prod.splits sum.splits if_splits)
  have "fds (view (kern (st\<lparr>kern := k4\<rparr>))) fd = Some \<lparr>fflags = fl0, obj = Listener []\<rparr>" by (simp add: v4)
  from make_nonblocking_ok [OF this mk(1)] mk(2,3) S show ?thesis by (auto simp: v4)
qed

lemma reactor_start_ok:
  assumes "no_sockets (view (kern st0))" "reactor_start sys st0 = (Inr (l, epfd), st)"
  shows "no_lost_wakeup view l {} st"
proof -
  obtain st1 where c: "create_listen_socket sys PORT st0 = (Some l, st1)"
    using assms(2) by (auto simp: reactor_start_def Let_def split: prod.splits sum.splits option.splits)
  from create_listen_socket_ok [OF c] obtain f0 where f0: "f0 AND O_NONBLOCK \<noteq> 0"
    and C: "fds (view (kern st0)) l = None" "err st1 = err st0"
    "view (kern st1) = set_file l \<lparr>fflags = f0, obj = Listener []\<rparr> (view (kern st0))" by auto
  let ?f = "\<lparr>fflags = f0, obj = Listener []\<rparr>"
  obtain k2 where e: "epoll_create1 sys (kern st1) = (Inr epfd, k2)"
    using assms(2) c by (auto simp: reactor_start_def Let_def split: prod.splits sum.splits option.splits)
  from create [OF e] obtain f1 where E: "fds (view (kern st1)) epfd = None"
    "view k2 = set_file epfd \<lparr>fflags = f1, obj = Epoll\<rparr> (view (kern st1))" by auto
  have ne: "epfd \<noteq> l" using E C by auto
  obtain r k3 where a: "epoll_add sys epfd l (EPOLLIN OR EPOLLET) k2 = (r, k3)" by fastforce
  have fl: "fds (view k2) l = Some ?f" using ne C by (simp add: E)
  note A = add [OF fl a]
  have v: "view (kern st) = view k3" and er: "accept_failed (err st) \<or> (\<exists>u. r = Inr u)"
    using assms(2) c e a by (auto simp: reactor_start_def Let_def accept_failed_def split: sum.splits)
  have nb: "nonblock ?f" using f0 by (simp add: nonblock_def)
  show ?thesis
  proof (cases r)
    case (Inl x)
    then have "view (kern st) = set_file epfd \<lparr>fflags = f1, obj = Epoll\<rparr> (set_file l ?f (view (kern st0)))"
      using A C E v by simp
    with assms(1) er Inl show ?thesis
      by (auto simp: no_lost_wakeup_def reactor_inv_def listener_inv_def no_sockets_def set_file_def)
  next
    case (Inr x)
    let ?v = "set_file epfd \<lparr>fflags = f1, obj = Epoll\<rparr> (set_file l ?f (view (kern st0)))"
    have "view (kern st) = watch l (EPOLLIN OR EPOLLET) ?v" using A C E v Inr by simp
    moreover have "watch l (EPOLLIN OR EPOLLET) ?v = ?v\<lparr>interest := (interest ?v)(l \<mapsto> EPOLLIN OR EPOLLET)\<rparr>"
      using ne by (simp add: watch_def signal_def events_at_def set_file_def reportable_def)
    ultimately show ?thesis using assms(1) nb ne
      by (auto simp: no_lost_wakeup_def reactor_inv_def listener_inv_def no_sockets_def set_file_def)
  qed
qed

lemma reactor_run_keeps:
  assumes "reactor_run sys view epfd l st0 st" "no_lost_wakeup view l {} st0"
  shows "no_lost_wakeup view l {} st"
  using assms
proof induction
  case (run_peers st k)
  then show ?case
    by (auto simp: no_lost_wakeup_def intro: reactor_inv_env listener_inv_env)
next
  case (run_iteration st st')
  with reactor_iteration_keeps [of l st epfd] show ?case by simp
qed

end

section \<open>A kernel that meets the contract\<close>

text \<open>
  A descriptor table with lowest-number allocation and a limit on open descriptors, one epoll
  instance, and its ready list.  Files are opened with \<open>O_RDWR\<close>, and \<open>F_SETFL\<close> keeps the access mode.
\<close>

definition O_RDWR :: u32 where "O_RDWR = 0x2"

record kstate =
  table :: "ofile option list"
  kinterest :: "fd \<Rightarrow> u32 option"
  kedges :: "fd list"
  nofile :: nat

definition lk_fds :: "kstate \<Rightarrow> fd \<Rightarrow> ofile option" where
  "lk_fds k fd = (if fd < length (table k) then table k ! fd else None)"

definition lk_view :: "kstate \<Rightarrow> kview" where
  "lk_view k = \<lparr>fds = lk_fds k, interest = kinterest k, edges = set (kedges k)\<rparr>"

fun lowest_free :: "ofile option list \<Rightarrow> nat" where
  "lowest_free (Some _ # xs) = Suc (lowest_free xs)"
| "lowest_free _ = 0"

definition lk_put :: "fd \<Rightarrow> ofile \<Rightarrow> kstate \<Rightarrow> kstate" where
  "lk_put fd f k = k\<lparr>table :=
     (if fd < length (table k) then (table k)[fd := Some f] else table k @ [Some f])\<rparr>"

definition lk_open :: "ofile \<Rightarrow> kstate \<Rightarrow> (errno + fd) \<times> kstate" where
  "lk_open f k = (let fd = lowest_free (table k) in
     if fd < nofile k then (Inr fd, lk_put fd f k) else (Inl (EOther 24), k))"

definition lk_unwatch :: "fd \<Rightarrow> kstate \<Rightarrow> kstate" where
  "lk_unwatch fd k = k\<lparr>kinterest := (kinterest k)(fd := None), kedges := removeAll fd (kedges k)\<rparr>"

definition lk_accept :: "fd \<Rightarrow> u32 \<Rightarrow> kstate \<Rightarrow> (errno + fd) \<times> kstate" where
  "lk_accept fd fl k =
     (case lk_fds k fd of
        Some f \<Rightarrow>
         (case obj f of
            Listener (c # cs) \<Rightarrow>
             (case lk_open \<lparr>fflags = O_RDWR OR (fl AND SOCK_NONBLOCK), obj = Client c\<rparr> k of
                (Inl e, k') \<Rightarrow> (Inl e, k')
              | (Inr cfd, k') \<Rightarrow> (Inr cfd, lk_put fd (f\<lparr>obj := Listener cs\<rparr>) k'))
          | Listener [] \<Rightarrow> (Inl EAGAIN, k)
          | _ \<Rightarrow> (Inl (EOther 22), k))
      | None \<Rightarrow> (Inl (EOther 9), k))"

definition lk_read :: "fd \<Rightarrow> nat \<Rightarrow> kstate \<Rightarrow> (errno + byte list) \<times> kstate" where
  "lk_read fd n k =
     (case lk_fds k fd of
        Some f \<Rightarrow>
         (case obj f of
            Client c \<Rightarrow>
              (if broken c then (Inl (EOther 104), k)
               else if rcv c \<noteq> [] then
                 (Inr (take n (rcv c)), lk_put fd (f\<lparr>obj := Client (c\<lparr>rcv := drop n (rcv c)\<rparr>)\<rparr>) k)
               else if eof c then (Inr [], k) else (Inl EAGAIN, k))
          | _ \<Rightarrow> (Inl (EOther 22), k))
      | None \<Rightarrow> (Inl (EOther 9), k))"

definition lk_write :: "fd \<Rightarrow> byte list \<Rightarrow> kstate \<Rightarrow> (errno + nat) \<times> kstate" where
  "lk_write fd bs k =
     (case lk_fds k fd of
        Some f \<Rightarrow>
         (case obj f of
            Client c \<Rightarrow>
              (if room c = 0 then (Inl EAGAIN, k)
               else let n = min (room c) (length bs) in
                 (Inr n, lk_put fd (f\<lparr>obj := Client (c\<lparr>snt := snt c @ take n bs, room := room c - n\<rparr>)\<rparr>) k))
          | _ \<Rightarrow> (Inl (EOther 22), k))
      | None \<Rightarrow> (Inl (EOther 9), k))"

definition lk_update :: "fd \<Rightarrow> (ofile \<Rightarrow> ofile) \<Rightarrow> kstate \<Rightarrow> (errno + unit) \<times> kstate" where
  "lk_update fd u k =
     (case lk_fds k fd of Some f \<Rightarrow> (Inr (), lk_put fd (u f) k) | None \<Rightarrow> (Inl (EOther 9), k))"

definition lk_events :: "kstate \<Rightarrow> fd \<Rightarrow> u32" where
  "lk_events k fd =
     (case kinterest k fd of
        None \<Rightarrow> 0
      | Some ev \<Rightarrow> (case lk_fds k fd of None \<Rightarrow> 0 | Some f \<Rightarrow> reportable ev (obj f)))"

definition lk_level :: "kstate \<Rightarrow> fd \<Rightarrow> bool" where
  "lk_level k fd \<longleftrightarrow> (case kinterest k fd of None \<Rightarrow> True | Some ev \<Rightarrow> ev AND EPOLLET = 0)"

definition lk_add :: "fd \<Rightarrow> u32 \<Rightarrow> kstate \<Rightarrow> (errno + unit) \<times> kstate" where
  "lk_add fd ev k =
     (let k' = k\<lparr>kinterest := (kinterest k)(fd := Some ev)\<rparr>
      in (Inr (), if lk_events k' fd = 0 then k' else k'\<lparr>kedges := kedges k @ [fd]\<rparr>))"

definition lk_wait :: "nat \<Rightarrow> kstate \<Rightarrow> (errno + (u32 \<times> fd) list) \<times> kstate" where
  "lk_wait n k =
     (let live = filter (\<lambda>fd. lk_events k fd \<noteq> 0) (remdups (kedges k)); got = take n live
      in (Inr (map (\<lambda>fd. (lk_events k fd, fd)) got),
          k\<lparr>kedges := filter (\<lambda>fd. fd \<in> set got \<longrightarrow> lk_level k fd) live\<rparr>))"

definition linux :: "kstate sys" where
  "linux = \<lparr>
     fcntl_getfl = (\<lambda>fd k. (case lk_fds k fd of Some f \<Rightarrow> Inr (fflags f) | None \<Rightarrow> Inl (EOther 9), k)),
     fcntl_setfl = (\<lambda>fd fl. lk_update fd (\<lambda>f. f\<lparr>fflags := (fl AND O_NONBLOCK) OR (fflags f AND NOT O_NONBLOCK)\<rparr>)),
     sys_socket = lk_open \<lparr>fflags = O_RDWR, obj = Unbound\<rparr>,
     set_reuseaddr = (\<lambda>fd k. (Inr (), k)),
     sys_bind = (\<lambda>fd port k. (Inr (), k)),
     sys_listen = (\<lambda>fd. lk_update fd (\<lambda>f. f\<lparr>obj := Listener []\<rparr>)),
     accept4 = lk_accept,
     epoll_create1 = lk_open \<lparr>fflags = O_RDWR, obj = Epoll\<rparr>,
     epoll_add = (\<lambda>epfd. lk_add),
     epoll_del = (\<lambda>epfd fd k. (Inr (), lk_unwatch fd k)),
     epoll_wait = (\<lambda>epfd. lk_wait),
     sys_read = lk_read,
     sys_write = lk_write,
     sys_close = (\<lambda>fd k. (Inr (), lk_unwatch fd (k\<lparr>table := (table k)[fd := None]\<rparr>)))\<rparr>"

lemma fds_lk_view [simp]: "fds (lk_view k) = lk_fds k"
  by (simp add: lk_view_def)

lemma lowest_free_le: "lowest_free t \<le> length t"
  by (induction t rule: lowest_free.induct) auto

lemma lk_fds_lowest: "lk_fds k (lowest_free (table k)) = None"
proof -
  have "i = lowest_free t \<Longrightarrow> i < length t \<Longrightarrow> t ! i = None" for i and t :: "ofile option list"
    by (induction t arbitrary: i rule: lowest_free.induct) auto
  then show ?thesis by (simp add: lk_fds_def)
qed

lemma lk_view_put:
  assumes "lk_fds k fd \<noteq> None \<or> fd = lowest_free (table k)"
  shows "lk_view (lk_put fd f k) = set_file fd f (lk_view k)"
proof -
  have "fd \<le> length (table k)"
    using assms lowest_free_le [of "table k"] by (auto simp: lk_fds_def split: if_splits)
  then show ?thesis
    by (auto simp: lk_view_def lk_put_def set_file_def lk_fds_def fun_eq_iff nth_append)
qed

lemma lk_view_open:
  assumes "lk_open f k = (r, k')"
  shows "case r of Inl e \<Rightarrow> lk_view k' = lk_view k \<and> e = EOther 24
    | Inr fd \<Rightarrow> fds (lk_view k) fd = None \<and> lk_view k' = set_file fd f (lk_view k) \<and> fd = lowest_free (table k)"
  using assms lk_view_put [of k "lowest_free (table k)" f] lk_fds_lowest [of k]
  by (auto simp: lk_open_def Let_def lk_view_def split: if_splits)

lemma lk_view_unwatch: "lk_view (lk_unwatch fd k) = unwatch fd (lk_view k)"
  by (auto simp: lk_view_def lk_unwatch_def unwatch_def lk_fds_def fun_eq_iff)

lemma lk_view_update:
  assumes "lk_fds k fd = Some f" "lk_update fd u k = (r, k')"
  shows "lk_view k' = (case r of Inl _ \<Rightarrow> lk_view k | Inr _ \<Rightarrow> set_file fd (u f) (lk_view k))"
  using assms lk_view_put [of k fd "u f"] by (auto simp: lk_update_def)

lemma lk_accept_some:
  assumes "lk_fds k fd = Some f" "obj f = Listener (c # cs)" "lk_accept fd fl k = (r, k')"
  shows "case r of Inl e \<Rightarrow> \<not> would_block e \<and> lk_view k' = lk_view k
     | Inr cfd \<Rightarrow> lk_fds k cfd = None \<and>
         lk_view k' = set_file cfd \<lparr>fflags = O_RDWR OR (fl AND SOCK_NONBLOCK), obj = Client c\<rparr>
           (set_file fd (f\<lparr>obj := Listener cs\<rparr>) (lk_view k))"
proof -
  let ?g = "\<lparr>fflags = O_RDWR OR (fl AND SOCK_NONBLOCK), obj = Client c\<rparr>"
  obtain r1 k1 where o: "lk_open ?g k = (r1, k1)" by fastforce
  note V = lk_view_open [OF o]
  show ?thesis
  proof (cases r1)
    case (Inl e)
    with V o assms show ?thesis by (auto simp: lk_accept_def would_block_def)
  next
    case (Inr cfd)
    have ne: "cfd \<noteq> fd" using V Inr assms(1) by auto
    have "fds (lk_view k1) fd = fds (set_file cfd ?g (lk_view k)) fd"
      using V Inr by (simp del: fds_lk_view)
    then have "lk_fds k1 fd = Some f" using ne assms(1) by simp
    then have "lk_view (lk_put fd (f\<lparr>obj := Listener cs\<rparr>) k1) = set_file fd (f\<lparr>obj := Listener cs\<rparr>) (lk_view k1)"
      by (simp add: lk_view_put)
    with V Inr o assms ne show ?thesis
      by (auto simp: lk_accept_def set_file_def fun_upd_twist)
  qed
qed

lemma interest_lk_view [simp]: "interest (lk_view k) = kinterest k" "edges (lk_view k) = set (kedges k)"
  by (simp_all add: lk_view_def)

lemma events_at_lk_view [simp]: "events_at (lk_view k) fd = lk_events k fd"
  by (simp add: events_at_def lk_events_def split: option.split)

lemma lk_view_add: "lk_add fd ev k = (r, k') \<Longrightarrow> r = Inr () \<and> lk_view k' = watch fd ev (lk_view k)"
proof -
  let ?k = "k\<lparr>kinterest := (kinterest k)(fd := Some ev)\<rparr>"
  have "lk_view ?k = (lk_view k)\<lparr>interest := (interest (lk_view k))(fd := Some ev)\<rparr>"
    by (simp add: lk_view_def lk_fds_def fun_eq_iff)
  then have "watch fd ev (lk_view k) = signal fd (lk_view ?k)" by (simp add: watch_def)
  moreover assume "lk_add fd ev k = (r, k')"
  ultimately show ?thesis
    by (auto simp: lk_add_def Let_def signal_def) (simp add: lk_view_def lk_fds_def fun_eq_iff)
qed

lemma lk_edge_triggered: "\<not> edge_triggered (lk_view k) fd \<longleftrightarrow> lk_level k fd"
  by (simp add: edge_triggered_def lk_level_def split: option.split)

lemma lk_view_wait:
  assumes "lk_wait n k = (re, k')"
  obtains evs E where "re = Inr evs" "distinct (map snd evs)" "length evs \<le> n"
    "\<forall>(e, fd) \<in> set evs. fd \<in> set (kedges k) \<and> e = lk_events k fd \<and> e \<noteq> 0"
    "E \<subseteq> set (kedges k)" "lk_view k' = (lk_view k)\<lparr>edges := E\<rparr>"
    "\<forall>fd \<in> set (kedges k). if fd \<in> snd ` set evs then fd \<in> E \<longleftrightarrow> \<not> edge_triggered (lk_view k) fd
       else lk_events k fd \<noteq> 0 \<longrightarrow> fd \<in> E"
proof -
  define live where "live = filter (\<lambda>fd. lk_events k fd \<noteq> 0) (remdups (kedges k))"
  define got where "got = take n live"
  define evs where "evs = map (\<lambda>fd. (lk_events k fd, fd)) got"
  define E where "E = set (filter (\<lambda>fd. fd \<in> set got \<longrightarrow> lk_level k fd) live)"
  have w: "re = Inr evs" "k' = k\<lparr>kedges := filter (\<lambda>fd. fd \<in> set got \<longrightarrow> lk_level k fd) live\<rparr>"
    using assms by (simp_all add: lk_wait_def live_def got_def evs_def Let_def)
  have sub: "set got \<subseteq> set live" by (simp add: got_def set_take_subset)
  have live: "set live = {fd \<in> set (kedges k). lk_events k fd \<noteq> 0}" "distinct live" by (auto simp: live_def)
  have got: "distinct got" "length got \<le> n" using live(2) by (simp_all add: got_def)
  have snd: "map snd evs = got" "snd ` set evs = set got" by (auto simp: evs_def comp_def image_image)
  show thesis
  proof (rule that [of evs E])
    show "distinct (map snd evs)" using got by (simp add: snd)
    show "length evs \<le> n" using got by (simp add: evs_def)
    show "\<forall>(e, fd) \<in> set evs. fd \<in> set (kedges k) \<and> e = lk_events k fd \<and> e \<noteq> 0"
      using sub live by (auto simp: evs_def)
    show "lk_view k' = (lk_view k)\<lparr>edges := E\<rparr>"
      by (simp add: w(2) E_def lk_view_def lk_fds_def fun_eq_iff)
    show "\<forall>fd \<in> set (kedges k). if fd \<in> snd ` set evs then fd \<in> E \<longleftrightarrow> \<not> edge_triggered (lk_view k) fd
       else lk_events k fd \<noteq> 0 \<longrightarrow> fd \<in> E"
      using sub live unfolding snd lk_edge_triggered by (auto simp: E_def)
  qed (use w live E_def in auto)
qed

lemma setfl_flags: "((fl AND O_NONBLOCK) OR (g AND NOT O_NONBLOCK)) AND O_NONBLOCK = fl AND O_NONBLOCK"
  by (rule bit_word_eqI) (auto simp: bit_simps)

lemma accept_flags: "(O_RDWR OR (fl AND SOCK_NONBLOCK)) AND O_NONBLOCK = fl AND SOCK_NONBLOCK"
proof -
  have "O_RDWR AND O_NONBLOCK = 0" "SOCK_NONBLOCK = O_NONBLOCK"
    by (simp_all add: O_RDWR_def O_NONBLOCK_def SOCK_NONBLOCK_def)
  then show ?thesis by (simp add: and.assoc bit.conj_disj_distrib2)
qed

interpretation linux: socket_kernel linux lk_view
  apply unfold_locales
  subgoal by (drule lk_view_open [OF trans [rotated]]) (auto simp: linux_def split: sum.splits)
  subgoal by (simp add: linux_def)
  subgoal by (simp add: linux_def)
  subgoal for k fd f r1 k' using lk_view_update [of k fd f] by (simp add: linux_def)
  subgoal by (auto simp: linux_def)
  subgoal for k fd f fl r1 k'
    using lk_view_update [of k fd f] setfl_flags by (fastforce simp: linux_def split: sum.splits)
  subgoal by (drule lk_view_open [OF trans [rotated]]) (auto simp: linux_def split: sum.splits)
  subgoal for k fd f epfd ev r1 k' using lk_view_add [of fd ev k r1 k'] by (simp add: linux_def)
  subgoal by (auto simp: linux_def lk_view_unwatch)
  subgoal by (auto simp: linux_def lk_view_unwatch shut_def unwatch_def lk_view_def lk_fds_def fun_eq_iff lk_unwatch_def)
  subgoal for epfd n k re k'
    unfolding events_at_lk_view interest_lk_view
    by (simp only: linux_def sys.simps, elim lk_view_wait) (simp only: sum.case, blast)
  subgoal for k fd f c cs fl r k'
    using lk_accept_some [of k fd f c cs fl r k'] accept_flags [of fl]
    by (auto simp: linux_def split: sum.splits intro!: exI [of _ "O_RDWR OR (fl AND SOCK_NONBLOCK)"])
  subgoal by (auto simp: linux_def lk_accept_def would_block_def)
  subgoal for k fd f c n rb k'
    by (rule exI [of _ n]) (auto simp: linux_def lk_read_def lk_view_put)
  subgoal by (auto simp: linux_def lk_read_def would_block_def split: if_splits)
  subgoal by (auto simp: linux_def lk_read_def would_block_def)
  subgoal by (auto simp: linux_def lk_write_def Let_def lk_view_put split: if_splits)
  done

section \<open>Correctness of the server\<close>

definition boot_state :: "kstate reactor" where
  "boot_state = \<lparr>kern = \<lparr>table = [], kinterest = (\<lambda>_. None), kedges = [], nofile = 1024\<rparr>,
     out = [], err = [], rbuf = replicate BUF_SIZE 0\<rparr>"

definition listening_state :: "kstate reactor" where
  "listening_state = snd (reactor_start linux boot_state)"

lemma boot_starts: "reactor_start linux boot_state = (Inr (0, 1), listening_state)"
  by (simp add: listening_state_def reactor_start_def create_listen_socket_def make_nonblocking_def
      boot_state_def linux_def lk_open_def lk_put_def lk_update_def lk_add_def lk_events_def reportable_def
      lk_fds_def Let_def)

lemma boot_no_sockets: "no_sockets (lk_view (kern boot_state))"
  by (simp add: no_sockets_def boot_state_def lk_view_def lk_fds_def)

text \<open>
  C2: The event loop loses no wake-up and no descriptor.  Whatever the peers do between iterations,
  in every state the server reaches: every open client socket is registered with epoll for
  \<open>EPOLLIN | EPOLLET | EPOLLRDHUP\<close> and every registered descriptor is open; if bytes, an end of file or an
  error wait on a client, an event is pending for it in a kernel that raises events only as the
  registered masks ask for; the same holds for connections waiting on the listener, registered for
  \<open>EPOLLIN | EPOLLET\<close>, unless \<open>accept4\<close> or the listener's registration has reported an error; and the next
  iteration of the loop finishes.
\<close>

theorem reactor_no_lost_wakeup:
  assumes "socket_kernel sys view" "no_sockets (view (kern st0))"
    and "reactor_start sys st0 = (Inr (listenfd, epfd), st1)"
    and "reactor_run sys view epfd listenfd st1 st"
  shows "(\<forall>fd f c. fds (view (kern st)) fd = Some f \<longrightarrow> obj f = Client c \<longrightarrow>
           interest (view (kern st)) fd = Some (EPOLLIN OR EPOLLET OR EPOLLRDHUP) \<and>
           (rcv c \<noteq> [] \<or> eof c \<or> broken c \<longrightarrow> fd \<in> edges (view (kern st)))) \<and>
    (\<forall>fd. interest (view (kern st)) fd \<noteq> None \<longrightarrow> fds (view (kern st)) fd \<noteq> None) \<and>
    (\<forall>f cs. fds (view (kern st)) listenfd = Some f \<longrightarrow> obj f = Listener cs \<longrightarrow>
       ''accept4'' \<in> set (err st) \<or> ''epoll_ctl'' \<in> set (err st) \<or>
       interest (view (kern st)) listenfd = Some (EPOLLIN OR EPOLLET) \<and>
       (cs \<noteq> [] \<longrightarrow> listenfd \<in> edges (view (kern st)))) \<and>
    (\<exists>r. reactor_iteration sys epfd listenfd st = Some r)"
proof -
  let ?v = "view (kern st)"
  have inv: "no_lost_wakeup view listenfd {} st"
    using socket_kernel.reactor_run_keeps [OF assms(1,4)]
      socket_kernel.reactor_start_ok [OF assms(1-3)] by blast
  then have r: "reactor_inv listenfd {} ?v" and l: "listener_inv listenfd {} (accept_failed (err st)) ?v"
    by (simp_all add: no_lost_wakeup_def)
  have "interest ?v fd = Some (EPOLLIN OR EPOLLET OR EPOLLRDHUP) \<and>
      (rcv c \<noteq> [] \<or> eof c \<or> broken c \<longrightarrow> fd \<in> edges ?v)"
    if "fds ?v fd = Some f" "obj f = Client c" for fd f c
    using reactor_inv_client(2) [OF r that(1)] reactor_inv_waiting [OF r that(1)] that(2)
    by (simp add: client_events_def)
  moreover have "fds ?v fd \<noteq> None" if "interest ?v fd \<noteq> None" for fd
    using r that by (rule reactor_inv_registered) simp
  moreover have "accept_failed (err st) \<or>
      interest ?v listenfd = Some (EPOLLIN OR EPOLLET) \<and> (cs \<noteq> [] \<longrightarrow> listenfd \<in> edges ?v)"
    if "fds ?v listenfd = Some f" "obj f = Listener cs" for f cs
    using l that by (auto simp: listener_inv_def)
  moreover note socket_kernel.reactor_iteration_keeps [OF assms(1) inv]
  ultimately show ?thesis unfolding accept_failed_def by blast
qed

text \<open>A client that has sent \<open>hi\<close> connects to the freshly started server.\<close>

definition greeting :: conn where
  "greeting = \<lparr>rcv = [104, 105], eof = False, broken = False, room = 100, snt = []\<rparr>"

definition listen_flags :: u32 where
  "listen_flags = 0x802"

definition knock_state :: "kstate reactor" where
  "knock_state = listening_state\<lparr>kern := (kern listening_state)\<lparr>
     table := [Some \<lparr>fflags = listen_flags, obj = Listener [greeting]\<rparr>, Some \<lparr>fflags = O_RDWR, obj = Epoll\<rparr>],
     kedges := [0]\<rparr>\<rparr>"

lemma knock_reached: "reactor_run linux lk_view 1 0 listening_state knock_state"
proof -
  let ?v = "lk_view (kern listening_state)"
  let ?f = "\<lparr>fflags = listen_flags, obj = Listener []\<rparr>"
  have k: "kern listening_state = \<lparr>table = [Some ?f, Some \<lparr>fflags = O_RDWR, obj = Epoll\<rparr>],
      kinterest = [0 \<mapsto> EPOLLIN OR EPOLLET], kedges = [], nofile = 1024\<rparr>"
    by (simp add: listening_state_def reactor_start_def create_listen_socket_def make_nonblocking_def
      boot_state_def linux_def lk_open_def lk_put_def lk_update_def lk_add_def lk_events_def reportable_def
      lk_fds_def Let_def listen_flags_def O_RDWR_def O_NONBLOCK_def)
  have "lk_view (kern knock_state) = arrive 0 (?f\<lparr>obj := Listener ([] @ [greeting])\<rparr>) ?v"
    using reportable_listener [of "[greeting]"]
    by (simp add: knock_state_def k lk_view_def arrive_def signal_def events_at_def set_file_def lk_fds_def
        fun_eq_iff nth_Cons' split: if_splits)
  moreover have "fds ?v 0 = Some ?f" by (simp add: k lk_fds_def)
  ultimately have "env_step ?v (lk_view (kern knock_state))"
    by (metis env_step.peer_connects greeting_def conn.select_convs(5) ofile.select_convs(2))
  from run_peers [OF run_start this] show ?thesis by (simp add: knock_state_def)
qed

theorem reactor_no_lost_wakeup_witness:
  "kinterest (kern knock_state) 0 = Some (EPOLLIN OR EPOLLET) \<and> 0 \<in> edges (lk_view (kern knock_state)) \<and>
   (\<exists>r. reactor_iteration linux 1 0 knock_state = Some r)"
proof -
  have "err knock_state = []"
    by (simp add: knock_state_def listening_state_def reactor_start_def create_listen_socket_def
      make_nonblocking_def boot_state_def linux_def lk_open_def lk_put_def lk_update_def lk_add_def
      lk_fds_def Let_def)
  moreover have "fds (lk_view (kern knock_state)) 0 = Some \<lparr>fflags = listen_flags, obj = Listener [greeting]\<rparr>"
    by (simp add: knock_state_def lk_fds_def)
  ultimately show ?thesis
    using reactor_no_lost_wakeup [OF linux.socket_kernel_axioms boot_no_sockets boot_starts knock_reached]
    by simp
qed

text \<open>
  C9: The echo, exactly.  For any kernel that keeps the contract, however it cuts the input into reads,
  for any amount of waiting bytes \<open>d\<close> on a connection that has not been reset, any room \<open>r\<close> in the send
  buffer and any contents of \<open>buf\<close>, the handler returns, and one of three things has happened.
  (1) The first \<open>min r |d|\<close> bytes of \<open>d\<close>, in order, have been sent and none is left to read; the
  connection is closed if the peer has closed its side and stays open otherwise.
  (2) There were more bytes than room; as many as there was room for have been sent and a further \<open>write\<close>
  has failed, so the handler has reported it and closed the connection.
  (3) \<open>printf\<close> has read past \<open>buf\<close>, which cannot happen when \<open>d\<close> is shorter than \<open>buf\<close> and the last byte of
  \<open>buf\<close> is NUL.  When \<open>d\<close> fits the send buffer, (2) is impossible and (1) says that all of it is echoed.
\<close>

theorem reactor_echo:
  assumes "socket_kernel sys view" "fds (view (kern st)) fd = Some f" "obj f = Client c" "nonblock f"
    and "\<not> broken c"
  shows "(\<exists>st1 n. view (kern st1) = set_file fd (f\<lparr>obj := Client (c\<lparr>rcv := drop n (rcv c),
         snt := snt c @ take (room c) (rcv c), room := room c - length (rcv c)\<rparr>)\<rparr>) (view (kern st)) \<and>
      (drop n (rcv c) = [] \<and> err st1 = err st \<and>
         handle_client_data sys epfd fd st = Some (Inr (if eof c then drop_client sys epfd fd st1 else st1)) \<or>
       room c < length (rcv c) \<and> err st1 = err st @ [''write''] \<and>
         handle_client_data sys epfd fd st = Some (Inr (drop_client sys epfd fd st1)))) \<or>
    handle_client_data sys epfd fd st = Some (Inl OutOfBounds) \<and>
      \<not> (length (rcv c) < BUF_SIZE \<and> length (rbuf st) = BUF_SIZE \<and> rbuf st ! (BUF_SIZE - 1) = 0)"
  using socket_kernel.handle_client_data_outcome [OF assms, of epfd] unfolding printable_def by blast

definition greeted :: "conn \<Rightarrow> byte list \<Rightarrow> kstate reactor" where
  "greeted c b = \<lparr>kern = \<lparr>table = [Some \<lparr>fflags = O_NONBLOCK, obj = Client c\<rparr>],
     kinterest = [0 \<mapsto> client_events], kedges = [], nofile = 1024\<rparr>, out = [], err = [], rbuf = b\<rparr>"

theorem reactor_echo_witness:
  "\<exists>st'. handle_client_data linux 1 0 (greeted greeting (replicate BUF_SIZE 0)) = Some (Inr st') \<and>
    fds (lk_view (kern st')) 0 = Some \<lparr>fflags = O_NONBLOCK,
      obj = Client (greeting\<lparr>rcv := [], snt := [104, 105], room := 98\<rparr>)\<rparr> \<and> err st' = []"
proof -
  let ?st = "greeted greeting (replicate BUF_SIZE 0)" and ?f = "\<lparr>fflags = O_NONBLOCK, obj = Client greeting\<rparr>"
  let ?f' = "\<lparr>fflags = O_NONBLOCK, obj = Client (greeting\<lparr>rcv := [], snt := [104, 105], room := 98\<rparr>)\<rparr>"
  have "fds (lk_view (kern ?st)) 0 = Some ?f" by (simp add: greeted_def lk_fds_def)
  moreover have "nonblock ?f" "\<not> broken greeting" "\<not> eof greeting" "rcv greeting = [104, 105]" "room greeting = 100"
    "snt greeting = []" by (simp_all add: nonblock_def O_NONBLOCK_def greeting_def)
  moreover have "length (rbuf ?st) = BUF_SIZE" "rbuf ?st ! (BUF_SIZE - 1) = 0" "err ?st = []" "2 < BUF_SIZE"
    by (simp_all add: greeted_def BUF_SIZE_def)
  ultimately obtain st1 n where v: "lk_view (kern st1) = set_file 0 (?f\<lparr>obj := Client (greeting\<lparr>rcv := drop n [104, 105],
      snt := [104, 105], room := 98\<rparr>)\<rparr>) (lk_view (kern ?st))" "drop n [104, 105 :: byte] = []" "err st1 = []"
    "handle_client_data linux 1 0 ?st = Some (Inr st1)"
    using reactor_echo [OF linux.socket_kernel_axioms, of ?st 0 ?f greeting 1] by auto
  have "fds (lk_view (kern st1)) 0 = Some ?f'" unfolding v(1,2) by simp
  with v(3,4) show ?thesis by blast
qed

lemma until_nul_read:
  assumes "length d < BUF_SIZE" "length b = BUF_SIZE" "b ! (BUF_SIZE - 1) = 0"
  shows "\<exists>s. until_nul (d @ drop (length d) b) = Inr s"
proof -
  have "(d @ drop (length d) b) ! (BUF_SIZE - 1) = 0" "BUF_SIZE - 1 < length (d @ drop (length d) b)"
    using assms by (simp_all add: nth_append BUF_SIZE_def)
  then show ?thesis by (metis nth_mem until_nul_total)
qed

text \<open>
  C36: Short writes lose data.  When the send buffer has room for a part of what was read, \<open>write\<close>
  accepts that part and the handler, which only tests the result for being negative, drops the rest:
  it ends with nothing left to read, the connection open and only a prefix sent.
\<close>

theorem reactor_short_write_loses_data:
  assumes f: "lk_fds (kern st) fd = Some f" "obj f = Client c" "nonblock f" "\<not> broken c" "\<not> eof c"
    and len: "0 < room c" "room c < length (rcv c)" "length (rcv c) < BUF_SIZE"
    and buf: "length (rbuf st) = BUF_SIZE" "rbuf st ! (BUF_SIZE - 1) = 0"
  shows "\<exists>st'. handle_client_data linux epfd fd st = Some (Inr st') \<and>
    lk_fds (kern st') fd =
      Some (f\<lparr>obj := Client (c\<lparr>rcv := [], snt := snt c @ take (room c) (rcv c), room := 0\<rparr>)\<rparr>)"
proof -
  let ?c1 = "c\<lparr>rcv := []\<rparr>" and ?c2 = "c\<lparr>rcv := [], snt := snt c @ take (room c) (rcv c), room := 0\<rparr>"
  let ?b = "rcv c @ drop (length (rcv c)) (rbuf st)"
  obtain s where s: "until_nul ?b = Inr s" using until_nul_read [OF len(3) buf] by blast
  have put: "lk_fds (lk_put fd g k) fd = Some g" if "lk_fds k fd \<noteq> None" for g k
    using that by (auto simp: lk_fds_def lk_put_def split: if_splits)
  define k1 where "k1 = lk_put fd (f\<lparr>obj := Client ?c1\<rparr>) (kern st)"
  define k2 where "k2 = lk_put fd (f\<lparr>obj := Client ?c2\<rparr>) k1"
  have f1: "lk_fds k1 fd = Some (f\<lparr>obj := Client ?c1\<rparr>)" by (simp add: k1_def put f(1))
  have f2: "lk_fds k2 fd = Some (f\<lparr>obj := Client ?c2\<rparr>)" by (simp add: k2_def put f1)
  have rd: "sys_read linux fd BUF_SIZE (kern st) = (Inr (rcv c), k1)"
    using f len by (auto simp: linux_def lk_read_def k1_def)
  have wr: "sys_write linux fd (rcv c) k1 = (Inr (room c), k2)"
    using f1 len by (simp add: linux_def lk_write_def k2_def Let_def min_def)
  let ?st = "st\<lparr>kern := k2, out := out st @ [''Recv: '' @ text_of s], rbuf := ?b\<rparr>"
  have ne: "rcv c \<noteq> []" using len(2) by auto
  have step: "handle_client_data linux epfd fd st = handle_client_data linux epfd fd ?st"
    using ne s by (subst handle_client_data.simps) (simp add: rd wr Let_def)
  have "nonblock (f\<lparr>obj := Client ?c2\<rparr>)" using f(3) by (simp add: nonblock_def)
  moreover have "fds (lk_view (kern ?st)) fd = Some (f\<lparr>obj := Client ?c2\<rparr>)" by (simp add: f2)
  ultimately obtain st' where "handle_client_data linux epfd fd ?st = Some (Inr st')"
    "lk_view (kern st') = lk_view k2"
    using linux.handle_client_data_idle [of ?st fd _ ?c2 epfd] f(4,5) by auto
  then show ?thesis using step f2 by (metis fds_lk_view)
qed

theorem reactor_short_write_loses_data_witness:
  "\<exists>st'. handle_client_data linux 1 0 (greeted (greeting\<lparr>room := 1\<rparr>) (replicate BUF_SIZE 0)) = Some (Inr st') \<and>
    lk_fds (kern st') 0 = Some \<lparr>fflags = O_NONBLOCK,
      obj = Client (greeting\<lparr>rcv := [], snt := [104], room := 0\<rparr>)\<rparr>"
proof -
  have "lk_fds (kern (greeted (greeting\<lparr>room := 1\<rparr>) (replicate BUF_SIZE 0))) 0 =
      Some \<lparr>fflags = O_NONBLOCK, obj = Client (greeting\<lparr>room := 1\<rparr>)\<rparr>"
    by (simp add: greeted_def lk_fds_def)
  from reactor_short_write_loses_data [OF this, of "greeting\<lparr>room := 1\<rparr>" 1] show ?thesis
    by (auto simp: nonblock_def O_NONBLOCK_def greeting_def greeted_def BUF_SIZE_def)
qed

text \<open>
  A full read is printed past the end of \<open>buf\<close>: \<open>printf("%s")\<close> needs a terminating NUL, and
  when \<open>read\<close> fills all \<open>BUF_SIZE\<close> bytes with none among them, the handler reads outside the array.
\<close>

theorem reactor_prints_past_buffer:
  assumes f: "lk_fds (kern st) fd = Some f" "obj f = Client c" "\<not> broken c"
    and len: "BUF_SIZE \<le> length (rcv c)" "0 \<notin> set (take BUF_SIZE (rcv c))"
    and buf: "length (rbuf st) = BUF_SIZE"
  shows "handle_client_data linux epfd fd st = Some (Inl OutOfBounds)"
proof -
  let ?d = "take BUF_SIZE (rcv c)"
  have ne: "rcv c \<noteq> []" using len(1) by (auto simp: BUF_SIZE_def)
  then have rd: "\<exists>k. sys_read linux fd BUF_SIZE (kern st) = (Inr ?d, k)"
    using f by (auto simp: linux_def lk_read_def)
  have "0 \<notin> set (?d @ drop (length ?d) (rbuf st))" using len buf by simp
  moreover have "until_nul x = Inl OutOfBounds" if "0 \<notin> set x" for x
    using that by (induction x) auto
  ultimately have "until_nul (?d @ drop (length ?d) (rbuf st)) = Inl OutOfBounds" by blast
  moreover have "?d \<noteq> []" using ne by (simp add: BUF_SIZE_def)
  ultimately show ?thesis
    using rd by (subst handle_client_data.simps) (auto simp: Let_def)
qed

theorem reactor_prints_past_buffer_witness:
  "handle_client_data linux 1 0 (greeted (greeting\<lparr>rcv := replicate BUF_SIZE 65\<rparr>) (replicate BUF_SIZE 0)) =
     Some (Inl OutOfBounds)"
proof -
  have "lk_fds (kern (greeted (greeting\<lparr>rcv := replicate BUF_SIZE 65\<rparr>) (replicate BUF_SIZE 0))) 0 =
      Some \<lparr>fflags = O_NONBLOCK, obj = Client (greeting\<lparr>rcv := replicate BUF_SIZE 65\<rparr>)\<rparr>"
    by (simp add: greeted_def lk_fds_def)
  from reactor_prints_past_buffer [OF this, of "greeting\<lparr>rcv := replicate BUF_SIZE 65\<rparr>" 1] show ?thesis
    by (simp add: greeting_def greeted_def)
qed

end
