(* ===== verification/Elf_Inspect.thy ===== *)
theory Elf_Inspect
  imports Printf
begin

text \<open>
  The ELF64 inspector of \<^verbatim>\<open>12-elf-inspector/main.c\<close>.

  The mapped file is the list of its bytes, filled with zeros up to a page boundary as \<open>mmap\<close>
  does.  A pointer into it is its distance from \<open>base\<close> as a 64-bit word, so that the pointer
  arithmetic wraps around; an access that does not fall into the mapping is an error.  The fields
  of the structures are read one by one at the offsets \<^verbatim>\<open>elf.h\<close> gives them, as the code does.
\<close>

unbundle bit_operations_syntax

section \<open>Tables\<close>

definition sh_type_str :: "u32 \<Rightarrow> string" where
  "sh_type_str t =
     (if t = 0 then ''NULL''
      else if t = 1 then ''PROGBITS''
      else if t = 2 then ''SYMTAB''
      else if t = 3 then ''STRTAB''
      else if t = 4 then ''RELA''
      else if t = 5 then ''HASH''
      else if t = 6 then ''DYNAMIC''
      else if t = 7 then ''NOTE''
      else if t = 8 then ''NOBITS''
      else if t = 9 then ''REL''
      else if t = 11 then ''DYNSYM''
      else ''OTHER'')"

definition pt_type_str :: "u32 \<Rightarrow> string" where
  "pt_type_str t =
     (if t = 0 then ''NULL''
      else if t = 1 then ''LOAD''
      else if t = 2 then ''DYNAMIC''
      else if t = 3 then ''INTERP''
      else if t = 4 then ''NOTE''
      else if t = 6 then ''PHDR''
      else if t = 7 then ''TLS''
      else ''OTHER'')"

section \<open>Structures in the mapping\<close>

type_synonym ptr = u64

definition rd8 :: "byte list \<Rightarrow> ptr \<Rightarrow> byte c_res" where "rd8 m p = rd m (unat p)"
definition rd16 :: "byte list \<Rightarrow> ptr \<Rightarrow> u16 c_res" where "rd16 m p = le16 m (unat p)"
definition rd32 :: "byte list \<Rightarrow> ptr \<Rightarrow> u32 c_res" where "rd32 m p = le32 m (unat p)"
definition rd64 :: "byte list \<Rightarrow> ptr \<Rightarrow> u64 c_res" where "rd64 m p = le64 m (unat p)"
definition rd_str :: "byte list \<Rightarrow> ptr \<Rightarrow> string c_res" where
  "rd_str m p = bindE (cstr m (unat p)) (\<lambda>bs. Inr (text_of bs))"

definition e_phoff :: "byte list \<Rightarrow> u64 c_res" where "e_phoff m = rd64 m 32"
definition e_shoff :: "byte list \<Rightarrow> u64 c_res" where "e_shoff m = rd64 m 40"
definition e_phnum :: "byte list \<Rightarrow> u16 c_res" where "e_phnum m = rd16 m 56"
definition e_shnum :: "byte list \<Rightarrow> u16 c_res" where "e_shnum m = rd16 m 60"
definition e_shstrndx :: "byte list \<Rightarrow> u16 c_res" where "e_shstrndx m = rd16 m 62"

definition shdr_at :: "ptr \<Rightarrow> nat \<Rightarrow> ptr" where "shdr_at shdrs i = shdrs + 64 * of_nat i"
definition phdr_at :: "ptr \<Rightarrow> nat \<Rightarrow> ptr" where "phdr_at phdrs i = phdrs + 56 * of_nat i"
definition sym_at :: "ptr \<Rightarrow> nat \<Rightarrow> ptr" where "sym_at syms j = syms + 24 * of_nat j"

definition sh_name :: "byte list \<Rightarrow> ptr \<Rightarrow> u32 c_res" where "sh_name m sh = rd32 m sh"
definition sh_type :: "byte list \<Rightarrow> ptr \<Rightarrow> u32 c_res" where "sh_type m sh = rd32 m (sh + 4)"
definition sh_flags :: "byte list \<Rightarrow> ptr \<Rightarrow> u64 c_res" where "sh_flags m sh = rd64 m (sh + 8)"
definition sh_offset :: "byte list \<Rightarrow> ptr \<Rightarrow> u64 c_res" where "sh_offset m sh = rd64 m (sh + 24)"
definition sh_size :: "byte list \<Rightarrow> ptr \<Rightarrow> u64 c_res" where "sh_size m sh = rd64 m (sh + 32)"
definition sh_link :: "byte list \<Rightarrow> ptr \<Rightarrow> u32 c_res" where "sh_link m sh = rd32 m (sh + 40)"
definition sh_entsize :: "byte list \<Rightarrow> ptr \<Rightarrow> u64 c_res" where "sh_entsize m sh = rd64 m (sh + 56)"

definition p_type :: "byte list \<Rightarrow> ptr \<Rightarrow> u32 c_res" where "p_type m ph = rd32 m ph"
definition p_flags :: "byte list \<Rightarrow> ptr \<Rightarrow> u32 c_res" where "p_flags m ph = rd32 m (ph + 4)"
definition p_offset :: "byte list \<Rightarrow> ptr \<Rightarrow> u64 c_res" where "p_offset m ph = rd64 m (ph + 8)"
definition p_vaddr :: "byte list \<Rightarrow> ptr \<Rightarrow> u64 c_res" where "p_vaddr m ph = rd64 m (ph + 16)"
definition p_filesz :: "byte list \<Rightarrow> ptr \<Rightarrow> u64 c_res" where "p_filesz m ph = rd64 m (ph + 32)"
definition p_memsz :: "byte list \<Rightarrow> ptr \<Rightarrow> u64 c_res" where "p_memsz m ph = rd64 m (ph + 40)"

definition st_name :: "byte list \<Rightarrow> ptr \<Rightarrow> u32 c_res" where "st_name m sy = rd32 m sy"
definition st_info :: "byte list \<Rightarrow> ptr \<Rightarrow> byte c_res" where "st_info m sy = rd8 m (sy + 4)"
definition st_value :: "byte list \<Rightarrow> ptr \<Rightarrow> u64 c_res" where "st_value m sy = rd64 m (sy + 8)"
definition st_size :: "byte list \<Rightarrow> ptr \<Rightarrow> u64 c_res" where "st_size m sy = rd64 m (sy + 16)"

text \<open>The printf formats, on values.\<close>

definition hex :: "nat \<Rightarrow> u64 \<Rightarrow> string" where
  "hex w x = ''0x'' @ pad_left CHR ''0'' w (fmt_x (unat x))"

definition dec :: "nat \<Rightarrow> u64 \<Rightarrow> string" where
  "dec w x = pad_left CHR '' '' w (fmt_u (unat x))"

definition section_fmt :: "nat \<Rightarrow> string \<Rightarrow> u32 \<Rightarrow> u64 \<Rightarrow> u64 \<Rightarrow> u64 \<Rightarrow> string" where
  "section_fmt i name ty offset sz fl =
     ''['' @ pad_left CHR '' '' 3 (fmt_u i) @ ''] '' @ pad_right 20 name @ '' '' @
     pad_right 10 (sh_type_str ty) @ '' '' @ hex 8 offset @ '' '' @ dec 8 sz @ ''  '' @ hex 0 fl"

definition flag_str :: "u32 \<Rightarrow> string" where
  "flag_str fl = [if fl AND 4 \<noteq> 0 then CHR ''r'' else CHR ''-'',
     if fl AND 2 \<noteq> 0 then CHR ''w'' else CHR ''-'', if fl AND 1 \<noteq> 0 then CHR ''x'' else CHR ''-'']"

definition program_fmt :: "u32 \<Rightarrow> u64 \<Rightarrow> u64 \<Rightarrow> u64 \<Rightarrow> u64 \<Rightarrow> u32 \<Rightarrow> string" where
  "program_fmt ty vaddr offset filesz memsz fl =
     pad_right 10 (pt_type_str ty) @ '' '' @ hex 16 vaddr @ '' '' @ hex 8 offset @ '' '' @
     dec 8 filesz @ '' '' @ dec 8 memsz @ ''  '' @ flag_str fl"

definition st_bind :: "byte \<Rightarrow> byte" where "st_bind info = drop_bit 4 info"
definition st_type :: "byte \<Rightarrow> byte" where "st_type info = info AND 0xF"

definition sym_type_str :: "byte \<Rightarrow> string" where
  "sym_type_str t = (if t = 2 then ''FUNC'' else if t = 1 then ''OBJECT''
     else if t = 0 then ''NOTYPE'' else ''OTHER'')"

definition symbol_fmt :: "string \<Rightarrow> byte \<Rightarrow> u64 \<Rightarrow> u64 \<Rightarrow> string" where
  "symbol_fmt name info val sz =
     pad_right 40 name @ '' GLOBAL   '' @ pad_right 8 (sym_type_str (st_type info)) @ '' '' @
     hex 16 val @ '' '' @ fmt_u (unat sz)"

section \<open>The three listings\<close>

definition section_line :: "byte list \<Rightarrow> ptr \<Rightarrow> ptr \<Rightarrow> nat \<Rightarrow> string c_res" where
  "section_line m shdrs shstrtab_data i =
     (let sh = shdr_at shdrs i in
      bindE (sh_name m sh) (\<lambda>nm.
      bindE (sh_type m sh) (\<lambda>ty.
      bindE (sh_offset m sh) (\<lambda>offset.
      bindE (sh_size m sh) (\<lambda>sz.
      bindE (sh_flags m sh) (\<lambda>fl.
      bindE (rd_str m (shstrtab_data + ucast nm)) (\<lambda>name.
        Inr (section_fmt i name ty offset sz fl))))))))"

definition program_line :: "byte list \<Rightarrow> ptr \<Rightarrow> nat \<Rightarrow> string c_res" where
  "program_line m phdrs i =
     (let ph = phdr_at phdrs i in
      bindE (p_flags m ph) (\<lambda>fl.
      bindE (p_type m ph) (\<lambda>ty.
      bindE (p_vaddr m ph) (\<lambda>vaddr.
      bindE (p_offset m ph) (\<lambda>offset.
      bindE (p_filesz m ph) (\<lambda>filesz.
      bindE (p_memsz m ph) (\<lambda>memsz.
        Inr (program_fmt ty vaddr offset filesz memsz fl))))))))"

text \<open>A symbol gives a line if it is global.\<close>

definition symbol_lines :: "byte list \<Rightarrow> ptr \<Rightarrow> ptr \<Rightarrow> nat \<Rightarrow> string list c_res" where
  "symbol_lines m strtab syms j =
     (let sy = sym_at syms j in
      bindE (st_info m sy) (\<lambda>info.
        if st_bind info \<noteq> 1 then Inr []
        else
          bindE (st_name m sy) (\<lambda>nm.
          bindE (rd_str m (strtab + ucast nm)) (\<lambda>name.
          bindE (st_value m sy) (\<lambda>val.
          bindE (st_size m sy) (\<lambda>sz. Inr [symbol_fmt name info val sz]))))))"

definition symbol_header :: string where
  "symbol_header = pad_right 40 ''Name'' @ '' '' @ pad_right 8 ''Bind'' @ '' '' @ pad_right 8 ''Type'' @
     '' '' @ pad_right 18 ''Value'' @ '' size''"

text \<open>One section of the symbol loop: whether it is a symbol table, and what it prints.\<close>

definition symtab_lines :: "byte list \<Rightarrow> ptr \<Rightarrow> nat \<Rightarrow> (bool \<times> string list) c_res" where
  "symtab_lines m shdrs i =
     (let sh = shdr_at shdrs i in
      bindE (sh_type m sh) (\<lambda>ty.
        if ty \<noteq> 2 then Inr (False, [])
        else
          bindE (sh_entsize m sh) (\<lambda>entsize.
            if entsize = 0 then Inr (True, [])
            else
              bindE (sh_link m sh) (\<lambda>link.
              bindE (sh_offset m (shdr_at shdrs (unat link))) (\<lambda>strtab.
              bindE (sh_size m sh) (\<lambda>sz.
              bindE (sh_offset m sh) (\<lambda>syms.
              bindE (mapE (symbol_lines m strtab syms) [0..<unat (sz div entsize)]) (\<lambda>ls.
                Inr (True, symbol_header # concat ls)))))))))"

definition section_header :: "string list" where
  "section_header = [''=== Section Headers ==='',
     ''[idx] '' @ pad_right 20 ''Name'' @ '' '' @ pad_right 10 ''Type'' @ '' '' @
     pad_right 10 ''Offset'' @ '' '' @ pad_right 8 ''Size'' @ '' flags'']"

definition program_header :: "string list" where
  "program_header = [[], ''=== Program Headers ==='',
     pad_right 10 ''Type'' @ '' '' @ pad_right 18 ''VAddr'' @ '' '' @ pad_right 10 ''Offset'' @ '' '' @
     pad_right 8 ''FileSz'' @ '' '' @ pad_right 8 ''MemSz'' @ '' flags'']"

text \<open>The title of the last listing has an em dash, in UTF-8 in the source file.\<close>

definition symtab_title :: "string list" where
  "symtab_title = [[], ''=== Symbol Table (.symtab '' @ text_of [0xE2, 0x80, 0x94] @ '' globals only) ==='']"

definition inspect_elf :: "byte list \<Rightarrow> string list c_res" where
  "inspect_elf m =
     bindE (e_shoff m) (\<lambda>shdrs.
     bindE (e_phoff m) (\<lambda>phdrs.
     bindE (e_shstrndx m) (\<lambda>ndx.
     bindE (sh_offset m (shdr_at shdrs (unat ndx))) (\<lambda>shstrtab_data.
     bindE (e_shnum m) (\<lambda>shnum.
     bindE (mapE (section_line m shdrs shstrtab_data) [0..<unat shnum]) (\<lambda>secs.
     bindE (e_phnum m) (\<lambda>phnum.
     bindE (mapE (program_line m phdrs) [0..<unat phnum]) (\<lambda>progs.
     bindE (mapE (symtab_lines m shdrs) [0..<unat shnum]) (\<lambda>syms.
       Inr (section_header @ secs @ program_header @ progs @ symtab_title @ concat (map snd syms) @
         (if \<exists>s \<in> set syms. fst s then [] else [''no .symtab found''])))))))))))"

section \<open>main\<close>

definition PAGE_SIZE :: nat where "PAGE_SIZE = 4096"

definition mapping_of :: "byte list \<Rightarrow> byte list" where
  "mapping_of file = file @ replicate ((PAGE_SIZE - length file mod PAGE_SIZE) mod PAGE_SIZE) 0"

record elf_result =
  exit_status :: nat
  elf_stdout :: "string list"
  elf_stderr :: "string list"
  fd_closed :: bool
  unmapped :: bool

text \<open>
  The outcomes of \<open>open\<close> (\<open>None\<close> when it fails, else the contents of the file), \<open>fstat\<close> and
  \<open>mmap\<close>; mapping an empty file fails.  A message of \<open>perror\<close> is its prefix; the closing
  line feed of a \<open>fprintf\<close> is left out.
\<close>

record elf_env =
  opened :: "byte list option"
  fstat_ok :: bool
  mmap_ok :: bool

definition reject :: "string \<Rightarrow> bool \<Rightarrow> bool \<Rightarrow> elf_result" where
  "reject msg cl un = \<lparr>exit_status = 1, elf_stdout = [], elf_stderr = [msg], fd_closed = cl, unmapped = un\<rparr>"

definition elf_main :: "string list \<Rightarrow> elf_env \<Rightarrow> elf_result c_res" where
  "elf_main argv env =
     (if length argv \<noteq> 2
      then bindE (rd argv 0) (\<lambda>prog. Inr (reject (''Usage: '' @ prog @ '' <elf-binary>'') False False))
      else
       (case opened env of
          None \<Rightarrow> Inr (reject (''Could not open ELF file.'' @ [CHR 0x0A]) False False)
        | Some file \<Rightarrow>
            if \<not> fstat_ok env then Inr (reject (''Could not get fstats'' @ [CHR 0x0A]) False False)
            else if \<not> mmap_ok env \<or> file = [] then Inr (reject ''mmap failed'' True False)
            else let m = mapping_of file in
              bindE (rd_bytes m 0 4) (\<lambda>magic.
              if magic \<noteq> [0x7F, 0x45, 0x4C, 0x46] then Inr (reject ''Not an ELF file'' True True)
              else bindE (rd m 4) (\<lambda>cls.
              if cls \<noteq> 2 then Inr (reject ''Not a 64-bit ELF'' True True)
              else bindE (rd m 5) (\<lambda>enc.
              if enc \<noteq> 1 then Inr (reject ''Not little-endian ELF'' True True)
              else bindE (inspect_elf m) (\<lambda>ls.
                Inr \<lparr>exit_status = 0, elf_stdout = ls, elf_stderr = [], fd_closed = True, unmapped = True\<rparr>))))))"

section \<open>Files\<close>

text \<open>
  The specification: an ELF64 file given by its headers, section names and symbols.  A file
  \<^emph>\<open>contains\<close> it when the encodings of the structures stand at the offsets the headers name,
  wherever that is.
\<close>

record section_hdr =
  shname :: u32
  shtype :: u32
  shflags :: u64
  shaddr :: u64
  shoffset :: u64
  shsize :: u64
  shlink :: u32
  shinfo :: u32
  shalign :: u64
  shentsize :: u64

record segment_hdr =
  ptype :: u32
  pflags :: u32
  poffset :: u64
  pvaddr :: u64
  ppaddr :: u64
  pfilesz :: u64
  pmemsz :: u64
  palign :: u64

record symbol =
  stname :: u32
  stinfo :: byte
  stother :: byte
  stshndx :: u16
  stvalue :: u64
  stsize :: u64

record elf_desc =
  d_type :: u16
  d_machine :: u16
  d_entry :: u64
  d_phoff :: u64
  d_shoff :: u64
  d_shstrndx :: u16
  d_sections :: "(section_hdr \<times> string) list"
  d_segments :: "segment_hdr list"
  d_symbols :: "nat \<Rightarrow> (symbol \<times> string) list"

definition enc_shdr :: "section_hdr \<Rightarrow> byte list" where
  "enc_shdr s = le_bytes 4 (shname s) @ le_bytes 4 (shtype s) @ le_bytes 8 (shflags s) @
     le_bytes 8 (shaddr s) @ le_bytes 8 (shoffset s) @ le_bytes 8 (shsize s) @ le_bytes 4 (shlink s) @
     le_bytes 4 (shinfo s) @ le_bytes 8 (shalign s) @ le_bytes 8 (shentsize s)"

definition enc_phdr :: "segment_hdr \<Rightarrow> byte list" where
  "enc_phdr s = le_bytes 4 (ptype s) @ le_bytes 4 (pflags s) @ le_bytes 8 (poffset s) @
     le_bytes 8 (pvaddr s) @ le_bytes 8 (ppaddr s) @ le_bytes 8 (pfilesz s) @ le_bytes 8 (pmemsz s) @
     le_bytes 8 (palign s)"

definition enc_sym :: "symbol \<Rightarrow> byte list" where
  "enc_sym s = le_bytes 4 (stname s) @ [stinfo s] @ [stother s] @ le_bytes 2 (stshndx s) @
     le_bytes 8 (stvalue s) @ le_bytes 8 (stsize s)"

definition enc_ehdr :: "elf_desc \<Rightarrow> byte list" where
  "enc_ehdr d = [0x7F, 0x45, 0x4C, 0x46, 2, 1, 1, 0] @ replicate 8 0 @ le_bytes 2 (d_type d) @
     le_bytes 2 (d_machine d) @ le_bytes 4 (1 :: u32) @ le_bytes 8 (d_entry d) @ le_bytes 8 (d_phoff d) @
     le_bytes 8 (d_shoff d) @ le_bytes 4 (0 :: u32) @ le_bytes 2 (64 :: u16) @ le_bytes 2 (56 :: u16) @
     le_bytes 2 (of_nat (length (d_segments d)) :: u16) @ le_bytes 2 (64 :: u16) @
     le_bytes 2 (of_nat (length (d_sections d)) :: u16) @ le_bytes 2 (d_shstrndx d)"

definition holds :: "byte list \<Rightarrow> ptr \<Rightarrow> byte list \<Rightarrow> bool" where
  "holds m p bs \<longleftrightarrow> unat p + length bs \<le> length m \<and> take (length bs) (drop (unat p) m) = bs"

definition holds_str :: "byte list \<Rightarrow> ptr \<Rightarrow> string \<Rightarrow> bool" where
  "holds_str m p s \<longleftrightarrow> 0 \<notin> set (bytes_of s) \<and> holds m p (bytes_of s @ [0])"

definition strtab_of :: "elf_desc \<Rightarrow> nat \<Rightarrow> ptr" where
  "strtab_of d i = shoffset (fst (d_sections d ! i))"

definition symtab_ok :: "byte list \<Rightarrow> elf_desc \<Rightarrow> nat \<Rightarrow> bool" where
  "symtab_ok m d i =
     (let s = fst (d_sections d ! i) in shtype s = 2 \<longrightarrow>
        shentsize s = 24 \<and> shsize s = 24 * of_nat (length (d_symbols d i)) \<and>
        unat (shlink s) < length (d_sections d) \<and>
        holds m (shoffset s) (concat (map (enc_sym \<circ> fst) (d_symbols d i))) \<and>
        list_all (\<lambda>(sy, nm). st_bind (stinfo sy) = 1 \<longrightarrow>
          holds_str m (strtab_of d (unat (shlink s)) + ucast (stname sy)) nm) (d_symbols d i))"

definition elf_contains :: "byte list \<Rightarrow> elf_desc \<Rightarrow> bool" where
  "elf_contains m d \<longleftrightarrow>
     length m < 2 ^ 63 \<and> length (d_sections d) < 2 ^ 16 \<and> length (d_segments d) < 2 ^ 16 \<and>
     unat (d_shstrndx d) < length (d_sections d) \<and>
     holds m 0 (enc_ehdr d) \<and>
     holds m (d_shoff d) (concat (map (enc_shdr \<circ> fst) (d_sections d))) \<and>
     holds m (d_phoff d) (concat (map enc_phdr (d_segments d))) \<and>
     list_all (\<lambda>(s, nm). holds_str m (strtab_of d (unat (d_shstrndx d)) + ucast (shname s)) nm)
       (d_sections d) \<and>
     list_all (symtab_ok m d) [0..<length (d_sections d)]"

text \<open>What the program should print.\<close>

definition listed_symbols :: "(symbol \<times> string) list \<Rightarrow> string list" where
  "listed_symbols syms =
     [symbol_fmt nm (stinfo s) (stvalue s) (stsize s). (s, nm) \<leftarrow> syms, st_bind (stinfo s) = 1]"

definition listed_symtab :: "elf_desc \<Rightarrow> nat \<Rightarrow> string list" where
  "listed_symtab d i = (if shtype (fst (d_sections d ! i)) = 2
     then symbol_header # listed_symbols (d_symbols d i) else [])"

definition listed_section :: "elf_desc \<Rightarrow> nat \<Rightarrow> string" where
  "listed_section d i = (let (s, nm) = d_sections d ! i in
     section_fmt i nm (shtype s) (shoffset s) (shsize s) (shflags s))"

definition listed_segment :: "segment_hdr \<Rightarrow> string" where
  "listed_segment s = program_fmt (ptype s) (pvaddr s) (poffset s) (pfilesz s) (pmemsz s) (pflags s)"

definition listing :: "elf_desc \<Rightarrow> string list" where
  "listing d =
     section_header @ map (listed_section d) [0..<length (d_sections d)] @
     program_header @ map listed_segment (d_segments d) @
     symtab_title @ concat (map (listed_symtab d) [0..<length (d_sections d)]) @
     (if \<exists>s \<in> set (d_sections d). shtype (fst s) = 2 then [] else [''no .symtab found''])"

section \<open>Reading structures back\<close>

lemma holds_append:
  assumes "holds m p (xs @ ys)" "length m < 2 ^ 63"
  shows "holds m p xs" "holds m (p + of_nat (length xs)) ys"
proof -
  have eq: "take (length xs + length ys) (drop (unat p) m) = xs @ ys"
    and le: "unat p + (length xs + length ys) \<le> length m"
    using assms(1) by (simp_all add: holds_def)
  have "unat (p + of_nat (length xs)) = unat p + length xs"
    using le assms(2) by (subst unat_word_ariths) (simp add: unat_of_nat)
  moreover have "take (length xs) (drop (unat p) m) = xs"
    using arg_cong [OF eq, of "take (length xs)"] by simp
  moreover have "take (length ys) (drop (length xs) (drop (unat p) m)) = ys"
    using arg_cong [OF eq, of "drop (length xs)"] by (simp add: drop_take)
  ultimately show "holds m p xs" "holds m (p + of_nat (length xs)) ys"
    using le by (simp_all add: holds_def add.commute)
qed

lemma holds_concat:
  assumes "holds m p (concat (map enc xs))" "length m < 2 ^ 63" "\<And>x. length (enc x) = w" "i < length xs"
  shows "holds m (p + of_nat w * of_nat i) (enc (xs ! i))"
  using assms(1,4)
proof (induction xs arbitrary: p i)
  case (Cons x xs)
  note split = holds_append [of m p "enc x" "concat (map enc xs)", OF _ assms(2)]
  show ?case
  proof (cases i)
    case 0
    with split(1) Cons.prems(1) show ?thesis by simp
  next
    case (Suc j)
    have "holds m (p + of_nat w + of_nat w * of_nat j) (enc (xs ! j))"
      using Cons.IH [of "p + of_nat w" j] split(2) Cons.prems Suc assms(3) by simp
    then show ?thesis by (simp add: Suc algebra_simps)
  qed
qed simp

lemma holds_rd:
  "holds m p (le_bytes 2 (w2 :: u16)) \<Longrightarrow> rd16 m p = Inr w2"
  "holds m p (le_bytes 4 (w4 :: u32)) \<Longrightarrow> rd32 m p = Inr w4"
  "holds m p (le_bytes 8 (w8 :: u64)) \<Longrightarrow> rd64 m p = Inr w8"
  by (simp_all add: holds_def rd16_def rd32_def rd64_def le16.dec_at le32.dec_at le64.dec_at)

lemma holds_rd8: "holds m p [b] \<Longrightarrow> rd8 m p = Inr b"
  by (cases "drop (unat p) m") (auto simp: holds_def rd8_def rd_def nth_via_drop take_Cons' split: if_splits)

lemma holds_rd_str:
  assumes "holds_str m p s"
  shows "rd_str m p = Inr s"
proof -
  have "holds m p (bytes_of s @ [0])" and nz: "0 \<notin> set (bytes_of s)" using assms by (auto simp: holds_str_def)
  then have "drop (unat p) m = (bytes_of s @ [0]) @ drop (length (bytes_of s @ [0])) (drop (unat p) m)"
    unfolding holds_def by (metis append_take_drop_id)
  then have "drop (unat p) m = bytes_of s @ 0 # drop (length (bytes_of s @ [0])) (drop (unat p) m)" by simp
  then show ?thesis
    using until_nul_ok [OF nz] by (metis bindE_simps(2) cstr_def rd_str_def text_bytes_of)
qed

lemma holds_append_iff:
  assumes "length m < 2 ^ 63"
  shows "holds m p (xs @ ys) \<longleftrightarrow> holds m p xs \<and> holds m (p + of_nat (length xs)) ys"
proof
  assume "holds m p (xs @ ys)"
  then show "holds m p xs \<and> holds m (p + of_nat (length xs)) ys"
    using holds_append [OF _ assms] by blast
next
  assume h: "holds m p xs \<and> holds m (p + of_nat (length xs)) ys"
  then have le: "unat p + length xs \<le> length m" by (simp add: holds_def)
  have "unat (p + of_nat (length xs)) = unat p + length xs"
    using le assms by (subst unat_word_ariths) (simp add: unat_of_nat)
  with h show "holds m p (xs @ ys)"
    by (simp add: holds_def take_add add.commute add.left_commute)
qed

lemma shdr_fields:
  assumes "holds m p (enc_shdr s)" "length m < 2 ^ 63"
  shows "sh_name m p = Inr (shname s)" "sh_type m p = Inr (shtype s)" "sh_flags m p = Inr (shflags s)"
    "sh_offset m p = Inr (shoffset s)" "sh_size m p = Inr (shsize s)" "sh_link m p = Inr (shlink s)"
    "sh_entsize m p = Inr (shentsize s)"
  using assms(1)
  by (simp_all add: enc_shdr_def holds_append_iff [OF assms(2)] sh_name_def sh_type_def sh_flags_def
      sh_offset_def sh_size_def sh_link_def sh_entsize_def holds_rd add.assoc)

lemma phdr_fields:
  assumes "holds m p (enc_phdr s)" "length m < 2 ^ 63"
  shows "p_type m p = Inr (ptype s)" "p_flags m p = Inr (pflags s)" "p_offset m p = Inr (poffset s)"
    "p_vaddr m p = Inr (pvaddr s)" "p_filesz m p = Inr (pfilesz s)" "p_memsz m p = Inr (pmemsz s)"
  using assms(1)
  by (simp_all add: enc_phdr_def holds_append_iff [OF assms(2)] p_type_def p_flags_def
      p_offset_def p_vaddr_def p_filesz_def p_memsz_def holds_rd add.assoc)

lemma sym_fields:
  assumes "holds m p (enc_sym s)" "length m < 2 ^ 63"
  shows "st_name m p = Inr (stname s)" "st_info m p = Inr (stinfo s)" "st_value m p = Inr (stvalue s)"
    "st_size m p = Inr (stsize s)"
  using assms(1) [unfolded enc_sym_def holds_append_iff [OF assms(2)]]
  by (simp_all add: st_name_def st_info_def st_value_def st_size_def holds_rd holds_rd8 add.assoc)

lemma ehdr_fields:
  assumes "holds m 0 (enc_ehdr d)" "length m < 2 ^ 63"
    and "length (d_sections d) < 2 ^ 16" "length (d_segments d) < 2 ^ 16"
  shows "rd_bytes m 0 4 = Inr [0x7F, 0x45, 0x4C, 0x46]" "rd m 4 = Inr 2" "rd m 5 = Inr 1"
    "e_phoff m = Inr (d_phoff d)" "e_shoff m = Inr (d_shoff d)" "e_shstrndx m = Inr (d_shstrndx d)"
    "e_shnum m = Inr (of_nat (length (d_sections d)))" "e_phnum m = Inr (of_nat (length (d_segments d)))"
proof -
  note split = assms(1) [unfolded enc_ehdr_def holds_append_iff [OF assms(2)], simplified add.assoc]
  show "e_phoff m = Inr (d_phoff d)" "e_shoff m = Inr (d_shoff d)" "e_shstrndx m = Inr (d_shstrndx d)"
    "e_shnum m = Inr (of_nat (length (d_sections d)))" "e_phnum m = Inr (of_nat (length (d_segments d)))"
    using split by (simp_all add: e_phoff_def e_shoff_def e_shstrndx_def e_shnum_def e_phnum_def holds_rd)
  have h: "holds m 0 [0x7F, 0x45, 0x4C, 0x46, 2, 1, 1, 0]" using split by blast
  then have "8 \<le> length m" "take 8 m = [0x7F, 0x45, 0x4C, 0x46, 2, 1, 1, 0]"
    by (simp_all add: holds_def eval_nat_numeral)
  then obtain rest where "m = [0x7F, 0x45, 0x4C, 0x46, 2, 1, 1, 0] @ rest"
    by (metis append_take_drop_id)
  then show "rd_bytes m 0 4 = Inr [0x7F, 0x45, 0x4C, 0x46]" "rd m 4 = Inr 2" "rd m 5 = Inr 1"
    by (simp_all add: rd_bytes_def rd_def)
qed

lemma length_enc [simp]:
  "length (enc_shdr s) = 64" "length (enc_phdr g) = 56" "length (enc_sym y) = 24"
  by (simp_all add: enc_shdr_def enc_phdr_def enc_sym_def)

lemma holds_section:
  assumes "elf_contains m d" "i < length (d_sections d)"
  shows "holds m (shdr_at (d_shoff d) i) (enc_shdr (fst (d_sections d ! i)))"
proof -
  have "holds m (d_shoff d) (concat (map (enc_shdr \<circ> fst) (d_sections d)))" "length m < 2 ^ 63"
    using assms(1) by (simp_all add: elf_contains_def)
  from holds_concat [OF this, of 64 i] assms(2) show ?thesis by (simp add: shdr_at_def)
qed

lemma section_line_ok:
  assumes "elf_contains m d" "i < length (d_sections d)"
  shows "section_line m (d_shoff d) (strtab_of d (unat (d_shstrndx d))) i = Inr (listed_section d i)"
proof -
  obtain s nm where s: "d_sections d ! i = (s, nm)" by fastforce
  have len: "length m < 2 ^ 63" using assms(1) by (simp add: elf_contains_def)
  have "holds m (shdr_at (d_shoff d) i) (enc_shdr s)" using holds_section [OF assms] s by simp
  note fields = shdr_fields [OF this len]
  have "holds_str m (strtab_of d (unat (d_shstrndx d)) + ucast (shname s)) nm"
    using assms s by (auto simp: elf_contains_def list_all_length)
  from holds_rd_str [OF this] fields s show ?thesis
    by (simp add: section_line_def listed_section_def Let_def)
qed

lemma program_line_ok:
  assumes "elf_contains m d" "i < length (d_segments d)"
  shows "program_line m (d_phoff d) i = Inr (listed_segment (d_segments d ! i))"
proof -
  have h: "holds m (d_phoff d) (concat (map enc_phdr (d_segments d)))" and len: "length m < 2 ^ 63"
    using assms(1) by (simp_all add: elf_contains_def)
  from holds_concat [OF h len, of 56 i] assms(2)
  have "holds m (phdr_at (d_phoff d) i) (enc_phdr (d_segments d ! i))" by (simp add: phdr_at_def)
  from phdr_fields [OF this len] show ?thesis by (simp add: program_line_def listed_segment_def Let_def)
qed

lemma symbol_lines_ok:
  assumes "holds m syms (concat (map (enc_sym \<circ> fst) ys))" "length m < 2 ^ 63" "j < length ys"
    and "list_all (\<lambda>(sy, nm). st_bind (stinfo sy) = 1 \<longrightarrow> holds_str m (strtab + ucast (stname sy)) nm) ys"
  shows "symbol_lines m strtab syms j = Inr (listed_symbols [ys ! j])"
proof -
  obtain sy nm where y: "ys ! j = (sy, nm)" by fastforce
  from holds_concat [OF assms(1,2), of 24 j] assms(3) y
  have "holds m (sym_at syms j) (enc_sym sy)" by (simp add: sym_at_def)
  note fields = sym_fields [OF this assms(2)]
  have "st_bind (stinfo sy) = 1 \<Longrightarrow> rd_str m (strtab + ucast (stname sy)) = Inr nm"
    using assms(3,4) y holds_rd_str by (fastforce simp: list_all_length)
  with fields y show ?thesis by (auto simp: symbol_lines_def listed_symbols_def Let_def)
qed

lemma listed_symbols_concat: "concat (map (\<lambda>j. listed_symbols [ys ! j]) [0..<length ys]) = listed_symbols ys"
proof (induction ys)
  case (Cons y ys)
  have "map (\<lambda>j. listed_symbols [(y # ys) ! j]) [0..<length (y # ys)] =
      listed_symbols [y] # map (\<lambda>j. listed_symbols [ys ! j]) [0..<length ys]"
    by (simp add: upt_conv_Cons map_Suc_upt [symmetric] del: upt_Suc)
  with Cons show ?case by (simp add: listed_symbols_def)
qed (simp add: listed_symbols_def)

lemma symtab_lines_ok:
  assumes c: "elf_contains m d" and i: "i < length (d_sections d)"
  shows "symtab_lines m (d_shoff d) i = Inr (shtype (fst (d_sections d ! i)) = 2, listed_symtab d i)"
proof -
  let ?s = "fst (d_sections d ! i)" and ?ys = "d_symbols d i"
  have len: "length m < 2 ^ 63" using c by (simp add: elf_contains_def)
  note fields = shdr_fields [OF holds_section [OF c i] len]
  show ?thesis
  proof (cases "shtype ?s = 2")
    case False
    with fields show ?thesis by (simp add: symtab_lines_def listed_symtab_def)
  next
    case True
    have ok: "shentsize ?s = 24" "shsize ?s = 24 * of_nat (length ?ys)"
      "unat (shlink ?s) < length (d_sections d)" "holds m (shoffset ?s) (concat (map (enc_sym \<circ> fst) ?ys))"
      "list_all (\<lambda>(sy, nm). st_bind (stinfo sy) = 1 \<longrightarrow>
          holds_str m (strtab_of d (unat (shlink ?s)) + ucast (stname sy)) nm) ?ys"
      using c i True by (auto simp: elf_contains_def symtab_ok_def list_all_length Let_def)
    note link = shdr_fields(4) [OF holds_section [OF c ok(3)] len, folded strtab_of_def]
    have "24 * length ?ys \<le> length m" using ok(4) by (simp add: holds_def length_concat comp_def sum_list_triv)
    then have "unat (shsize ?s) = 24 * length ?ys"
      using len by (simp add: ok(2) unat_word_ariths unat_of_nat)
    then have count: "unat (shsize ?s div shentsize ?s) = length ?ys"
      by (simp add: ok(1) unat_div)
    have "mapE (symbol_lines m (strtab_of d (unat (shlink ?s))) (shoffset ?s)) [0..<length ?ys] =
        Inr (map (\<lambda>j. listed_symbols [?ys ! j]) [0..<length ?ys])"
      using symbol_lines_ok [OF ok(4) len _ ok(5)] by (intro mapE_ok) simp
    then show ?thesis
      using True fields link count ok(1)
      by (simp add: symtab_lines_def Let_def listed_symtab_def listed_symbols_concat)
  qed
qed

lemma inspect_elf_ok:
  assumes "elf_contains m d"
  shows "inspect_elf m = Inr (listing d)"
proof -
  have len: "length m < 2 ^ 63" "length (d_sections d) < 2 ^ 16" "length (d_segments d) < 2 ^ 16"
    "holds m 0 (enc_ehdr d)" "unat (d_shstrndx d) < length (d_sections d)"
    using assms by (simp_all add: elf_contains_def)
  note ehdr = ehdr_fields [OF len(4,1,2,3)]
  note strtab = shdr_fields(4) [OF holds_section [OF assms len(5)] len(1), folded strtab_of_def]
  have n: "unat (of_nat (length (d_sections d)) :: u16) = length (d_sections d)"
    "unat (of_nat (length (d_segments d)) :: u16) = length (d_segments d)"
    using len by (simp_all add: unat_of_nat)
  have secs: "mapE (section_line m (d_shoff d) (strtab_of d (unat (d_shstrndx d)))) [0..<length (d_sections d)] =
      Inr (map (listed_section d) [0..<length (d_sections d)])"
    by (intro mapE_ok) (simp add: section_line_ok [OF assms])
  have "mapE (program_line m (d_phoff d)) [0..<length (d_segments d)] =
      Inr (map (\<lambda>i. listed_segment (d_segments d ! i)) [0..<length (d_segments d)])"
    by (intro mapE_ok) (simp add: program_line_ok [OF assms])
  moreover have "map (\<lambda>i. listed_segment (d_segments d ! i)) [0..<length (d_segments d)] =
      map listed_segment (d_segments d)"
    by (rule nth_equalityI) simp_all
  ultimately have progs: "mapE (program_line m (d_phoff d)) [0..<length (d_segments d)] =
      Inr (map listed_segment (d_segments d))"
    by simp
  have syms: "mapE (symtab_lines m (d_shoff d)) [0..<length (d_sections d)] =
      Inr (map (\<lambda>i. (shtype (fst (d_sections d ! i)) = 2, listed_symtab d i)) [0..<length (d_sections d)])"
    by (intro mapE_ok) (simp add: symtab_lines_ok [OF assms])
  show ?thesis
    using ehdr strtab secs progs syms
    by (simp add: inspect_elf_def n listing_def comp_def bex_set_nth)
qed

lemma mapping_of_length: "file \<noteq> [] \<Longrightarrow> PAGE_SIZE \<le> length (mapping_of file)"
proof -
  assume "file \<noteq> []"
  then have n: "0 < length file" by simp
  show "PAGE_SIZE \<le> length (mapping_of file)"
  proof (cases "PAGE_SIZE \<le> length file")
    case True
    then show ?thesis by (simp add: mapping_of_def)
  next
    case False
    then have "length file mod PAGE_SIZE = length file" "(PAGE_SIZE - length file) mod PAGE_SIZE = PAGE_SIZE - length file"
      using n by (simp_all add: PAGE_SIZE_def)
    then show ?thesis by (simp add: mapping_of_def)
  qed
qed

lemma mapping_of_nth: "i < length file \<Longrightarrow> mapping_of file ! i = file ! i"
  by (simp add: mapping_of_def nth_append)

section \<open>Correctness of the inspector\<close>

text \<open>
  C5: The inspector lists a well-formed file exactly.  For every file that contains the encoding of
  an ELF64 description, wherever its tables stand, \<open>main\<close> stays inside the mapping, exits with 0 and
  prints one line per section with its name, one per segment, and the global symbols of every
  symbol table, with the values of the description; the mapping and the descriptor are released.
\<close>

theorem elf_main_lists:
  assumes "elf_contains (mapping_of file) d" "file \<noteq> []"
  shows "elf_main [prog, path] \<lparr>opened = Some file, fstat_ok = True, mmap_ok = True\<rparr> =
    Inr \<lparr>exit_status = 0, elf_stdout = listing d, elf_stderr = [], fd_closed = True, unmapped = True\<rparr>"
proof -
  let ?m = "mapping_of file"
  have len: "length ?m < 2 ^ 63" "length (d_sections d) < 2 ^ 16" "length (d_segments d) < 2 ^ 16"
    "holds ?m 0 (enc_ehdr d)"
    using assms(1) by (simp_all add: elf_contains_def)
  from ehdr_fields(1-3) [OF len(4,1,2,3)] inspect_elf_ok [OF assms(1)] assms(2) show ?thesis
    by (simp add: elf_main_def Let_def)
qed

text \<open>A small file: three sections, one segment, a null symbol and the global function \<open>main\<close>.\<close>

definition tiny_strings :: "byte list" where
  "tiny_strings = [0] @ bytes_of ''.shstrtab'' @ [0] @ bytes_of ''.symtab'' @ [0] @ bytes_of ''main'' @ [0]"

definition tiny :: elf_desc where
  "tiny = \<lparr>d_type = 2, d_machine = 62, d_entry = 0x401000, d_phoff = 256, d_shoff = 64, d_shstrndx = 1,
     d_sections =
       [(\<lparr>shname = 0, shtype = 0, shflags = 0, shaddr = 0, shoffset = 0, shsize = 0, shlink = 0,
          shinfo = 0, shalign = 0, shentsize = 0\<rparr>, []),
        (\<lparr>shname = 1, shtype = 3, shflags = 0, shaddr = 0, shoffset = 360, shsize = 24, shlink = 0,
          shinfo = 0, shalign = 1, shentsize = 0\<rparr>, ''.shstrtab''),
        (\<lparr>shname = 11, shtype = 2, shflags = 0, shaddr = 0, shoffset = 312, shsize = 48, shlink = 1,
          shinfo = 1, shalign = 8, shentsize = 24\<rparr>, ''.symtab'')],
     d_segments =
       [\<lparr>ptype = 1, pflags = 5, poffset = 0, pvaddr = 0x400000, ppaddr = 0x400000, pfilesz = 384,
          pmemsz = 384, palign = 4096\<rparr>],
     d_symbols = (\<lambda>i. if i = 2 then
       [(\<lparr>stname = 0, stinfo = 0, stother = 0, stshndx = 0, stvalue = 0, stsize = 0\<rparr>, []),
        (\<lparr>stname = 19, stinfo = 0x12, stother = 0, stshndx = 1, stvalue = 0x401000, stsize = 16\<rparr>, ''main'')]
       else [])\<rparr>"

definition tiny_file :: "byte list" where
  "tiny_file = enc_ehdr tiny @ concat (map (enc_shdr \<circ> fst) (d_sections tiny)) @
     concat (map enc_phdr (d_segments tiny)) @ concat (map (enc_sym \<circ> fst) (d_symbols tiny 2)) @ tiny_strings"

lemma holds_within:
  assumes "unat p = length pre + k" "k + length bs \<le> length e" "take (length bs) (drop k e) = bs"
  shows "holds (pre @ e) p bs"
  using assms by (simp add: holds_def)

lemma holds_middle: "unat p = length pre \<Longrightarrow> holds (pre @ bs @ post) p bs"
  by (simp add: holds_def)

lemma holds_mapping: "holds f p bs \<Longrightarrow> holds (mapping_of f) p bs"
  by (simp add: holds_def mapping_of_def)

lemma elf_contains_mapping:
  assumes "elf_contains f d" "length (mapping_of f) < 2 ^ 63"
  shows "elf_contains (mapping_of f) d"
proof -
  have str: "holds_str f p s \<Longrightarrow> holds_str (mapping_of f) p s" for p s
    by (simp add: holds_str_def holds_mapping)
  have "symtab_ok f d i \<Longrightarrow> symtab_ok (mapping_of f) d i" for i
    by (auto simp: symtab_ok_def Let_def holds_mapping list_all_iff dest: str)
  with assms show ?thesis
    by (auto simp: elf_contains_def holds_mapping list_all_iff dest: str)
qed

lemma tiny_lengths:
  "length (enc_ehdr tiny) = 64" "length tiny_strings = 24" "length tiny_file = 384"
  by (simp_all add: enc_ehdr_def tiny_strings_def tiny_file_def bytes_of_def tiny_def)

lemma tiny_str:
  assumes "unat p = 360 + k" "k + length (bytes_of s @ [0]) \<le> 24"
    "take (length (bytes_of s @ [0])) (drop k tiny_strings) = bytes_of s @ [0]" "0 \<notin> set (bytes_of s)"
  shows "holds_str tiny_file p s"
proof -
  let ?pre = "enc_ehdr tiny @ concat (map (enc_shdr \<circ> fst) (d_sections tiny)) @
     concat (map enc_phdr (d_segments tiny)) @ concat (map (enc_sym \<circ> fst) (d_symbols tiny 2))"
  have "length ?pre = 360" by (simp add: tiny_lengths) (simp add: tiny_def)
  with assms have "holds (?pre @ tiny_strings) p (bytes_of s @ [0])"
    by (intro holds_within) (simp_all add: tiny_lengths)
  with assms(4) show ?thesis by (simp add: holds_str_def tiny_file_def)
qed

lemma tiny_contains: "elf_contains tiny_file tiny"
proof -
  let ?S = "concat (map (enc_shdr \<circ> fst) (d_sections tiny))" and ?P = "concat (map enc_phdr (d_segments tiny))"
    and ?Y = "concat (map (enc_sym \<circ> fst) (d_symbols tiny 2))"
  have len: "length ?S = 192" "length ?P = 56" "length ?Y = 48" by (simp_all add: tiny_def)
  have "holds tiny_file 0 (enc_ehdr tiny)"
    using holds_middle [of 0 "[]"] by (simp add: tiny_file_def)
  moreover have "holds tiny_file 64 ?S"
    using holds_middle [of 64 "enc_ehdr tiny" ?S] by (simp add: tiny_file_def tiny_lengths)
  moreover have "holds tiny_file 256 ?P"
    using holds_middle [of 256 "enc_ehdr tiny @ ?S" ?P] len by (simp add: tiny_file_def tiny_lengths)
  moreover have "holds tiny_file 312 ?Y"
    using holds_middle [of 312 "enc_ehdr tiny @ ?S @ ?P" ?Y] len by (simp add: tiny_file_def tiny_lengths)
  moreover have "holds_str tiny_file 360 []"
    by (rule tiny_str [where k = 0]) (simp_all add: bytes_of_def tiny_strings_def)
  moreover have "holds_str tiny_file 361 ''.shstrtab''"
    by (rule tiny_str [where k = 1]) (simp_all add: bytes_of_def tiny_strings_def)
  moreover have "holds_str tiny_file 371 ''.symtab''"
    by (rule tiny_str [where k = 11]) (simp_all add: bytes_of_def tiny_strings_def)
  moreover have "holds_str tiny_file 379 ''main''"
    by (rule tiny_str [where k = 19]) (simp_all add: bytes_of_def tiny_strings_def)
  ultimately show ?thesis
    unfolding elf_contains_def tiny_lengths
    by (simp add: tiny_def symtab_ok_def strtab_of_def st_bind_def upt_rec)
qed

theorem elf_main_lists_witness:
  "elf_main [''elf_inspect'', ''tiny''] \<lparr>opened = Some tiny_file, fstat_ok = True, mmap_ok = True\<rparr> =
    Inr \<lparr>exit_status = 0, elf_stdout = listing tiny, elf_stderr = [], fd_closed = True, unmapped = True\<rparr> \<and>
   last (listing tiny) = ''main                                     GLOBAL   FUNC     0x0000000000401000 16''"
proof -
  have "length (mapping_of tiny_file) < 2 ^ 63"
    by (simp add: mapping_of_def tiny_lengths PAGE_SIZE_def)
  moreover have "tiny_file \<noteq> []" using tiny_lengths(3) by auto
  moreover have "last (listing tiny) = ''main                                     GLOBAL   FUNC     0x0000000000401000 16''"
    by (simp add: listing_def tiny_def listed_symtab_def listed_symbols_def symbol_fmt_def sym_type_str_def
        st_bind_def st_type_def hex_def fmt_eval upt_rec) (simp add: numeral_eq_Suc)
  ultimately show ?thesis
    using elf_main_lists [OF elf_contains_mapping [OF tiny_contains]] by simp
qed

text \<open>The files to refuse; bytes that a short file does not have count as zeros.\<close>

definition header_byte :: "byte list \<Rightarrow> nat \<Rightarrow> byte" where
  "header_byte img i = (if i < length img then img ! i else 0)"

definition refusal :: "byte list \<Rightarrow> string option" where
  "refusal img =
     (if map (header_byte img) [0, 1, 2, 3] \<noteq> [0x7F, 0x45, 0x4C, 0x46] then Some ''Not an ELF file''
      else if header_byte img 4 \<noteq> 2 then Some ''Not a 64-bit ELF''
      else if header_byte img 5 \<noteq> 1 then Some ''Not little-endian ELF'' else None)"

lemma header_byte_rd: "img \<noteq> [] \<Longrightarrow> i < 6 \<Longrightarrow> rd (mapping_of img) i = Inr (header_byte img i)"
  using mapping_of_length [of img]
  by (auto simp: rd_def PAGE_SIZE_def header_byte_def mapping_of_def nth_append)

lemma header_magic:
  assumes "img \<noteq> []"
  shows "rd_bytes (mapping_of img) 0 4 = Inr (map (header_byte img) [0, 1, 2, 3])"
proof -
  have len: "4 \<le> length (mapping_of img)" using mapping_of_length [OF assms] by (simp add: PAGE_SIZE_def)
  have "take 4 (mapping_of img) = map ((!) (mapping_of img)) [0, 1, 2, 3]"
    using len by (intro nth_equalityI) (auto simp: less_Suc_eq eval_nat_numeral)
  moreover have "mapping_of img ! i = header_byte img i" if "i < 4" for i
    using header_byte_rd [OF assms, of i] that len by (simp add: rd_def)
  ultimately show ?thesis using len by (simp add: rd_bytes_def)
qed

text \<open>
  C30: A file is refused, with status 1 and the message that applies, exactly from its first six
  bytes: when they are not the ELF magic, the 64-bit class and the little-endian encoding.  The
  check is safe on files of any size, down to one byte, and releases the mapping and the descriptor.
\<close>

theorem elf_main_refuses:
  assumes "img \<noteq> []" "refusal img = Some msg"
  shows "elf_main [prog, path] \<lparr>opened = Some img, fstat_ok = True, mmap_ok = True\<rparr> =
    Inr \<lparr>exit_status = 1, elf_stdout = [], elf_stderr = [msg], fd_closed = True, unmapped = True\<rparr>"
  using assms(2)
  by (auto simp: elf_main_def Let_def refusal_def assms(1) header_magic header_byte_rd reject_def
      split: if_splits)

theorem elf_main_refuses_witness:
  "elf_main [''elf_inspect'', ''a.out'']
     \<lparr>opened = Some [0x7F, 0x45, 0x4C, 0x46, 1], fstat_ok = True, mmap_ok = True\<rparr> =
   Inr \<lparr>exit_status = 1, elf_stdout = [], elf_stderr = [''Not a 64-bit ELF''], fd_closed = True, unmapped = True\<rparr>"
  by (rule elf_main_refuses) (simp_all add: refusal_def header_byte_def)

text \<open>
  C37: The table offset of the header is not checked against the size of the file: when the section
  header that \<open>e_shstrndx\<close> selects does not lie in the mapping, the inspector reads outside it.
\<close>

theorem elf_main_reads_outside:
  assumes "img \<noteq> []" "refusal img = None"
    and "e_shoff (mapping_of img) = Inr shoff" "e_shstrndx (mapping_of img) = Inr ndx"
    and "length (mapping_of img) < unat (shdr_at shoff (unat ndx) + 24) + 8"
  shows "elf_main [prog, path] \<lparr>opened = Some img, fstat_ok = True, mmap_ok = True\<rparr> = Inl OutOfBounds"
proof -
  have "64 \<le> length (mapping_of img)" using mapping_of_length [OF assms(1)] by (simp add: PAGE_SIZE_def)
  then obtain ph where "e_phoff (mapping_of img) = Inr ph"
    using le64.dec_total [of 32 "mapping_of img"] by (auto simp: e_phoff_def rd64_def)
  moreover have "sh_offset (mapping_of img) (shdr_at shoff (unat ndx)) = Inl OutOfBounds"
    using assms(5) by (simp add: sh_offset_def rd64_def le64_def rd_bytes_def)
  ultimately have "inspect_elf (mapping_of img) = Inl OutOfBounds"
    using assms(3,4) by (simp add: inspect_elf_def)
  then show ?thesis
    using assms(2)
    by (simp add: elf_main_def Let_def refusal_def assms(1) header_magic header_byte_rd split: if_splits)
qed

definition bad_file :: "byte list" where
  "bad_file = enc_ehdr (tiny\<lparr>d_shoff := 0x100000\<rparr>)"

lemma bad_file_header:
  "e_shoff (mapping_of bad_file) = Inr 0x100000" "e_shstrndx (mapping_of bad_file) = Inr 1"
  "refusal bad_file = None" "length (mapping_of bad_file) = 4096"
proof -
  have len: "length bad_file = 64" by (simp add: bad_file_def enc_ehdr_def)
  then show len': "length (mapping_of bad_file) = 4096" by (simp add: mapping_of_def PAGE_SIZE_def)
  have "holds bad_file 0 (enc_ehdr (tiny\<lparr>d_shoff := 0x100000\<rparr>))"
    using holds_middle [of 0 "[]" bad_file "[]"] by (simp add: bad_file_def)
  from ehdr_fields(5,6) [OF holds_mapping [OF this]] len'
  show "e_shoff (mapping_of bad_file) = Inr 0x100000" "e_shstrndx (mapping_of bad_file) = Inr 1"
    by (simp_all add: tiny_def)
  show "refusal bad_file = None" using len by (simp add: refusal_def header_byte_def bad_file_def enc_ehdr_def)
qed

theorem elf_main_reads_outside_witness:
  "elf_main [''elf_inspect'', ''bad''] \<lparr>opened = Some bad_file, fstat_ok = True, mmap_ok = True\<rparr> = Inl OutOfBounds"
  using bad_file_header by (intro elf_main_reads_outside) (auto simp: shdr_at_def bad_file_def enc_ehdr_def)

end
