(* ===== verification/Value_Printer.thy ===== *)
theory Value_Printer
  imports Printf
begin

text \<open>
  The tagged union of \<^verbatim>\<open>05-gdb_python_pretty_printer/main.c\<close> and its GDB printer
  \<^verbatim>\<open>value_printer.py\<close>.

  A \<open>Value\<close> is its tag and the 16 bytes of the union, so that a member read back is what the
  bytes in memory say, whichever member was written.  The contents that the constructors do not
  write are indeterminate and appear as an argument.  A double is its 64 bits.  What the printer
  returns is a Python string, a list of code points; the decoder of the target charset that GDB
  applies to the bytes of a string is a parameter, which is instantiated with UTF-8.
\<close>

section \<open>The union\<close>

datatype ValueKind = VAL_INT | VAL_FLOAT | VAL_STRING

fun kind_code :: "ValueKind \<Rightarrow> u32" where
  "kind_code VAL_INT = 0" | "kind_code VAL_FLOAT = 1" | "kind_code VAL_STRING = 2"

record Value =
  vkind :: u32
  storage :: "byte list"

definition put_first :: "u64 \<Rightarrow> byte list \<Rightarrow> byte list" where
  "put_first w st = le_bytes 8 w @ drop 8 st"

definition put_second :: "u64 \<Rightarrow> byte list \<Rightarrow> byte list" where
  "put_second w st = take 8 st @ le_bytes 8 w"

definition make_int :: "byte list \<Rightarrow> u64 \<Rightarrow> Value" where
  "make_int junk n = \<lparr>vkind = kind_code VAL_INT, storage = put_first n junk\<rparr>"

definition make_float :: "byte list \<Rightarrow> u64 \<Rightarrow> Value" where
  "make_float junk d = \<lparr>vkind = kind_code VAL_FLOAT, storage = put_first d junk\<rparr>"

text \<open>\<open>mem\<close> is the memory of the process; \<open>strlen\<close> reads it from the address \<open>s\<close> to the first NUL.\<close>

definition make_str :: "byte list \<Rightarrow> byte list \<Rightarrow> u64 \<Rightarrow> Value c_res" where
  "make_str junk mem s =
     bindE (cstr mem (unat s)) (\<lambda>bs.
       Inr \<lparr>vkind = kind_code VAL_STRING, storage = put_second (of_nat (length bs)) (put_first s junk)\<rparr>)"

text \<open>\<open>main\<close>: the values passed to \<open>inspect\<close>, for the address of the literal \<open>"hello"\<close>.\<close>

definition inspected :: "byte list \<Rightarrow> byte list \<Rightarrow> u64 \<Rightarrow> Value list c_res" where
  "inspected junk mem hello =
     bindE (make_str junk mem hello) (\<lambda>v.
       Inr [make_int junk 42, make_float junk 0x40091EB851EB851F, v])"

section \<open>The printer\<close>

definition as_int :: "Value \<Rightarrow> int c_res" where
  "as_int v = bindE (le64 (storage v) 0) (\<lambda>w. Inr (sint w))"

definition as_float :: "Value \<Rightarrow> u64 c_res" where
  "as_float v = le64 (storage v) 0"

definition as_str :: "Value \<Rightarrow> (u64 \<times> u64) c_res" where
  "as_str v = bindE (le64 (storage v) 0) (\<lambda>p. bindE (le64 (storage v) 8) (\<lambda>l. Inr (p, l)))"

type_synonym pystr = "nat list"

definition pystr_of :: "string \<Rightarrow> pystr" where
  "pystr_of cs = map of_char cs"

text \<open>
  \<open>to_string\<close>: \<open>g5\<close> is Python's \<open>.5g\<close> format of a double.  \<open>ptr.string(length=length)\<close> reads \<open>length\<close>
  bytes, where reading outside the memory of the process raises \<open>gdb.MemoryError\<close>, and decodes them
  strictly in the target charset, where bytes that do not decode raise \<open>UnicodeDecodeError\<close>:
  \<open>decode\<close> gives \<open>None\<close>.
\<close>

definition to_string ::
    "(u64 \<Rightarrow> string) \<Rightarrow> (byte list \<Rightarrow> pystr option) \<Rightarrow> byte list \<Rightarrow> Value \<Rightarrow> pystr c_res" where
  "to_string g5 decode mem v =
     (if vkind v = 0 then bindE (as_int v) (\<lambda>n. Inr (pystr_of (''Value(int, '' @ fmt_d n @ '')'')))
      else if vkind v = 1 then bindE (as_float v) (\<lambda>d. Inr (pystr_of (''Value(float, '' @ g5 d @ '')'')))
      else if vkind v = 2 then
        bindE (as_str v) (\<lambda>(p, l).
        bindE (rd_bytes mem (unat p) (unat l)) (\<lambda>bs.
          case decode bs of
            None \<Rightarrow> Inl DecodeError
          | Some txt \<Rightarrow> Inr (pystr_of (''Value(str, '' @ [CHR 0x22]) @ txt @ pystr_of ([CHR 0x22] @ '')''))))
      else Inr (pystr_of (''Value(UNKNOWN kind='' @ fmt_u (unat (vkind v)) @ '')'')))"

section \<open>UTF-8\<close>

text \<open>
  The strict decoder of RFC 3629, for charset \<open>UTF-8\<close>: overlong forms, surrogates and code points
  above \<open>0x10FFFF\<close> are refused.
\<close>

definition cont :: "nat \<Rightarrow> bool" where
  "cont b \<longleftrightarrow> 0x80 \<le> b \<and> b < 0xC0"

fun utf8_points :: "nat list \<Rightarrow> pystr option" where
  "utf8_points [] = Some []"
| "utf8_points (b # bs) =
     (if b < 0x80 then map_option (Cons b) (utf8_points bs)
      else case bs of
        [] \<Rightarrow> None
      | c1 # bs1 \<Rightarrow>
        if \<not> cont c1 \<or> b < 0xC2 then None
        else if b < 0xE0 then map_option (Cons ((b - 0xC0) * 64 + (c1 - 0x80))) (utf8_points bs1)
        else case bs1 of
          [] \<Rightarrow> None
        | c2 # bs2 \<Rightarrow>
          if \<not> cont c2 then None
          else if b < 0xF0 then
            let n = (b - 0xE0) * 4096 + (c1 - 0x80) * 64 + (c2 - 0x80)
            in if n < 0x800 \<or> 0xD800 \<le> n \<and> n < 0xE000 then None else map_option (Cons n) (utf8_points bs2)
          else case bs2 of
            [] \<Rightarrow> None
          | c3 # bs3 \<Rightarrow>
            let n = (b - 0xF0) * 262144 + (c1 - 0x80) * 4096 + (c2 - 0x80) * 64 + (c3 - 0x80)
            in if \<not> cont c3 \<or> n < 0x10000 \<or> 0x10FFFF < n then None else map_option (Cons n) (utf8_points bs3))"

definition utf8_decode :: "byte list \<Rightarrow> pystr option" where
  "utf8_decode bs = utf8_points (map unat bs)"

lemma utf8_points_ascii: "\<forall>b \<in> set bs. b < 0x80 \<Longrightarrow> utf8_points bs = Some bs"
  by (induction bs) auto

text \<open>ASCII text is shown as it is.\<close>

lemma utf8_ascii:
  assumes "\<forall>c \<in> set cs. of_char c < (0x80 :: nat)"
  shows "utf8_decode (bytes_of cs) = Some (pystr_of cs)"
proof -
  have "map unat (bytes_of cs) = (map of_char cs :: nat list)"
    by (simp add: bytes_of_def unat_of_char)
  with assms show ?thesis
    using utf8_points_ascii [of "map of_char cs"] by (simp add: utf8_decode_def pystr_of_def)
qed

section \<open>Correctness\<close>

lemma read_first:
  "length junk = 16 \<Longrightarrow> le64 (put_first w junk) 0 = Inr w"
  using le64.dec_enc [of "[]" w "drop 8 junk"] by (simp add: put_first_def)

lemma read_str:
  assumes "length junk = 16"
  shows "le64 (put_second l (put_first p junk)) 0 = Inr p" "le64 (put_second l (put_first p junk)) 8 = Inr l"
  using le64.dec_enc [of "[]" p "le_bytes 8 l"] le64.dec_enc [of "le_bytes 8 p" l "[]"] assms
  by (simp_all add: put_first_def put_second_def)

lemma printed_string:
  assumes "length junk = 16" "length mem < 2 ^ 64" "cstr mem (unat p) = Inr bs"
  shows "bindE (make_str junk mem p) (to_string g5 decode mem) =
    (case decode bs of
       None \<Rightarrow> Inl DecodeError
     | Some txt \<Rightarrow> Inr (pystr_of (''Value(str, '' @ [CHR 0x22]) @ txt @ pystr_of ([CHR 0x22] @ '')'')))"
proof -
  obtain rest where rest: "drop (unat p) mem = bs @ 0 # rest"
    using until_nul_Inr assms(3) unfolding cstr_def by blast
  have len: "unat p + length bs < length mem"
    using arg_cong [OF rest, of length] by simp
  then have "unat (of_nat (length bs) :: u64) = length bs" using assms(2) by (simp add: unat_of_nat)
  then have "rd_bytes mem (unat p) (unat (of_nat (length bs) :: u64)) = Inr bs"
    using len rest by (simp add: rd_bytes_def)
  then show ?thesis
    using assms by (simp add: make_str_def to_string_def as_str_def read_str)
qed

text \<open>
  C31: The printer shows the active member.  Whatever the bytes of the union that the constructor
  does not write, printing the result of \<open>make_int\<close> or \<open>make_float\<close> gives the signed integer or the
  formatted double.  For the result of \<open>make_str\<close> exactly the bytes up to the terminator of the
  string are decoded, in whatever charset: if they decode, the text is shown in quotes, and if they do
  not, the printer fails with a decoding error and shows nothing.
\<close>

theorem value_printer_roundtrip:
  assumes "length junk = 16" "length mem < 2 ^ 64" "cstr mem (unat p) = Inr bs"
  shows "to_string g5 decode mem (make_int junk n) = Inr (pystr_of (''Value(int, '' @ fmt_d (sint n) @ '')'')) \<and>
    to_string g5 decode mem (make_float junk d) = Inr (pystr_of (''Value(float, '' @ g5 d @ '')'')) \<and>
    bindE (make_str junk mem p) (to_string g5 decode mem) =
      (case decode bs of
         None \<Rightarrow> Inl DecodeError
       | Some txt \<Rightarrow> Inr (pystr_of (''Value(str, '' @ [CHR 0x22]) @ txt @ pystr_of ([CHR 0x22] @ '')'')))"
proof (intro conjI)
  show "to_string g5 decode mem (make_int junk n) = Inr (pystr_of (''Value(int, '' @ fmt_d (sint n) @ '')''))"
    using assms(1) by (simp add: to_string_def make_int_def as_int_def read_first)
  show "to_string g5 decode mem (make_float junk d) = Inr (pystr_of (''Value(float, '' @ g5 d @ '')''))"
    using assms(1) by (simp add: to_string_def make_float_def as_float_def read_first)
  show "bindE (make_str junk mem p) (to_string g5 decode mem) =
      (case decode bs of
         None \<Rightarrow> Inl DecodeError
       | Some txt \<Rightarrow> Inr (pystr_of (''Value(str, '' @ [CHR 0x22]) @ txt @ pystr_of ([CHR 0x22] @ '')'')))"
    using assms by (rule printed_string)
qed

text \<open>With UTF-8: the text \<open>hello\<close>, and a string whose bytes are \<open>0xE9 0x21\<close>, Latin-1 text.\<close>

theorem value_printer_roundtrip_witness:
  "to_string (\<lambda>_. ''3.14'') utf8_decode (bytes_of ''hello'' @ [0]) (make_int (replicate 16 0xCC) (- 42)) =
     Inr (pystr_of ''Value(int, -42)'') \<and>
   bindE (make_str (replicate 16 0xCC) (bytes_of ''hello'' @ [0]) 0)
     (to_string (\<lambda>_. ''3.14'') utf8_decode (bytes_of ''hello'' @ [0])) =
     Inr (pystr_of (''Value(str, '' @ [CHR 0x22] @ ''hello'' @ [CHR 0x22] @ '')'')) \<and>
   bindE (make_str (replicate 16 0xCC) [0xE9, 0x21, 0] 0)
     (to_string (\<lambda>_. ''3.14'') utf8_decode [0xE9, 0x21, 0]) = Inl DecodeError"
proof -
  have hello: "cstr (bytes_of ''hello'' @ [0]) (unat (0 :: u64)) = Inr (bytes_of ''hello'')"
    by (simp add: cstr_def bytes_of_def)
  have latin: "cstr [0xE9, 0x21, 0] (unat (0 :: u64)) = Inr [0xE9, 0x21]" by (simp add: cstr_def)
  have ok: "utf8_decode (bytes_of ''hello'') = Some (pystr_of ''hello'')" by (rule utf8_ascii) simp
  have bad: "utf8_decode [0xE9, 0x21] = None" by (simp add: utf8_decode_def cont_def)
  from value_printer_roundtrip [OF _ _ hello, of "replicate 16 0xCC" "\<lambda>_. ''3.14''" utf8_decode "- 42" 0]
    value_printer_roundtrip [OF _ _ latin, of "replicate 16 0xCC" "\<lambda>_. ''3.14''" utf8_decode 0 0]
  show ?thesis by (simp add: fmt_eval ok bad pystr_of_def)
qed

text \<open>
  Stopping at \<open>inspect\<close> in \<open>main\<close> shows the three lines the challenge asks for: the integer 42,
  the double with its \<open>.5g\<close> format, and the string \<open>hello\<close> in quotes.
\<close>

theorem inspected_display:
  assumes "length junk = 16" "length mem < 2 ^ 64" "cstr mem (unat hello) = Inr (bytes_of ''hello'')"
    and "g5 0x40091EB851EB851F = ''3.14''"
  shows "bindE (inspected junk mem hello) (mapE (to_string g5 utf8_decode mem)) =
    Inr (map pystr_of [''Value(int, 42)'', ''Value(float, 3.14)'',
      ''Value(str, '' @ [CHR 0x22] @ ''hello'' @ [CHR 0x22] @ '')''])"
proof -
  have "utf8_decode (bytes_of ''hello'') = Some (pystr_of ''hello'')" by (rule utf8_ascii) simp
  then obtain v where v: "make_str junk mem hello = Inr v" "to_string g5 utf8_decode mem v =
      Inr (pystr_of (''Value(str, '' @ [CHR 0x22] @ ''hello'' @ [CHR 0x22] @ '')''))"
    using printed_string [OF assms(1-3), of g5 utf8_decode] by (auto simp: bindE_Inr_iff pystr_of_def)
  have "to_string g5 utf8_decode mem (make_int junk 42) = Inr (pystr_of ''Value(int, 42)'')"
    using assms(1) by (simp add: to_string_def make_int_def as_int_def read_first fmt_eval)
  moreover have "to_string g5 utf8_decode mem (make_float junk 0x40091EB851EB851F) =
      Inr (pystr_of ''Value(float, 3.14)'')"
    using assms(1,4) by (simp add: to_string_def make_float_def as_float_def read_first)
  ultimately show ?thesis using v by (simp add: inspected_def)
qed

theorem inspected_display_witness:
  "bindE (inspected (replicate 16 0) ([7, 7] @ bytes_of ''hello'' @ [0]) 2)
     (mapE (to_string (\<lambda>_. ''3.14'') utf8_decode ([7, 7] @ bytes_of ''hello'' @ [0]))) =
    Inr (map pystr_of [''Value(int, 42)'', ''Value(float, 3.14)'',
      ''Value(str, '' @ [CHR 0x22] @ ''hello'' @ [CHR 0x22] @ '')''])"
  by (rule inspected_display) (simp_all add: cstr_def bytes_of_def)

end
