(* ===== verification/Ring_Buffer.thy ===== *)
theory Ring_Buffer
  imports Printf
begin

text \<open>
  The generic ring buffer of \<^verbatim>\<open>13-heap_ring_buffer/src/lib.rs\<close>.

  A slot is \<open>None\<close> when it holds no live value: never written, or its value moved out.  Reading or
  dropping such a slot is undefined behaviour in Rust and an error here, so the unsafe blocks are
  checked.  The indices are natural numbers: the layout check of \<open>new\<close> keeps the capacity below
  \<open>2\<^sup>6\<^sup>3\<close>, so the sums the code forms fit a \<open>usize\<close>.
\<close>

section \<open>Model\<close>

datatype ring_error =
    Panic string        \<comment> \<open>a panic with its message (a short name for a failed \<open>unwrap\<close> or \<open>assert!\<close>)\<close>
  | Uninitialised       \<comment> \<open>\<open>assume_init\<close> or a drop of a slot without a live value\<close>
  | Zero_size_alloc     \<comment> \<open>\<open>alloc\<close> with a layout of size zero\<close>
  | Bad_index           \<comment> \<open>a pointer outside the allocation\<close>

record 'a RingBuffer =
  buf :: "'a option list"
  cap :: nat
  head :: nat
  tail :: nat
  len :: nat

text \<open>\<open>elem\<close> is the size of the element type in bytes, \<open>ok\<close> whether the allocator succeeds.\<close>

definition ring_new :: "nat \<Rightarrow> bool \<Rightarrow> nat \<Rightarrow> ring_error + 'a RingBuffer" where
  "ring_new elem ok capacity =
     (if capacity = 0 then Inl (Panic (''Capacity cannot be zero'' @ [CHR 0x0A]))
      else if 2 ^ 63 \<le> capacity * elem then Inl (Panic ''launch overflow: LayoutError'')
      else if elem = 0 then Inl Zero_size_alloc
      else if \<not> ok then Inl (Panic ''NotNull new allocation failed'')
      else Inr \<lparr>buf = replicate capacity None, cap = capacity, head = 0, tail = 0, len = 0\<rparr>)"

definition is_empty :: "'a RingBuffer \<Rightarrow> bool" where "is_empty r \<longleftrightarrow> len r = 0"
definition is_full :: "'a RingBuffer \<Rightarrow> bool" where "is_full r \<longleftrightarrow> len r = cap r"

text \<open>The first component is the \<open>Result\<close>: the rejected value, or nothing.\<close>

definition ring_push :: "'a \<Rightarrow> 'a RingBuffer \<Rightarrow> ring_error + ('a option \<times> 'a RingBuffer)" where
  "ring_push val r =
     (if is_full r then Inr (Some val, r)
      else if length (buf r) \<le> head r then Inl Bad_index
      else Inr (None, r\<lparr>buf := (buf r)[head r := Some val], head := (head r + 1) mod cap r, len := len r + 1\<rparr>))"

definition ring_pop :: "'a RingBuffer \<Rightarrow> ring_error + ('a option \<times> 'a RingBuffer)" where
  "ring_pop r =
     (if is_empty r then Inr (None, r)
      else if length (buf r) \<le> tail r then Inl Bad_index
      else
       (case buf r ! tail r of
          None \<Rightarrow> Inl Uninitialised
        | Some val \<Rightarrow>
            Inr (Some val, r\<lparr>buf := (buf r)[tail r := None], tail := (tail r + 1) mod cap r, len := len r - 1\<rparr>)))"

text \<open>\<open>drop\<close>: the values dropped, in order; the memory is released afterwards.\<close>

definition drop_slot :: "'a RingBuffer \<Rightarrow> nat \<Rightarrow> 'a list \<times> 'a option list \<Rightarrow> ring_error + ('a list \<times> 'a option list)" where
  "drop_slot r i s =
     (let idx = (tail r + i) mod cap r in
      if length (snd s) \<le> idx then Inl Bad_index
      else case snd s ! idx of
        None \<Rightarrow> Inl Uninitialised
      | Some v \<Rightarrow> Inr (fst s @ [v], (snd s)[idx := None]))"

definition ring_drop :: "'a RingBuffer \<Rightarrow> ring_error + ('a list \<times> 'a option list)" where
  "ring_drop r = foldE (drop_slot r) [0..<len r] ([], buf r)"

text \<open>\<open>main\<close>, for strings; \<open>{:?}\<close> shows an option with its string in quotes.\<close>

definition push_unwrap :: "'a \<Rightarrow> 'a RingBuffer \<Rightarrow> ring_error + 'a RingBuffer" where
  "push_unwrap v r = bindE (ring_push v r) (\<lambda>(e, r'). case e of None \<Rightarrow> Inr r' | Some _ \<Rightarrow> Inl (Panic ''unwrap''))"

definition debug_opt :: "string option \<Rightarrow> string" where
  "debug_opt x = (case x of None \<Rightarrow> ''None'' | Some s \<Rightarrow> ''Some('' @ [CHR 0x22] @ s @ [CHR 0x22] @ '')'')"

lemma ring_pop_shrinks: "ring_pop r = Inr (Some v, r') \<Longrightarrow> len r' < len r"
  by (auto simp: ring_pop_def is_empty_def split: if_splits option.splits)

function pop_all :: "'a RingBuffer \<Rightarrow> ring_error + ('a list \<times> 'a RingBuffer)" where
  "pop_all r =
     (case ring_pop r of
        Inl e \<Rightarrow> Inl e
      | Inr (None, r') \<Rightarrow> Inr ([], r')
      | Inr (Some v, r') \<Rightarrow> bindE (pop_all r') (\<lambda>(vs, r''). Inr (v # vs, r'')))"
  by pat_completeness auto
termination by (relation "measure len") (auto dest: ring_pop_shrinks)

declare pop_all.simps [simp del]

definition ring_main :: "bool \<Rightarrow> ring_error + (string list \<times> string list)" where
  "ring_main ok =
     bindE (ring_new 24 ok 4) (\<lambda>rb.
     bindE (push_unwrap ''alpha'' rb) (\<lambda>rb.
     bindE (push_unwrap ''beta'' rb) (\<lambda>rb.
     bindE (push_unwrap ''gamma'' rb) (\<lambda>rb.
     bindE (ring_pop rb) (\<lambda>(x1, rb).
     bindE (ring_pop rb) (\<lambda>(x2, rb).
     bindE (push_unwrap ''delta'' rb) (\<lambda>rb.
     bindE (push_unwrap ''epsilon'' rb) (\<lambda>rb.
     bindE (push_unwrap ''zeta'' rb) (\<lambda>rb.
     bindE (ring_push ''omega'' rb) (\<lambda>(e, rb).
     if e = None then Inl (Panic ''assertion failed'')
     else
     bindE (pop_all rb) (\<lambda>(ss, rb).
     bindE (ring_pop rb) (\<lambda>(x3, rb).
     bindE (ring_drop rb) (\<lambda>(dropped, _).
       Inr ([debug_opt x1, debug_opt x2] @ ss @ [debug_opt x3], dropped))))))))))))))"

section \<open>Bounded queues\<close>

text \<open>The interface: a representation of lists of at most \<open>bound\<close> elements, oldest first.\<close>

datatype 'a queue_op = Push 'a | Pop

fun queue_spec :: "nat \<Rightarrow> 'a queue_op list \<Rightarrow> 'a list \<Rightarrow> 'a option list \<times> 'a list" where
  "queue_spec n [] q = ([], q)"
| "queue_spec n (Push v # ops) q =
     (if length q = n then let (rs, q') = queue_spec n ops q in (Some v # rs, q')
      else let (rs, q') = queue_spec n ops (q @ [v]) in (None # rs, q'))"
| "queue_spec n (Pop # ops) q =
     (case q of
        [] \<Rightarrow> let (rs, q') = queue_spec n ops q in (None # rs, q')
      | v # q1 \<Rightarrow> let (rs, q') = queue_spec n ops q1 in (Some v # rs, q'))"

fun run_ops ::
    "('a \<Rightarrow> 'q \<Rightarrow> 'e + ('a option \<times> 'q)) \<Rightarrow> ('q \<Rightarrow> 'e + ('a option \<times> 'q)) \<Rightarrow>
      'a queue_op list \<Rightarrow> 'q \<Rightarrow> 'e + ('a option list \<times> 'q)" where
  "run_ops psh pp [] q = Inr ([], q)"
| "run_ops psh pp (op # ops) q =
     bindE (case op of Push v \<Rightarrow> psh v q | Pop \<Rightarrow> pp q) (\<lambda>(r, q1).
       bindE (run_ops psh pp ops q1) (\<lambda>(rs, q2). Inr (r # rs, q2)))"

locale bounded_queue =
  fixes rep :: "nat \<Rightarrow> 'a list \<Rightarrow> 'q \<Rightarrow> bool"
    and psh :: "'a \<Rightarrow> 'q \<Rightarrow> 'e + ('a option \<times> 'q)" and pp :: "'q \<Rightarrow> 'e + ('a option \<times> 'q)"
  assumes push_full: "rep n xs q \<Longrightarrow> length xs = n \<Longrightarrow> psh v q = Inr (Some v, q)"
    and push_room: "rep n xs q \<Longrightarrow> length xs < n \<Longrightarrow> \<exists>q'. psh v q = Inr (None, q') \<and> rep n (xs @ [v]) q'"
    and pop_empty: "rep n [] q \<Longrightarrow> pp q = Inr (None, q)"
    and pop_some: "rep n (x # xs) q \<Longrightarrow> \<exists>q'. pp q = Inr (Some x, q') \<and> rep n xs q'"
    and bounded: "rep n xs q \<Longrightarrow> length xs \<le> n"
begin

lemma run_ops_spec:
  assumes "rep n xs q"
  shows "\<exists>q'. run_ops psh pp ops q = Inr (fst (queue_spec n ops xs), q') \<and>
    rep n (snd (queue_spec n ops xs)) q'"
  using assms
proof (induction ops arbitrary: xs q)
  case (Cons op ops)
  show ?case
  proof (cases op)
    case (Push v)
    show ?thesis
    proof (cases "length xs = n")
      case True
      with Cons.IH [OF Cons.prems] push_full [OF Cons.prems True] Push show ?thesis
        by (auto simp: split_def Let_def)
    next
      case False
      with bounded [OF Cons.prems] have "length xs < n" by simp
      with push_room [OF Cons.prems] obtain q' where "psh v q = Inr (None, q')" "rep n (xs @ [v]) q'" by blast
      with Cons.IH [OF this(2)] Push False show ?thesis by (auto simp: split_def Let_def)
    qed
  next
    case Pop
    show ?thesis
    proof (cases xs)
      case Nil
      with Cons.IH [OF Cons.prems] pop_empty Cons.prems Pop show ?thesis by (auto simp: split_def Let_def)
    next
      case (Cons x xs')
      with pop_some Cons.prems obtain q' where "pp q = Inr (Some x, q')" "rep n xs' q'" by blast
      with Cons.IH [OF this(2)] Pop Cons show ?thesis by (auto simp: split_def Let_def)
    qed
  qed
qed simp

end

section \<open>The ring represents a queue\<close>

text \<open>
  The window of \<open>len\<close> slots from \<open>tail\<close>, modulo the capacity, holds the queue; every other slot
  is without a live value.
\<close>

definition ring_rep :: "nat \<Rightarrow> 'a list \<Rightarrow> 'a RingBuffer \<Rightarrow> bool" where
  "ring_rep n xs r \<longleftrightarrow> cap r = n \<and> 0 < n \<and> length (buf r) = n \<and> len r = length xs \<and> length xs \<le> n \<and>
     tail r < n \<and> head r = (tail r + length xs) mod n \<and>
     (\<forall>i < n. buf r ! ((tail r + i) mod n) = (if i < length xs then Some (xs ! i) else None))"

lemma window_mod: "t < n \<Longrightarrow> i < n \<Longrightarrow> (t + i) mod n = (if t + i < n then t + i else t + i - n)" for t i n :: nat
  by (simp add: mod_if)

lemma window_inj: "t < n \<Longrightarrow> i < n \<Longrightarrow> j < n \<Longrightarrow> (t + i) mod n = (t + j) mod n \<longleftrightarrow> i = j" for t i j n :: nat
  by (auto simp: window_mod split: if_splits)

lemma ring_push_room:
  assumes rep: "ring_rep n xs r" and room: "length xs < n"
  shows "\<exists>r'. ring_push v r = Inr (None, r') \<and> ring_rep n (xs @ [v]) r'"
proof -
  define r' where "r' = r\<lparr>buf := (buf r)[head r := Some v], head := (head r + 1) mod cap r, len := len r + 1\<rparr>"
  have h: "head r = (tail r + length xs) mod n" "tail r < n" "0 < n" "length (buf r) = n" "cap r = n" "len r = length xs"
    using rep by (simp_all add: ring_rep_def)
  have hn: "head r < n" using h by simp
  have "buf r' ! ((tail r + i) mod n) = (if i < length (xs @ [v]) then Some ((xs @ [v]) ! i) else None)"
    if "i < n" for i
  proof -
    have "(tail r + i) mod n = head r \<longleftrightarrow> i = length xs" using window_inj h(2) that room by (simp add: h(1))
    then show ?thesis
      using rep that hn h(4) by (auto simp: ring_rep_def r'_def nth_list_update nth_append less_Suc_eq)
  qed
  moreover have "head r' = (tail r' + length (xs @ [v])) mod n"
    using h by (simp add: r'_def mod_Suc_eq)
  ultimately have "ring_rep n (xs @ [v]) r'"
    using rep room by (simp add: ring_rep_def r'_def)
  moreover have "ring_push v r = Inr (None, r')"
    using h(4-6) hn room by (simp add: ring_push_def is_full_def r'_def)
  ultimately show ?thesis by blast
qed

lemma ring_pop_some:
  assumes rep: "ring_rep n (x # xs) r"
  shows "\<exists>r'. ring_pop r = Inr (Some x, r') \<and> ring_rep n xs r'"
proof -
  define r' where "r' = r\<lparr>buf := (buf r)[tail r := None], tail := (tail r + 1) mod cap r, len := len r - 1\<rparr>"
  have h: "head r = (tail r + length (x # xs)) mod n" "tail r < n" "0 < n" "length (buf r) = n" "cap r = n"
    "len r = length (x # xs)" "length (x # xs) \<le> n"
    using rep by (simp_all add: ring_rep_def)
  have slot: "buf r ! ((tail r + i) mod n) = (if i < length (x # xs) then Some ((x # xs) ! i) else None)"
    if "i < n" for i
    using rep that by (simp add: ring_rep_def)
  have first: "buf r ! tail r = Some x" using slot [of 0] h(2,3) by simp
  have "buf r' ! ((tail r' + i) mod n) = (if i < length xs then Some (xs ! i) else None)" if "i < n" for i
  proof (cases "Suc i < n")
    case True
    have "(tail r' + i) mod n = (tail r + Suc i) mod n" using h(5) by (simp add: r'_def mod_simps)
    moreover have "(tail r + Suc i) mod n \<noteq> tail r" using window_inj [OF h(2) True h(3)] h(2) by simp
    ultimately show ?thesis using slot [OF True] h(4) by (simp add: r'_def)
  next
    case False
    then have i: "Suc i = n" using that by simp
    have "(tail r' + i) mod n = (tail r + Suc i) mod n" using h(5) by (simp add: r'_def mod_simps)
    also have "\<dots> = tail r" using i h(2) by simp
    finally show ?thesis using h(2,4,7) i by (simp add: r'_def)
  qed
  moreover have "head r' = (tail r' + length xs) mod n"
    using h by (simp add: r'_def mod_simps)
  ultimately have "ring_rep n xs r'"
    using rep h by (simp add: ring_rep_def r'_def)
  moreover have "ring_pop r = Inr (Some x, r')"
    using h first by (simp add: ring_pop_def is_empty_def r'_def)
  ultimately show ?thesis by blast
qed

interpretation ring: bounded_queue ring_rep ring_push ring_pop
proof unfold_locales
  show "ring_push v r = Inr (Some v, r)" if "ring_rep n xs r" "length xs = n" for n and xs :: "'a list" and r v
    using that by (simp add: ring_rep_def ring_push_def is_full_def)
  show "ring_pop r = Inr (None, r)" if "ring_rep n [] r" for n and r :: "'a RingBuffer"
    using that by (simp add: ring_rep_def ring_pop_def is_empty_def)
  show "length xs \<le> n" if "ring_rep n xs r" for n and xs :: "'a list" and r
    using that by (simp add: ring_rep_def)
qed (simp_all add: ring_push_room ring_pop_some)

section \<open>Dropping\<close>

lemma window_onto: "t < n \<Longrightarrow> j < n \<Longrightarrow> \<exists>i < n. (t + i) mod n = j" for t j n :: nat
proof (cases "t \<le> j")
  case True
  moreover assume "t < n" "j < n"
  ultimately show ?thesis by (intro exI [of _ "j - t"]) simp
next
  case False
  moreover assume "t < n" "j < n"
  ultimately show ?thesis by (intro exI [of _ "j + n - t"]) simp
qed

lemma drop_slots:
  assumes rep: "ring_rep n xs r" and k: "k \<le> length xs" "length s = n"
    and s: "\<forall>i < n. s ! ((tail r + i) mod n) = (if k \<le> i \<and> i < length xs then Some (xs ! i) else None)"
  shows "foldE (drop_slot r) [k..<length xs] (take k xs, s) = Inr (xs, replicate n None)"
  using k s
proof (induction "length xs - k" arbitrary: k s)
  case 0
  then have "k = length xs" by simp
  moreover have "s ! j = None" if "j < n" for j
    using window_onto [of "tail r" n j] that 0 rep by (auto simp: ring_rep_def)
  ultimately show ?case using 0 by (auto intro: nth_equalityI)
next
  case (Suc d)
  have h: "tail r < n" "0 < n" "cap r = n" "length xs \<le> n" using rep by (simp_all add: ring_rep_def)
  have k: "k < length xs" "k < n" using Suc h by auto
  let ?idx = "(tail r + k) mod n"
  have idx: "?idx < n" using h by simp
  have "drop_slot r k (take k xs, s) = Inr (take (Suc k) xs, s[?idx := None])"
    using Suc.prems k idx by (simp add: drop_slot_def Let_def h(3) take_Suc_conv_app_nth not_le)
  moreover have "s[?idx := None] ! ((tail r + i) mod n) =
      (if Suc k \<le> i \<and> i < length xs then Some (xs ! i) else None)" if "i < n" for i
    using Suc.prems that window_inj [OF h(1) k(2) that] idx by (auto simp: nth_list_update)
  ultimately show ?case
    using Suc.hyps(1) [of "Suc k" "s[?idx := None]"] Suc.hyps(2) Suc.prems(2) k by (simp add: upt_conv_Cons)
qed

lemma ring_drop_rep: "ring_rep n xs r \<Longrightarrow> ring_drop r = Inr (xs, replicate n None)"
  using drop_slots [of n xs r 0 "buf r"] by (simp add: ring_drop_def ring_rep_def)

lemma ring_new_rep:
  assumes "0 < n" "n * elem < 2 ^ 63" "0 < elem"
  shows "\<exists>r. ring_new elem True n = Inr r \<and> ring_rep n [] r"
  using assms by (simp add: ring_new_def ring_rep_def)

section \<open>Correctness of the ring buffer\<close>

text \<open>
  C11: The ring buffer is a bounded FIFO queue and owns its elements.  Any sequence of pushes and pops
  on a buffer of \<open>n\<close> slots returns exactly what a list of at most \<open>n\<close> elements would, a push on a full
  buffer giving the value back; no operation reads a slot without a live value or leaves the
  allocation.  Dropping the buffer afterwards drops each remaining element exactly once, oldest
  first, and leaves no live value behind.
\<close>

theorem ring_buffer_fifo:
  assumes "0 < n" "n * elem < 2 ^ 63" "0 < elem"
  shows "\<exists>r r'. ring_new elem True n = Inr r \<and>
    run_ops ring_push ring_pop ops r = Inr (fst (queue_spec n ops []), r') \<and>
    ring_drop r' = Inr (snd (queue_spec n ops []), replicate n None)"
proof -
  obtain r where r: "ring_new elem True n = Inr (r :: 'a RingBuffer)" "ring_rep n [] r"
    using ring_new_rep [OF assms] by blast
  then obtain r' where "run_ops ring_push ring_pop ops r = Inr (fst (queue_spec n ops []), r')"
    "ring_rep n (snd (queue_spec n ops [])) r'"
    using ring.run_ops_spec [OF r(2)] by blast
  with r ring_drop_rep show ?thesis by blast
qed

theorem ring_buffer_fifo_witness:
  "\<exists>r r'. ring_new 8 True 2 = Inr r \<and>
    run_ops ring_push ring_pop [Push (1 :: int), Push 2, Push 3, Pop, Push 4] r =
      Inr ([None, None, Some 3, Some 1, None], r') \<and>
    ring_drop r' = Inr ([2, 4], replicate 2 None)"
  using ring_buffer_fifo [of 2 8 "[Push (1 :: int), Push 2, Push 3, Pop, Push 4]"] by simp

text \<open>
  \<open>main\<close> runs without panic and prints what its comments announce: the two oldest strings,
  then, after the rejected push, the remaining four in order and \<open>None\<close>; nothing is left to drop.
\<close>

theorem ring_main_output:
  "ring_main True = Inr ([''Some('' @ [CHR 0x22] @ ''alpha'' @ [CHR 0x22] @ '')'',
     ''Some('' @ [CHR 0x22] @ ''beta'' @ [CHR 0x22] @ '')'',
     ''gamma'', ''delta'', ''epsilon'', ''zeta'', ''None''], [])"
proof -
  have new: "ring_new 24 True 4 = Inr \<lparr>buf = [None, None, None, None], cap = 4, head = 0, tail = 0, len = 0\<rparr>"
    by (simp add: ring_new_def) (simp add: numeral_eq_Suc)
  show ?thesis unfolding ring_main_def new bindE_simps by code_simp
qed

end
