(* ===== verification/Lsm_Tree.thy ===== *)
theory Lsm_Tree
  imports Printf "HOL-Library.List_Lexorder" "HOL-Library.Char_ord" "HOL-Library.Multiset"
begin

text \<open>
  The storage engine of \<^verbatim>\<open>08-LSM_tree/main.cpp\<close>.

  The state of an \<open>LSMTree\<close> and the file system it writes to; the memtable, a \<open>std::map\<close>, is the
  list of its entries in key order.  A \<open>std::string\<close> is a character list, compared as
  \<open>std::less\<close> does.  A table file is a list of bytes, and reading it follows the stream: a read that
  finds too few bytes fails, and so does every later one.
\<close>

section \<open>Model\<close>

definition MEMTABLE_FLUSH_THRESHOLD :: nat where "MEMTABLE_FLUSH_THRESHOLD = 4"

text \<open>
  The sentinel is initialised from a string literal, so the constructor of \<open>std::string\<close> takes the
  characters up to the first NUL.
\<close>

definition TOMBSTONE :: string where
  "TOMBSTONE = takeWhile (\<lambda>c. c \<noteq> CHR 0x00) ([CHR 0x00] @ ''TOMBSTONE'' @ [CHR 0x00, CHR 0x00])"

type_synonym entry = "string \<times> string"

record lsm =
  memtable :: "entry list"
  dataDir :: string
  sstableCount :: nat
  sstablePaths :: "string list"
  disk :: "string \<Rightarrow> byte list option"
  writable :: "string \<Rightarrow> bool"

fun map_put :: "string \<Rightarrow> string \<Rightarrow> entry list \<Rightarrow> entry list" where
  "map_put k v [] = [(k, v)]"
| "map_put k v ((a, b) # xs) =
     (if k = a then (k, v) # xs else if k < a then (k, v) # (a, b) # xs else (a, b) # map_put k v xs)"

definition newest_first :: "string list \<Rightarrow> string list" where
  "newest_first ps = rev (sort ps)"

definition enc_entry :: "entry \<Rightarrow> byte list" where
  "enc_entry e =
     le_bytes 4 (of_nat (length (fst e)) :: u32) @ bytes_of (fst e) @
     le_bytes 4 (of_nat (length (snd e)) :: u32) @ bytes_of (snd e)"

definition writeSSTable :: "entry list \<Rightarrow> string \<Rightarrow> lsm \<Rightarrow> lsm" where
  "writeSSTable data path t =
     (if \<not> writable t path then t
      else t\<lparr>disk := (disk t)(path := Some (concat (map enc_entry data))),
             sstablePaths := newest_first (sstablePaths t @ [path]),
             sstableCount := sstableCount t + 1\<rparr>)"

definition sst_path :: "string \<Rightarrow> nat \<Rightarrow> string" where
  "sst_path dir n = dir @ ''/sstable_'' @ pad_left CHR ''0'' 4 (fmt_u n) @ ''.sst''"

definition lsm_flush :: "lsm \<Rightarrow> lsm" where
  "lsm_flush t = (writeSSTable (memtable t) (sst_path (dataDir t) (sstableCount t)) t)\<lparr>memtable := []\<rparr>"

definition maybeFlush :: "lsm \<Rightarrow> lsm" where
  "maybeFlush t = (if MEMTABLE_FLUSH_THRESHOLD \<le> length (memtable t) then lsm_flush t else t)"

definition lsm_put :: "string \<Rightarrow> string \<Rightarrow> lsm \<Rightarrow> lsm" where
  "lsm_put key val t = maybeFlush (t\<lparr>memtable := map_put key val (memtable t)\<rparr>)"

definition lsm_del :: "string \<Rightarrow> lsm \<Rightarrow> lsm" where
  "lsm_del key t = lsm_put key TOMBSTONE t"

text \<open>
  The read loop on the bytes left in the stream.  A key or a length that is cut off ends it; a value
  that is cut off is kept as far as it goes, the rest of its string being NULs.
\<close>

function read_entries :: "byte list \<Rightarrow> entry list" where
  "read_entries bs =
     (if length bs < 4 then []
      else let key_len = unat (le_of (take 4 bs) :: u32); bs1 = drop 4 bs in
        if length bs1 < key_len \<or> length bs1 - key_len < 4 then []
        else let key = text_of (take key_len bs1); bs2 = drop key_len bs1;
                 val_len = unat (le_of (take 4 bs2) :: u32); bs3 = drop 4 bs2 in
          if length bs3 < val_len
          then [(key, text_of (bs3 @ replicate (val_len - length bs3) 0))]
          else (key, text_of (take val_len bs3)) # read_entries (drop val_len bs3))"
  by pat_completeness auto
termination by (relation "measure length") auto

declare read_entries.simps [simp del]

definition readSSTable :: "lsm \<Rightarrow> string \<Rightarrow> entry list" where
  "readSSTable t path = (case disk t path of None \<Rightarrow> [] | Some bs \<Rightarrow> read_entries bs)"

fun find_entry :: "string \<Rightarrow> entry list \<Rightarrow> string option" where
  "find_entry key [] = None"
| "find_entry key (e # es) = (if key = fst e then Some (snd e) else find_entry key es)"

definition live_value :: "string \<Rightarrow> string option" where
  "live_value v = (if v = TOMBSTONE then None else Some v)"

fun search_tables :: "lsm \<Rightarrow> string \<Rightarrow> string list \<Rightarrow> string option" where
  "search_tables t key [] = None"
| "search_tables t key (path # ps) =
     (case find_entry key (readSSTable t path) of
        Some v \<Rightarrow> live_value v
      | None \<Rightarrow> search_tables t key ps)"

definition lsm_get :: "string \<Rightarrow> lsm \<Rightarrow> string option" where
  "lsm_get key t =
     (case map_of (memtable t) key of
        Some v \<Rightarrow> live_value v
      | None \<Rightarrow> search_tables t key (sstablePaths t))"

text \<open>
  The constructor: \<open>None\<close> when the directory had to be created, otherwise the names of the files in
  it, in any order.
\<close>

definition lsm_open :: "string \<Rightarrow> string list option \<Rightarrow> (string \<Rightarrow> byte list option) \<Rightarrow> (string \<Rightarrow> bool) \<Rightarrow> lsm" where
  "lsm_open dir listing d wrt =
     (case listing of
        None \<Rightarrow> \<lparr>memtable = [], dataDir = dir, sstableCount = 0, sstablePaths = [], disk = d, writable = wrt\<rparr>
      | Some names \<Rightarrow> \<lparr>memtable = [], dataDir = dir, sstableCount = length names,
          sstablePaths = newest_first (map (\<lambda>n. dir @ ''/'' @ n) names), disk = d, writable = wrt\<rparr>)"

text \<open>\<open>main\<close> on a fresh directory: the lines printed.\<close>

definition value_or :: "string option \<Rightarrow> string" where
  "value_or x = (case x of None \<Rightarrow> ''NOT FOUND'' | Some v \<Rightarrow> v)"

definition lsm_main :: "(string \<Rightarrow> byte list option) \<Rightarrow> (string \<Rightarrow> bool) \<Rightarrow> string list" where
  "lsm_main d wrt =
     (let t = lsm_open ''./lsm_data'' None d wrt;
          t = lsm_put ''apple'' ''fruit'' t;
          t = lsm_put ''banana'' ''yellow'' t;
          t = lsm_put ''cherry'' ''red'' t;
          t = lsm_put ''date'' ''sweet'' t;
          t = lsm_put ''elderberry'' ''dark'' t;
          t = lsm_put ''fig'' ''chewy'' t;
          t = lsm_put ''grape'' ''vine'' t;
          t = lsm_put ''apple'' ''v2'' t;
          t = lsm_del ''banana'' t
      in map (\<lambda>k. k @ '': '' @ value_or (lsm_get k t))
           [''apple'', ''banana'', ''cherry'', ''date'', ''elderberry'', ''missing''])"

section \<open>Table files\<close>

definition entry_fits :: "entry \<Rightarrow> bool" where
  "entry_fits e \<longleftrightarrow> length (fst e) < 2 ^ 32 \<and> length (snd e) < 2 ^ 32"

lemma le32_len: "n < 2 ^ 32 \<Longrightarrow> unat (le_of (le_bytes 4 (of_nat n :: u32)) :: u32) = n"
  by (simp add: le_roundtrip unat_of_nat)

text \<open>What \<open>writeSSTable\<close> writes, \<open>readSSTable\<close> reads back.\<close>

lemma read_entries_Cons:
  assumes "entry_fits e"
  shows "read_entries (enc_entry e @ bs) = e # read_entries bs"
proof -
  obtain k v where e: "e = (k, v)" by fastforce
  have fits: "length k < 2 ^ 32" "length v < 2 ^ 32" using assms by (simp_all add: entry_fits_def e)
  show ?thesis
    by (subst read_entries.simps)
       (simp add: enc_entry_def e Let_def le32_len [OF fits(1)] le32_len [OF fits(2)])
qed

lemma read_entries_table:
  "list_all entry_fits es \<Longrightarrow> read_entries (concat (map enc_entry es)) = es"
proof (induction es)
  case Nil
  show ?case by (simp add: read_entries.simps)
next
  case (Cons e es)
  then show ?case by (simp add: read_entries_Cons)
qed

lemma find_entry_map_of: "find_entry key es = map_of es key"
  by (induction es) auto

lemma map_of_map_put [simp]: "map_of (map_put k v xs) = (map_of xs)(k \<mapsto> v)"
  by (induction k v xs rule: map_put.induct) auto

lemma map_put_fits: "list_all entry_fits xs \<Longrightarrow> entry_fits (k, v) \<Longrightarrow> list_all entry_fits (map_put k v xs)"
  by (induction k v xs rule: map_put.induct) auto

lemma map_put_keys: "fst ` set (map_put k v xs) = insert k (fst ` set xs)"
  by (induction k v xs rule: map_put.induct) auto

lemma map_put_sorted:
  "sorted_wrt (<) (map fst xs) \<Longrightarrow> sorted_wrt (<) (map fst (map_put k v xs))"
proof (induction k v xs rule: map_put.induct)
  case (2 k v a b xs)
  consider "k = a" | "k < a" | "a < k" by (rule linorder_cases)
  then show ?case
  proof cases
    case 2
    with "2.prems" show ?thesis by (auto dest: order.strict_trans)
  next
    case 3
    with "2.prems" "2.IH" map_put_keys [of k v xs] show ?thesis by auto
  qed (use "2.prems" in simp)
qed simp

section \<open>Names of table files\<close>

lemma append_less [simp]: "p @ x < p @ y \<longleftrightarrow> x < (y :: string)"
  by (induction p) auto

lemma to_digits_10:
  "to_digits 10 n = (if n < 10 then [n] else to_digits 10 (n div 10) @ [n mod 10])"
  by (simp add: to_digits.simps [of 10 n])

lemma four_digits:
  assumes "n < 10000"
  shows "pad_left CHR ''0'' 4 (fmt_u n) =
    map (digit_char False) [n div 1000, n div 100 mod 10, n div 10 mod 10, n mod 10]"
proof -
  have d: "n div 10 div 10 = n div 100" "n div 100 div 10 = n div 1000" by simp_all
  have z: "digit_char False 0 = CHR ''0''" by (simp add: digit_char_eval)
  consider "n < 10" | "10 \<le> n" "n < 100" | "100 \<le> n" "n < 1000" | "1000 \<le> n" by linarith
  then show ?thesis
  proof cases
    case 1
    then have "to_digits 10 n = [n]" by (simp add: to_digits_10)
    then show ?thesis using 1 z by (simp add: fmt_u_def pad_left_def numeral_3_eq_3)
  next
    case 2
    then have "n div 10 < 10" by linarith
    with 2 have "to_digits 10 n = [n div 10, n mod 10]" by (simp add: to_digits_10 [of n] to_digits_10 [of "n div 10"])
    then show ?thesis using 2 z by (simp add: fmt_u_def pad_left_def numeral_2_eq_2)
  next
    case 3
    then have "n div 100 < 10" "10 \<le> n div 10" by linarith+
    with 3 have "to_digits 10 n = [n div 100, n div 10 mod 10, n mod 10]"
      by (simp add: to_digits_10 [of n] to_digits_10 [of "n div 10"] to_digits_10 [of "n div 100"] d)
    then show ?thesis using 3 z by (simp add: fmt_u_def pad_left_def)
  next
    case 4
    then have "n div 1000 < 10" "10 \<le> n div 100" "10 \<le> n div 10" using assms by linarith+
    with 4 have "to_digits 10 n = [n div 1000, n div 100 mod 10, n div 10 mod 10, n mod 10]"
      by (simp add: to_digits_10 [of n] to_digits_10 [of "n div 10"] to_digits_10 [of "n div 100"]
          to_digits_10 [of "n div 1000"] d)
    then show ?thesis by (simp add: fmt_u_def pad_left_def)
  qed
qed

lemma digit_char_less: "d < 10 \<Longrightarrow> e < 10 \<Longrightarrow> digit_char False d < digit_char False e \<longleftrightarrow> d < e"
  by (simp add: less_char_def of_char_digit_char)

lemma lex_step:
  fixes a b m r r' :: nat
  assumes "a * m + r < b * m + r'" "r < m" "r' < m"
  shows "a < b \<or> a = b \<and> r < r'"
proof (cases a b rule: linorder_cases)
  case greater
  then have "Suc b * m \<le> a * m" by (intro mult_le_mono1) simp
  with assms show ?thesis by simp
qed (use assms in auto)

lemma lex_digits:
  fixes a b c d a' b' c' d' :: nat
  assumes less: "a * 1000 + (b * 100 + (c * 10 + d)) < a' * 1000 + (b' * 100 + (c' * 10 + d'))"
    and dig: "b < 10" "c < 10" "d < 10" "b' < 10" "c' < 10" "d' < 10"
  shows "a < a' \<or> a = a' \<and> (b < b' \<or> b = b' \<and> (c < c' \<or> c = c' \<and> d < d'))"
proof -
  have "b * 100 + (c * 10 + d) < 1000" "b' * 100 + (c' * 10 + d') < 1000" "c * 10 + d < 100" "c' * 10 + d' < 100"
    using dig by linarith+
  with lex_step [of a 1000 _ a'] lex_step [of b 100 _ b'] lex_step [of c 10 d c' d'] less dig show ?thesis
    by blast
qed

lemma digits_of: "n div 1000 * 1000 + (n div 100 mod 10 * 100 + (n div 10 mod 10 * 10 + n mod 10)) = n" for n :: nat
proof -
  have "n div 10 div 10 = n div 100" "n div 100 div 10 = n div 1000" by simp_all
  with div_mult_mod_eq [of n 10] div_mult_mod_eq [of "n div 10" 10] div_mult_mod_eq [of "n div 100" 10]
  show ?thesis by linarith
qed

text \<open>Below ten thousand tables, the lexicographic order of the names is the order of creation.\<close>

lemma sst_path_less:
  assumes "i < j" "j < 10000"
  shows "sst_path dir i < sst_path dir j"
proof -
  have i: "i < 10000" using assms by simp
  have top: "n div 1000 < 10" if "n < 10000" for n :: nat using that by (simp add: less_mult_imp_div_less)
  have low: "m mod 10 < 10" for m :: nat by simp
  have "i div 1000 * 1000 + (i div 100 mod 10 * 100 + (i div 10 mod 10 * 10 + i mod 10)) <
      j div 1000 * 1000 + (j div 100 mod 10 * 100 + (j div 10 mod 10 * 10 + j mod 10))"
    unfolding digits_of by (rule assms(1))
  from lex_digits [OF this low low low low low low] show ?thesis
    unfolding sst_path_def four_digits [OF i] four_digits [OF assms(2)]
    by (simp add: digit_char_less top i assms(2)) metis
qed

lemma sst_path_inj: "i < 10000 \<Longrightarrow> j < 10000 \<Longrightarrow> sst_path dir i = sst_path dir j \<longleftrightarrow> i = j"
  by (metis linorder_neq_iff sst_path_less)

lemma sorted_sst_paths: "n \<le> 10000 \<Longrightarrow> sorted (map (sst_path dir) [0..<n])"
  by (simp add: sorted_iff_nth_mono_less less_imp_le sst_path_less)

lemma newest_first_paths:
  assumes "n \<le> 10000" "mset ps = mset (map (sst_path dir) [0..<n])"
  shows "newest_first ps = rev (map (sst_path dir) [0..<n])"
  using properties_for_sort [OF assms(2) [symmetric] sorted_sst_paths [OF assms(1)]]
  by (simp add: newest_first_def)

section \<open>The engine represents a map\<close>

text \<open>The tables of an engine, oldest first, and the raw contents: newer entries hide older ones.\<close>

definition merged :: "entry list list \<Rightarrow> string \<Rightarrow> string option" where
  "merged ts = fold (\<lambda>t m. m ++ map_of t) ts Map.empty"

lemma merged_append [simp]: "merged [] = Map.empty" "merged (ts @ [t]) = merged ts ++ map_of t"
  by (simp_all add: merged_def)

definition lsm_rep :: "entry list list \<Rightarrow> lsm \<Rightarrow> bool" where
  "lsm_rep ts t \<longleftrightarrow>
     length ts \<le> 10000 \<and> sstableCount t = length ts \<and>
     sstablePaths t = rev (map (sst_path (dataDir t)) [0..<length ts]) \<and>
     (\<forall>i < length ts. disk t (sst_path (dataDir t) i) = Some (concat (map enc_entry (ts ! i))) \<and>
        list_all entry_fits (ts ! i)) \<and>
     list_all entry_fits (memtable t) \<and> sorted_wrt (<) (map fst (memtable t)) \<and>
     length (memtable t) < MEMTABLE_FLUSH_THRESHOLD \<and> (\<forall>p. writable t p)"

lemma search_tables_rep:
  assumes "lsm_rep ts t" "n \<le> length ts"
  shows "search_tables t key (rev (map (sst_path (dataDir t)) [0..<n])) =
    Option.bind (merged (take n ts) key) live_value"
  using assms(2)
proof (induction n)
  case (Suc n)
  then have n: "n < length ts" by simp
  then have "readSSTable t (sst_path (dataDir t) n) = ts ! n"
    using assms(1) by (simp add: lsm_rep_def readSSTable_def read_entries_table)
  moreover have "merged (take (Suc n) ts) = merged (take n ts) ++ map_of (ts ! n)"
    using n by (simp add: take_Suc_conv_app_nth)
  ultimately show ?case
    using Suc by (simp add: find_entry_map_of map_add_def split: option.splits)
qed simp

lemma lsm_get_rep:
  assumes "lsm_rep ts t"
  shows "lsm_get key t = Option.bind ((merged ts ++ map_of (memtable t)) key) live_value"
  using assms search_tables_rep [OF assms, of "length ts"]
  by (simp add: lsm_get_def lsm_rep_def map_add_def split: option.splits)

lemma length_map_put: "length (map_put k v xs) \<le> Suc (length xs)"
  by (induction k v xs rule: map_put.induct) auto

lemma lsm_flush_rep:
  assumes rep: "lsm_rep ts (t\<lparr>memtable := []\<rparr>)" and mem: "list_all entry_fits (memtable t)"
    and room: "length ts < 10000"
  shows "lsm_rep (ts @ [memtable t]) (lsm_flush t)"
proof -
  let ?p = "sst_path (dataDir t)"
  have h: "sstableCount t = length ts" "sstablePaths t = rev (map ?p [0..<length ts])" "\<forall>p. writable t p"
    using rep by (simp_all add: lsm_rep_def)
  have "newest_first (sstablePaths t @ [?p (length ts)]) = rev (map ?p [0..<Suc (length ts)])"
    using room by (intro newest_first_paths) (simp_all add: h(2))
  moreover have "i < length ts \<Longrightarrow> ?p i \<noteq> ?p (length ts)" for i
    using room by (simp add: sst_path_inj)
  ultimately show ?thesis
    using rep mem room h
    by (auto simp: lsm_rep_def lsm_flush_def writeSSTable_def nth_append less_Suc_eq)
qed

text \<open>A write either stays in the memtable or, with the fourth key, becomes the newest table.\<close>

lemma lsm_put_cases:
  assumes rep: "lsm_rep ts t" and fits: "entry_fits (k, v)" and room: "length ts < 10000"
  obtains (flush) "length (map_put k v (memtable t)) = 4"
      "lsm_rep (ts @ [map_put k v (memtable t)]) (lsm_put k v t)" "memtable (lsm_put k v t) = []"
    | (keep) "length (map_put k v (memtable t)) < 4"
      "lsm_rep ts (lsm_put k v t)" "memtable (lsm_put k v t) = map_put k v (memtable t)"
proof -
  let ?t = "t\<lparr>memtable := map_put k v (memtable t)\<rparr>"
  have fit: "list_all entry_fits (memtable ?t)" and srt: "sorted_wrt (<) (map fst (memtable ?t))"
    using rep fits by (simp_all add: lsm_rep_def map_put_fits map_put_sorted)
  have base: "lsm_rep ts (?t\<lparr>memtable := []\<rparr>)"
    using rep by (simp add: lsm_rep_def MEMTABLE_FLUSH_THRESHOLD_def)
  show ?thesis
  proof (cases "MEMTABLE_FLUSH_THRESHOLD \<le> length (memtable ?t)")
    case True
    then have put: "lsm_put k v t = lsm_flush ?t" by (simp add: lsm_put_def maybeFlush_def)
    have "length (memtable ?t) = 4"
      using True rep length_map_put [of k v "memtable t"] by (simp add: lsm_rep_def MEMTABLE_FLUSH_THRESHOLD_def)
    moreover have "lsm_rep (ts @ [memtable ?t]) (lsm_flush ?t)" by (rule lsm_flush_rep [OF base fit room])
    moreover have "memtable (lsm_flush ?t) = []" by (simp add: lsm_flush_def)
    ultimately show ?thesis using flush by (simp add: put)
  next
    case False
    then have put: "lsm_put k v t = ?t" by (simp add: lsm_put_def maybeFlush_def)
    have "lsm_rep ts ?t" using rep fit srt False by (simp add: lsm_rep_def)
    then show ?thesis using keep False by (simp add: put MEMTABLE_FLUSH_THRESHOLD_def)
  qed
qed

section \<open>Key-value stores\<close>

text \<open>
  The specification, which knows nothing of the engine: a put of a non-empty value maps the key to
  it, a deletion removes the key.  Keys and values have to fit the 32-bit length fields.
\<close>

datatype kv_op = Put string string | Del string

fun op_fits :: "kv_op \<Rightarrow> bool" where
  "op_fits (Put k v) \<longleftrightarrow> length k < 2 ^ 32 \<and> length v < 2 ^ 32 \<and> v \<noteq> []"
| "op_fits (Del k) \<longleftrightarrow> length k < 2 ^ 32"

fun kv_spec :: "kv_op \<Rightarrow> (string \<Rightarrow> string option) \<Rightarrow> string \<Rightarrow> string option" where
  "kv_spec (Put k v) m = m(k \<mapsto> v)"
| "kv_spec (Del k) m = m(k := None)"

definition kv_run ::
    "(string \<Rightarrow> string \<Rightarrow> 's \<Rightarrow> 's) \<Rightarrow> (string \<Rightarrow> 's \<Rightarrow> 's) \<Rightarrow> kv_op list \<Rightarrow> 's \<Rightarrow> 's" where
  "kv_run put del ops s = fold (\<lambda>op s. case op of Put k v \<Rightarrow> put k v s | Del k \<Rightarrow> del k s) ops s"

text \<open>The interface: \<open>rep n m s\<close> says that \<open>s\<close> holds the map \<open>m\<close> and can take \<open>n\<close> more writes.\<close>

locale kv_store =
  fixes rep :: "nat \<Rightarrow> (string \<Rightarrow> string option) \<Rightarrow> 's \<Rightarrow> bool"
    and put :: "string \<Rightarrow> string \<Rightarrow> 's \<Rightarrow> 's" and del :: "string \<Rightarrow> 's \<Rightarrow> 's"
    and get :: "string \<Rightarrow> 's \<Rightarrow> string option"
  assumes put_law: "rep (Suc n) m s \<Longrightarrow> op_fits (Put k v) \<Longrightarrow> rep n (m(k \<mapsto> v)) (put k v s)"
    and del_law: "rep (Suc n) m s \<Longrightarrow> op_fits (Del k) \<Longrightarrow> rep n (m(k := None)) (del k s)"
    and get_law: "rep n m s \<Longrightarrow> get k s = m k"
begin

lemma kv_run_rep:
  assumes "rep (length ops + n) m s" "list_all op_fits ops"
  shows "rep n (fold kv_spec ops m) (kv_run put del ops s)"
  using assms
proof (induction ops arbitrary: m s)
  case (Cons op ops)
  then have "rep (length ops + n) (kv_spec op m) (case op of Put k v \<Rightarrow> put k v s | Del k \<Rightarrow> del k s)"
    by (cases op) (auto intro: put_law del_law)
  with Cons show ?case by (simp add: kv_run_def)
qed (simp add: kv_run_def)

lemma kv_run_get:
  assumes "rep (length ops) m s" "list_all op_fits ops"
  shows "get k (kv_run put del ops s) = fold kv_spec ops m k"
  using get_law [OF kv_run_rep [of ops 0 m s]] assms by simp

end

definition lsm_store :: "nat \<Rightarrow> (string \<Rightarrow> string option) \<Rightarrow> lsm \<Rightarrow> bool" where
  "lsm_store n m t \<longleftrightarrow> (\<exists>ts. lsm_rep ts t \<and> 4 * length ts + length (memtable t) + n < 40000 \<and>
     m = (\<lambda>k. Option.bind ((merged ts ++ map_of (memtable t)) k) live_value))"

lemma lsm_store_put:
  assumes "lsm_store (Suc n) m t" "entry_fits (k, v)"
  shows "lsm_store n (m(k := live_value v)) (lsm_put k v t)"
proof -
  obtain ts where ts: "lsm_rep ts t" "4 * length ts + length (memtable t) + Suc n < 40000"
    "m = (\<lambda>k. Option.bind ((merged ts ++ map_of (memtable t)) k) live_value)"
    using assms(1) by (auto simp: lsm_store_def)
  from ts(2) have "length ts < 10000" by simp
  with ts(1) assms(2) show ?thesis
  proof (cases rule: lsm_put_cases)
    case flush
    then show ?thesis
      using ts(2,3) length_map_put [of k v "memtable t"] unfolding lsm_store_def
      by (intro exI [of _ "ts @ [map_put k v (memtable t)]"]) auto
  next
    case keep
    then show ?thesis
      using ts(2,3) length_map_put [of k v "memtable t"] unfolding lsm_store_def
      by (intro exI [of _ ts]) auto
  qed
qed

text \<open>The literal starts with a NUL, so the marker is empty and no non-empty value collides with it.\<close>

lemma TOMBSTONE_empty: "TOMBSTONE = []"
  by (simp add: TOMBSTONE_def)

lemma live_value_eq: "live_value v = (if v = [] then None else Some v)"
  by (simp add: live_value_def TOMBSTONE_empty)

interpretation lsm: kv_store lsm_store lsm_put lsm_del lsm_get
proof unfold_locales
  show "lsm_store n (m(k \<mapsto> v)) (lsm_put k v t)" if "lsm_store (Suc n) m t" "op_fits (Put k v)" for n m t k v
    using lsm_store_put [of n m t k v] that by (simp add: entry_fits_def live_value_eq)
  show "lsm_store n (m(k := None)) (lsm_del k t)" if "lsm_store (Suc n) m t" "op_fits (Del k)" for n m t k
    using lsm_store_put [of n m t k TOMBSTONE] that
    by (simp add: lsm_del_def entry_fits_def TOMBSTONE_empty live_value_eq)
  show "lsm_get k t = m k" if "lsm_store n m t" for n m t k
    using that lsm_get_rep by (auto simp: lsm_store_def)
qed

text \<open>A run of the engine.\<close>

definition lsm_run :: "kv_op list \<Rightarrow> lsm \<Rightarrow> lsm" where
  "lsm_run = kv_run lsm_put lsm_del"

lemma lsm_open_store:
  "n < 40000 \<Longrightarrow> (\<And>p. wrt p) \<Longrightarrow> lsm_store n Map.empty (lsm_open dir None d wrt)"
  by (auto simp: lsm_store_def lsm_rep_def lsm_open_def MEMTABLE_FLUSH_THRESHOLD_def intro!: exI [of _ "[]"])

section \<open>What survives a restart\<close>

text \<open>
  The durable part of the store, as a specification: the map that a restart recovers, the map as it
  is now, and the keys written since the former was saved.  The fourth of these keys saves the map.
\<close>

type_synonym durable = "(string \<Rightarrow> string option) \<times> (string \<Rightarrow> string option) \<times> string set"

fun op_key :: "kv_op \<Rightarrow> string" where
  "op_key (Put k v) = k"
| "op_key (Del k) = k"

fun durable_step :: "kv_op \<Rightarrow> durable \<Rightarrow> durable" where
  "durable_step op (saved, now, keys) =
     (let now' = kv_spec op now; keys' = insert (op_key op) keys
      in if 4 \<le> card keys' then (now', now', {}) else (saved, now', keys'))"

definition durable_rel :: "durable \<Rightarrow> entry list list \<Rightarrow> lsm \<Rightarrow> bool" where
  "durable_rel = (\<lambda>(saved, now, keys) ts t. lsm_rep ts t \<and>
     saved = (\<lambda>k. Option.bind (merged ts k) live_value) \<and>
     now = (\<lambda>k. Option.bind ((merged ts ++ map_of (memtable t)) k) live_value) \<and>
     keys = fst ` set (memtable t))"

lemma card_keys: "sorted_wrt (<) (map fst xs) \<Longrightarrow> card (fst ` set xs) = length xs" for xs :: "entry list"
  using distinct_card [of "map fst xs"] by (simp add: strict_sorted_iff)

lemma durable_rel_put:
  assumes rel: "durable_rel D ts t" and op: "op_fits op" and room: "length ts < 10000"
    and e: "(k, v) = (case op of Put k v \<Rightarrow> (k, v) | Del k \<Rightarrow> (k, TOMBSTONE))"
  shows "\<exists>ts'. durable_rel (durable_step op D) ts' (lsm_put k v t) \<and>
    4 * length ts' + length (memtable (lsm_put k v t)) \<le> 4 * length ts + length (memtable t) + 1"
proof -
  obtain saved now keys where D: "D = (saved, now, keys)" by (cases D)
  have h: "lsm_rep ts t" "saved = (\<lambda>k. Option.bind (merged ts k) live_value)"
    "now = (\<lambda>k. Option.bind ((merged ts ++ map_of (memtable t)) k) live_value)" "keys = fst ` set (memtable t)"
    using rel by (simp_all add: D durable_rel_def)
  have fits: "entry_fits (k, v)" and key: "op_key op = k"
    and spec: "kv_spec op m = m(k := live_value v)" for m
    using op e by (cases op; simp add: entry_fits_def live_value_eq TOMBSTONE_empty)+
  let ?mem = "map_put k v (memtable t)"
  have now': "kv_spec op now = (\<lambda>x. Option.bind ((merged ts ++ map_of ?mem) x) live_value)"
    by (auto simp: spec h(3))
  have keys': "insert k keys = fst ` set ?mem" by (simp add: h(4) map_put_keys)
  have "sorted_wrt (<) (map fst ?mem)" using h(1) by (simp add: lsm_rep_def map_put_sorted)
  from card_keys [OF this] have card: "card (insert k keys) = length ?mem" by (simp add: keys')
  note len = length_map_put [of k v "memtable t"]
  from h(1) fits room show ?thesis
  proof (cases rule: lsm_put_cases)
    case flush
    then show ?thesis
      using len card now' by (intro exI [of _ "ts @ [?mem]"]) (simp add: D durable_rel_def key Let_def)
  next
    case keep
    then show ?thesis
      using len card now' keys' h(2) by (intro exI [of _ ts]) (simp add: D durable_rel_def key Let_def)
  qed
qed

lemma durable_run:
  assumes "list_all op_fits ops" "durable_rel D ts t" "4 * length ts + length (memtable t) + length ops < 40000"
  shows "\<exists>ts'. durable_rel (fold durable_step ops D) ts' (lsm_run ops t) \<and>
    4 * length ts' + length (memtable (lsm_run ops t)) \<le> 4 * length ts + length (memtable t) + length ops"
  using assms
proof (induction ops arbitrary: D ts t)
  case (Cons op ops)
  obtain k v where kv: "(k, v) = (case op of Put k v \<Rightarrow> (k, v) | Del k \<Rightarrow> (k, TOMBSTONE))"
    by (cases op) auto
  have run: "lsm_run (op # ops) t = lsm_run ops (lsm_put k v t)"
    using kv by (cases op) (simp_all add: lsm_run_def kv_run_def lsm_del_def)
  obtain ts' where ts': "durable_rel (durable_step op D) ts' (lsm_put k v t)"
    "4 * length ts' + length (memtable (lsm_put k v t)) \<le> 4 * length ts + length (memtable t) + 1"
    using durable_rel_put [OF Cons.prems(2) _ _ kv] Cons.prems(1,3) by auto
  then show ?case
    using Cons.IH [OF _ ts'(1)] Cons.prems(1,3) by (fastforce simp: run)
qed (auto simp: lsm_run_def kv_run_def)

lemma lsm_run_invariant:
  assumes "\<And>k v t. P t \<Longrightarrow> P (lsm_put k v t)"
  shows "P t \<Longrightarrow> P (lsm_run ops t)"
proof (induction ops arbitrary: t)
  case (Cons op ops)
  then show ?case by (cases op) (simp_all add: lsm_run_def kv_run_def lsm_del_def assms)
qed (simp add: lsm_run_def kv_run_def)

lemma lsm_run_dataDir: "dataDir (lsm_run ops t) = dataDir t"
  by (rule lsm_run_invariant [where P = "\<lambda>s. dataDir s = dataDir t"])
     (simp_all add: lsm_put_def maybeFlush_def lsm_flush_def writeSSTable_def)

text \<open>The engine writes its own table files only.\<close>

lemma lsm_run_frame:
  "(\<forall>p. p \<notin> set (sstablePaths t) \<longrightarrow> disk t p = d p) \<Longrightarrow>
   \<forall>p. p \<notin> set (sstablePaths (lsm_run ops t)) \<longrightarrow> disk (lsm_run ops t) p = d p"
  by (rule lsm_run_invariant)
     (simp_all add: lsm_put_def maybeFlush_def lsm_flush_def writeSSTable_def newest_first_def)

lemma listing_paths:
  assumes rep: "lsm_rep ts t" and fresh: "\<And>n. d (dataDir t @ ''/'' @ n) = None"
    and frame: "\<And>p. p \<notin> set (sstablePaths t) \<Longrightarrow> disk t p = d p"
    and names: "distinct names" "\<And>n. n \<in> set names \<longleftrightarrow> disk t (dataDir t @ ''/'' @ n) \<noteq> None"
  shows "mset (map (\<lambda>n. dataDir t @ ''/'' @ n) names) = mset (map (sst_path (dataDir t)) [0..<length ts])"
proof -
  let ?p = "sst_path (dataDir t)" and ?f = "\<lambda>n. dataDir t @ ''/'' @ n"
  have len: "length ts \<le> 10000" and paths: "set (sstablePaths t) = ?p ` {0..<length ts}"
    and some: "\<And>i. i < length ts \<Longrightarrow> disk t (?p i) \<noteq> None"
    using rep by (auto simp: lsm_rep_def)
  have inside: "\<exists>n. ?p i = ?f n" for i by (auto simp: sst_path_def)
  have "set (map ?f names) = set (map ?p [0..<length ts])"
  proof (intro equalityI subsetI)
    fix p assume "p \<in> set (map ?f names)"
    then have "disk t p \<noteq> None" "d p = None" using names(2) fresh by auto
    with frame [of p] paths show "p \<in> set (map ?p [0..<length ts])" by auto
  next
    fix p assume "p \<in> set (map ?p [0..<length ts])"
    then obtain i where i: "i < length ts" "p = ?p i" by auto
    from inside [of i] obtain n where n: "?p i = ?f n" by blast
    with some [OF i(1)] names(2) i(2) show "p \<in> set (map ?f names)" by auto
  qed
  moreover have "distinct (map ?f names)" using names(1) by (simp add: distinct_map inj_on_def)
  moreover have "distinct (map ?p [0..<length ts])"
    using len sst_path_inj by (auto simp: distinct_map inj_on_def)
  ultimately show ?thesis by (simp only: set_eq_iff_mset_eq_distinct)
qed

section \<open>Correctness of the engine\<close>

text \<open>
  C4: The engine implements a map.  After any sequence of fewer than 40000 deletions and puts of
  non-empty values, keys and values fitting the 32-bit length fields, on a fresh directory whose
  files can be written, \<open>get\<close> returns for every key the last value put and not deleted since, wherever
  flushing has moved it: memtable or any table file.
\<close>

theorem lsm_refines_map:
  assumes "length ops < 40000" "list_all op_fits ops" "\<And>p. wrt p"
  shows "lsm_get key (lsm_run ops (lsm_open dir None d wrt)) = fold kv_spec ops Map.empty key"
  unfolding lsm_run_def using assms by (intro lsm.kv_run_get lsm_open_store) simp_all

theorem lsm_refines_map_witness:
  "lsm_get ''a'' (lsm_run [Put ''a'' ''1'', Put ''b'' ''2'', Put ''c'' ''3'', Put ''d'' ''4'', Del ''b'', Put ''a'' ''5'']
     (lsm_open ''db'' None (\<lambda>_. None) (\<lambda>_. True))) = Some ''5''"
  using lsm_refines_map [of "[Put ''a'' ''1'', Put ''b'' ''2'', Put ''c'' ''3'', Put ''d'' ''4'', Del ''b'', Put ''a'' ''5'']"
      "\<lambda>_. True" "''a''" "''db''" "\<lambda>_. None"]
  by simp

text \<open>
  C26: Reopening recovers the flushed data.  The specification \<open>durable_step\<close> says when: with every
  fourth different key written, the whole map becomes durable.  After any run on a fresh directory,
  opening the directory again, its files listed in any order, gives an engine that holds exactly the
  durable map and works on from there: any further run is answered as the specification applies it
  to that map.
\<close>

theorem lsm_reopen:
  assumes "length ops + length ops' < 40000" "list_all op_fits ops" "list_all op_fits ops'" "\<And>p. wrt p"
    and "\<And>n. d (dir @ ''/'' @ n) = None"
    and "t = lsm_run ops (lsm_open dir None d wrt)"
    and "distinct names" "\<And>n. n \<in> set names \<longleftrightarrow> disk t (dir @ ''/'' @ n) \<noteq> None"
  shows "lsm_get key (lsm_run ops' (lsm_open dir (Some names) (disk t) wrt)) =
    fold kv_spec ops' (fst (fold durable_step ops (Map.empty, Map.empty, {}))) key"
proof -
  obtain ts where rel: "durable_rel (fold durable_step ops (Map.empty, Map.empty, {})) ts t"
      and len: "4 * length ts + length (memtable t) \<le> length ops"
    using durable_run [OF assms(2), of "(Map.empty, Map.empty, {})" "[]" "lsm_open dir None d wrt"] assms(1,4,6)
    by (auto simp: durable_rel_def lsm_rep_def lsm_open_def MEMTABLE_FLUSH_THRESHOLD_def)
  have ts: "lsm_rep ts t" using rel by (simp add: durable_rel_def case_prod_beta)
  have dir: "dataDir t = dir" by (simp add: assms(6) lsm_run_dataDir lsm_open_def)
  have frame: "disk t p = d p" if "p \<notin> set (sstablePaths t)" for p
    using lsm_run_frame [of "lsm_open dir None d wrt" d ops] that by (simp add: assms(6) lsm_open_def)
  have paths: "sstablePaths t = rev (map (sst_path dir) [0..<length ts])" and n: "length ts \<le> 10000"
    using ts dir by (simp_all add: lsm_rep_def)
  have mset: "mset (map (\<lambda>n. dir @ ''/'' @ n) names) = mset (map (sst_path dir) [0..<length ts])"
    using listing_paths [OF ts, of d names] assms(5,7,8) frame by (simp add: dir)
  then have "newest_first (map (\<lambda>n. dir @ ''/'' @ n) names) = rev (map (sst_path dir) [0..<length ts])"
    using n by (intro newest_first_paths)
  moreover have "length names = length ts"
    using arg_cong [OF mset, of size] by simp
  ultimately have new: "lsm_rep ts (lsm_open dir (Some names) (disk t) wrt)"
    using ts dir assms(4) by (simp add: lsm_rep_def lsm_open_def)
  have "lsm_store (length ops') (fst (fold durable_step ops (Map.empty, Map.empty, {})))
      (lsm_open dir (Some names) (disk t) wrt)"
    using rel new len assms(1) unfolding lsm_store_def
    by (intro exI [of _ ts]) (auto simp: durable_rel_def lsm_open_def split: prod.splits)
  then show ?thesis
    unfolding lsm_run_def using assms(3) by (intro lsm.kv_run_get)
qed

theorem lsm_reopen_witness:
  "\<exists>t. t = lsm_run [Put ''a'' ''1'', Put ''b'' ''2'', Put ''c'' ''3'', Put ''d'' ''4'', Put ''b'' ''5'']
       (lsm_open ''db'' None (\<lambda>_. None) (\<lambda>_. True)) \<and>
     lsm_get ''b'' t = Some ''5'' \<and>
     map (\<lambda>k. lsm_get k (lsm_run [Del ''c''] (lsm_open ''db'' (Some [''sstable_0000.sst'']) (disk t) (\<lambda>_. True))))
       [''a'', ''b'', ''c'', ''d''] = [Some ''1'', Some ''2'', None, Some ''4'']"
proof -
  let ?ops = "[Put ''a'' ''1'', Put ''b'' ''2'', Put ''c'' ''3'', Put ''d'' ''4'', Put ''b'' ''5'']"
  let ?t0 = "lsm_open ''db'' None (\<lambda>_. None) (\<lambda>_. True)"
  let ?t = "lsm_run ?ops ?t0" and ?p = "''db/sstable_0000.sst''"
  have paths: "sstablePaths ?t = [?p]" and some: "disk ?t ?p \<noteq> None" and b: "lsm_get ''b'' ?t = Some ''5''"
    by code_simp+
  have "\<forall>p. p \<notin> set (sstablePaths ?t) \<longrightarrow> disk ?t p = None"
    by (rule lsm_run_frame) (simp add: lsm_open_def)
  then have names: "n \<in> set [''sstable_0000.sst''] \<longleftrightarrow> disk ?t (''db'' @ ''/'' @ n) \<noteq> None" for n
    using paths some by (cases "n = ''sstable_0000.sst''") auto
  have "lsm_get k (lsm_run [Del ''c''] (lsm_open ''db'' (Some [''sstable_0000.sst'']) (disk ?t) (\<lambda>_. True))) =
      fold kv_spec [Del ''c''] (fst (fold durable_step ?ops (Map.empty, Map.empty, {}))) k" for k
    by (rule lsm_reopen [OF _ _ _ _ _ refl _ names]) simp_all
  moreover have "fst (fold durable_step ?ops (Map.empty, Map.empty, {})) =
      [''a'' \<mapsto> ''1'', ''b'' \<mapsto> ''2'', ''c'' \<mapsto> ''3'', ''d'' \<mapsto> ''4'']"
    by (simp add: card_insert_if Let_def)
  ultimately show ?thesis using b by simp
qed

text \<open>
  \<open>main\<close> prints what its comments expect: the overwritten value, the deleted and the missing key
  as not found, and the values that were flushed.
\<close>

theorem lsm_main_output:
  assumes "\<And>p. wrt p"
  shows "lsm_main d wrt = [''apple: v2'', ''banana: NOT FOUND'', ''cherry: red'', ''date: sweet'',
    ''elderberry: dark'', ''missing: NOT FOUND'']"
proof -
  let ?ops = "[Put ''apple'' ''fruit'', Put ''banana'' ''yellow'', Put ''cherry'' ''red'', Put ''date'' ''sweet'',
    Put ''elderberry'' ''dark'', Put ''fig'' ''chewy'', Put ''grape'' ''vine'', Put ''apple'' ''v2'', Del ''banana'']"
  have get: "lsm_get k (lsm_run ?ops (lsm_open ''./lsm_data'' None d wrt)) = fold kv_spec ?ops Map.empty k" for k
    unfolding lsm_run_def using assms
    by (intro lsm.kv_run_get lsm_open_store) simp_all
  have "lsm_main d wrt = map (\<lambda>k. k @ '': '' @ value_or (lsm_get k (lsm_run ?ops (lsm_open ''./lsm_data'' None d wrt))))
      [''apple'', ''banana'', ''cherry'', ''date'', ''elderberry'', ''missing'']"
    by (simp add: lsm_main_def lsm_run_def kv_run_def Let_def)
  then show ?thesis
    unfolding get by (simp add: value_or_def)
qed

theorem lsm_main_output_witness:
  "lsm_main (\<lambda>_. None) (\<lambda>_. True) = [''apple: v2'', ''banana: NOT FOUND'', ''cherry: red'', ''date: sweet'',
    ''elderberry: dark'', ''missing: NOT FOUND'']"
  by (rule lsm_main_output) simp

text \<open>
  C38: The restriction to non-empty values is needed: the deletion marker is the empty string, because
  its literal starts with a NUL, so after any run a put of the empty value acts as a deletion of the
  key, for every query.
\<close>

theorem lsm_put_empty_deletes:
  assumes "length ops + 1 < 40000" "list_all op_fits ops" "\<And>p. wrt p" "length key < 2 ^ 32"
  shows "lsm_get key' (lsm_put key [] (lsm_run ops (lsm_open dir None d wrt))) =
    fold kv_spec (ops @ [Del key]) Map.empty key'"
proof -
  have "lsm_put key [] (lsm_run ops t) = lsm_run (ops @ [Del key]) t" for t
    by (simp add: lsm_run_def kv_run_def lsm_del_def TOMBSTONE_empty)
  then show ?thesis
    unfolding lsm_run_def using assms by (simp only:) (intro lsm.kv_run_get lsm_open_store; simp)
qed

theorem lsm_put_empty_deletes_witness:
  "lsm_get ''k'' (lsm_put ''k'' [] (lsm_run [Put ''k'' ''v''] (lsm_open ''db'' None (\<lambda>_. None) (\<lambda>_. True)))) = None"
  using lsm_put_empty_deletes [of "[Put ''k'' ''v'']" "\<lambda>_. True" "''k''" "''k''" "''db''" "\<lambda>_. None"] by simp

text \<open>From table 10000 on, the order of the names is not the order of creation any more.\<close>

lemma sst_path_order_breaks: "sst_path dir 10000 < sst_path dir 9999"
  by (simp add: sst_path_def fmt_eval less_char_def)

end
