(* ===== verification/Bloom_Filter.thy ===== *)
theory Bloom_Filter
  imports Printf
begin

text \<open>
  The Bloom filter of \<^verbatim>\<open>11-bloom_filter/bloom.h\<close> and the part of \<^verbatim>\<open>main.cpp\<close> that does not depend
  on floating-point arithmetic.

  Hashes are 64-bit words with wrap-around.  The number of bits and of hash functions are what the
  floating-point expressions of the constructor evaluate to, and appear as arguments.  A key is the
  list of its bytes.
\<close>

unbundle bit_operations_syntax

section \<open>Hashes\<close>

definition fnv1a_64 :: "byte list \<Rightarrow> u64" where
  "fnv1a_64 s = fold (\<lambda>c hash. (hash XOR ucast c) * 1099511628211) s 14695981039346656037"

definition djb2_64 :: "byte list \<Rightarrow> u64" where
  "djb2_64 s = fold (\<lambda>c hash. (push_bit 5 hash + hash) XOR ucast c) s 5381"

text \<open>The finalizer: \<open>x ^= x >> 33; x *= c; x ^= x >> 33\<close>.\<close>

definition finalize :: "u64 \<Rightarrow> u64 \<Rightarrow> u64" where
  "finalize c x =
     (let x1 = x XOR drop_bit 33 x; x2 = x1 * c in x2 XOR drop_bit 33 x2)"

definition hash_i :: "u64 \<Rightarrow> byte list \<Rightarrow> u64 \<Rightarrow> u64 c_res" where
  "hash_i m key i =
     (let a = finalize 0xff51afd7ed558ccd (fnv1a_64 key);
          b = finalize 0xc4ceb9fe1a85ec53 (djb2_64 key)
      in if m = 0 then Inl DivByZero else Inr ((a + i * b) mod m))"

section \<open>The filter\<close>

record BloomFilter =
  bits_m :: u64
  bits_k :: u64
  n_inserted :: u64
  bits :: "bool list"

text \<open>The constructor for given values \<open>m\<close> and \<open>k\<close> of its two floating-point expressions.\<close>

definition bloom_new :: "u64 \<Rightarrow> u64 \<Rightarrow> BloomFilter" where
  "bloom_new m k = \<lparr>bits_m = m, bits_k = (if k < 1 then 1 else k), n_inserted = 0, bits = replicate (unat m) False\<rparr>"

text \<open>
  The floating-point operations the program uses.  Nothing is assumed of them: what is proved holds for any
  rounding and any accuracy of the library functions.  \<open>d_lit n k\<close> is the literal \<open>n / 10 ^ k\<close> and \<open>d_fmt k x\<close> the
  text of \<open>x\<close> with \<open>k\<close> decimals.
\<close>

record 'd double_ops =
  d_of_size :: "u64 \<Rightarrow> 'd"
  d_to_size :: "'d \<Rightarrow> u64"
  d_lit :: "nat \<Rightarrow> nat \<Rightarrow> 'd"
  d_neg :: "'d \<Rightarrow> 'd"
  d_sub :: "'d \<Rightarrow> 'd \<Rightarrow> 'd"
  d_mul :: "'d \<Rightarrow> 'd \<Rightarrow> 'd"
  d_div :: "'d \<Rightarrow> 'd \<Rightarrow> 'd"
  d_log :: "'d \<Rightarrow> 'd"
  d_exp :: "'d \<Rightarrow> 'd"
  d_pow :: "'d \<Rightarrow> 'd \<Rightarrow> 'd"
  d_ceil :: "'d \<Rightarrow> 'd"
  d_round :: "'d \<Rightarrow> 'd"
  d_abs :: "'d \<Rightarrow> 'd"
  d_less :: "'d \<Rightarrow> 'd \<Rightarrow> bool"
  d_le :: "'d \<Rightarrow> 'd \<Rightarrow> bool"
  d_fmt :: "nat \<Rightarrow> 'd \<Rightarrow> string"

definition bloom_construct :: "'d double_ops \<Rightarrow> u64 \<Rightarrow> 'd \<Rightarrow> BloomFilter" where
  "bloom_construct ops expected_n fpr =
     (let ln2 = d_log ops (d_lit ops 2 0);
          m = d_to_size ops (d_ceil ops (d_div ops
                (d_mul ops (d_neg ops (d_of_size ops expected_n)) (d_log ops fpr)) (d_mul ops ln2 ln2)));
          k = d_to_size ops (d_round ops (d_mul ops (d_div ops (d_of_size ops m) (d_of_size ops expected_n)) ln2))
      in bloom_new m k)"

definition theoretical_fpr :: "'d double_ops \<Rightarrow> BloomFilter \<Rightarrow> 'd" where
  "theoretical_fpr ops bf =
     (let q = d_exp ops (d_div ops (d_mul ops (d_neg ops (d_of_size ops (bits_k bf))) (d_of_size ops (n_inserted bf)))
                (d_of_size ops (bits_m bf)))
      in d_pow ops (d_sub ops (d_lit ops 1 0) q) (d_of_size ops (bits_k bf)))"

definition set_bit_i :: "byte list \<Rightarrow> nat \<Rightarrow> BloomFilter \<Rightarrow> BloomFilter c_res" where
  "set_bit_i key i bf =
     bindE (hash_i (bits_m bf) key (of_nat i)) (\<lambda>g.
     bindE (wr (bits bf) (unat g) True) (\<lambda>bs. Inr (bf\<lparr>bits := bs\<rparr>)))"

definition bloom_insert :: "byte list \<Rightarrow> BloomFilter \<Rightarrow> BloomFilter c_res" where
  "bloom_insert key bf =
     bindE (foldE (set_bit_i key) [0..<unat (bits_k bf)] bf) (\<lambda>bf'.
       Inr (bf'\<lparr>n_inserted := n_inserted bf' + 1\<rparr>))"

fun all_bits_set :: "byte list \<Rightarrow> BloomFilter \<Rightarrow> nat list \<Rightarrow> bool c_res" where
  "all_bits_set key bf [] = Inr True"
| "all_bits_set key bf (i # is) =
     bindE (hash_i (bits_m bf) key (of_nat i)) (\<lambda>g.
     bindE (rd (bits bf) (unat g)) (\<lambda>b. if b = False then Inr False else all_bits_set key bf is))"

definition bloom_contains :: "byte list \<Rightarrow> BloomFilter \<Rightarrow> bool c_res" where
  "bloom_contains key bf = all_bits_set key bf [0..<unat (bits_k bf)]"

definition make_url :: "nat \<Rightarrow> byte list" where
  "make_url i = bytes_of (''url-'' @ fmt_u i)"

text \<open>The first loops of \<open>main\<close>: inserting the URLs, and asserting that each is found.\<close>

definition insert_urls :: "nat \<Rightarrow> BloomFilter \<Rightarrow> BloomFilter c_res" where
  "insert_urls n bf = foldE (\<lambda>i. bloom_insert (make_url i)) [0..<n] bf"

definition check_urls :: "nat \<Rightarrow> BloomFilter \<Rightarrow> unit c_res" where
  "check_urls n bf = foldE (\<lambda>i u. bindE (bloom_contains (make_url i) bf) (\<lambda>b.
     if b then Inr u else Inl AssertFailed)) [0..<n] ()"

text \<open>The probe loop: how many of the keys that were not inserted are reported as present.\<close>

definition count_positives :: "nat list \<Rightarrow> BloomFilter \<Rightarrow> nat c_res" where
  "count_positives is bf =
     foldE (\<lambda>i fp. bindE (bloom_contains (make_url i) bf) (\<lambda>b. Inr (if b then fp + 1 else fp))) is 0"

text \<open>\<open>main\<close>: the lines printed, and the failure that stopped it, if any.\<close>

definition bloom_run :: "'d double_ops \<Rightarrow> nat \<Rightarrow> nat \<Rightarrow> 'd \<Rightarrow> string list \<times> c_error option" where
  "bloom_run ops n probe fpr_target =
     (let bf0 = bloom_construct ops (of_nat n) fpr_target;
          l1 = ''m='' @ fmt_u (unat (bits_m bf0)) @ '' bits ('' @
            d_fmt ops 2 (d_div ops (d_div ops (d_of_size ops (bits_m bf0)) (d_lit ops 80 1)) (d_lit ops 10240 1)) @
            '' KiB), k='' @ fmt_u (unat (bits_k bf0)) @ '' hash functions''
      in case insert_urls n bf0 of Inl e \<Rightarrow> ([l1], Some e) | Inr bf \<Rightarrow>
         case check_urls n bf of Inl e \<Rightarrow> ([l1], Some e) | Inr _ \<Rightarrow>
         let l2 = ''No false negatives: PASS'' in
         case count_positives [n..<n + probe] bf of Inl e \<Rightarrow> ([l1, l2], Some e) | Inr fp \<Rightarrow>
         let empirical_fpr = d_div ops (d_of_size ops (of_nat fp)) (d_of_size ops (of_nat probe));
             theory_fpr = theoretical_fpr ops bf;
             percent = (\<lambda>x. d_fmt ops 4 (d_mul ops x (d_lit ops 1000 1)) @ ''%'');
             ls = [l1, l2, ''Theoretical FPR : '' @ percent theory_fpr, ''Empirical   FPR : '' @ percent empirical_fpr] in
         if \<not> d_less ops (d_abs ops (d_sub ops empirical_fpr theory_fpr)) (d_lit ops 5 3) then (ls, Some AssertFailed)
         else let ls = ls @ [''FPR within tolerance: PASS''] in
         if \<not> d_le ops empirical_fpr (d_mul ops fpr_target (d_lit ops 20 1)) then (ls, Some AssertFailed)
         else (ls @ [''FPR within 2x target: PASS''], None))"

definition bloom_main :: "'d double_ops \<Rightarrow> string list \<times> c_error option" where
  "bloom_main ops = bloom_run ops 100000 200000 (d_lit ops 1 2)"

section \<open>Approximate membership\<close>

text \<open>
  The interface: \<open>rep S f\<close> says that the keys of \<open>S\<close> were inserted.  A filter may report more, never
  fewer.
\<close>

locale membership_filter =
  fixes rep :: "'k set \<Rightarrow> 'f \<Rightarrow> bool" and ins :: "'k \<Rightarrow> 'f \<Rightarrow> 'f c_res" and mem :: "'k \<Rightarrow> 'f \<Rightarrow> bool c_res"
  assumes ins_law: "rep S f \<Longrightarrow> \<exists>f'. ins k f = Inr f' \<and> rep (insert k S) f'"
    and mem_law: "rep S f \<Longrightarrow> \<exists>b. mem k f = Inr b \<and> (k \<in> S \<longrightarrow> b)"
begin

lemma ins_all:
  assumes "rep S f"
  shows "\<exists>f'. foldE (\<lambda>x. ins (key x)) xs f = Inr f' \<and> rep (key ` set xs \<union> S) f'"
  using assms
proof (induction xs arbitrary: S f)
  case (Cons x xs)
  then obtain f1 where f1: "ins (key x) f = Inr f1" "rep (insert (key x) S) f1" using ins_law by blast
  with Cons.IH [OF f1(2)] show ?case by auto
qed simp

lemma mem_inserted: "rep S f \<Longrightarrow> k \<in> S \<Longrightarrow> mem k f = Inr True"
  using mem_law [of S f k] by auto

end

section \<open>The bits of a filter\<close>

definition position :: "u64 \<Rightarrow> byte list \<Rightarrow> nat \<Rightarrow> u64" where
  "position m key i = (finalize 0xff51afd7ed558ccd (fnv1a_64 key) +
     of_nat i * finalize 0xc4ceb9fe1a85ec53 (djb2_64 key)) mod m"

definition positions :: "u64 \<Rightarrow> u64 \<Rightarrow> byte list \<Rightarrow> nat set" where
  "positions m k key = (\<lambda>i. unat (position m key i)) ` {0..<unat k}"

text \<open>A bit is set exactly when some inserted key has it among its positions.\<close>

definition bloom_rep :: "u64 \<Rightarrow> u64 \<Rightarrow> byte list set \<Rightarrow> BloomFilter \<Rightarrow> bool" where
  "bloom_rep m k S bf \<longleftrightarrow> 0 < m \<and> bits_m bf = m \<and> bits_k bf = k \<and> length (bits bf) = unat m \<and>
     (\<forall>j < unat m. bits bf ! j \<longleftrightarrow> (\<exists>key \<in> S. j \<in> positions m k key))"

lemma hash_i_eq: "0 < m \<Longrightarrow> hash_i m key (of_nat i) = Inr (position m key i)"
  by (simp add: hash_i_def position_def Let_def word_gt_0)

lemma position_bound: "0 < m \<Longrightarrow> unat (position m key i) < unat m"
  by (simp add: position_def word_less_nat_alt unat_mod)

lemma set_bits:
  assumes "0 < bits_m bf" "length (bits bf) = unat (bits_m bf)"
  shows "\<exists>bs. foldE (set_bit_i key) is bf = Inr (bf\<lparr>bits := bs\<rparr>) \<and> length bs = unat (bits_m bf) \<and>
    (\<forall>j < unat (bits_m bf). bs ! j \<longleftrightarrow> bits bf ! j \<or> (\<exists>i \<in> set is. unat (position (bits_m bf) key i) = j))"
  using assms
proof (induction "is" arbitrary: bf)
  case Nil
  then show ?case by (intro exI [of _ "bits bf"]) simp
next
  case (Cons i "is")
  let ?g = "unat (position (bits_m bf) key i)" and ?bf = "bf\<lparr>bits := (bits bf)[unat (position (bits_m bf) key i) := True]\<rparr>"
  have gm: "?g < unat (bits_m bf)" using position_bound [OF Cons.prems(1)] .
  have step: "set_bit_i key i bf = Inr ?bf" using gm Cons.prems by (simp add: set_bit_i_def wr_def hash_i_eq)
  obtain bs where bs: "foldE (set_bit_i key) is ?bf = Inr (?bf\<lparr>bits := bs\<rparr>)" "length bs = unat (bits_m bf)"
    "\<forall>j < unat (bits_m bf). bs ! j \<longleftrightarrow> bits ?bf ! j \<or> (\<exists>i \<in> set is. unat (position (bits_m bf) key i) = j)"
    using Cons.IH [of ?bf] Cons.prems by auto
  then have "\<forall>j < unat (bits_m bf). bs ! j \<longleftrightarrow>
      bits bf ! j \<or> (\<exists>i' \<in> set (i # is). unat (position (bits_m bf) key i') = j)"
    using gm Cons.prems by (auto simp: nth_list_update)
  then show ?case using step bs(1,2) by auto
qed

lemma bloom_insert_rep:
  assumes "bloom_rep m k S bf"
  shows "\<exists>bf'. bloom_insert key bf = Inr bf' \<and> bloom_rep m k (insert key S) bf' \<and>
    n_inserted bf' = n_inserted bf + 1"
proof -
  have h: "0 < bits_m bf" "length (bits bf) = unat (bits_m bf)" "bits_m bf = m" "bits_k bf = k"
    using assms by (simp_all add: bloom_rep_def)
  obtain bs where bs: "foldE (set_bit_i key) [0..<unat k] bf = Inr (bf\<lparr>bits := bs\<rparr>)" "length bs = unat m"
    "\<forall>j < unat m. bs ! j \<longleftrightarrow> bits bf ! j \<or> (\<exists>i \<in> set [0..<unat k]. unat (position m key i) = j)"
    using set_bits [OF h(1,2), of key "[0..<unat k]"] h(3) by auto
  have "(\<exists>i \<in> set [0..<unat k]. unat (position m key i) = j) \<longleftrightarrow> j \<in> positions m k key" for j
    by (auto simp: positions_def)
  with bs(3) assms have "\<forall>j < unat m. bs ! j \<longleftrightarrow> (\<exists>key' \<in> insert key S. j \<in> positions m k key')"
    by (auto simp: bloom_rep_def)
  then have "bloom_rep m k (insert key S) (bf\<lparr>bits := bs, n_inserted := n_inserted bf + 1\<rparr>)"
    using assms bs(2) by (simp add: bloom_rep_def)
  then show ?thesis using bs(1) h(4) by (simp add: bloom_insert_def)
qed

lemma all_bits_set_eq:
  assumes "bloom_rep m k S bf"
  shows "all_bits_set key bf is = Inr (\<forall>i \<in> set is. bits bf ! unat (position m key i))"
proof (induction "is")
  case (Cons i "is")
  have "0 < m" "bits_m bf = m" "length (bits bf) = unat m" using assms by (simp_all add: bloom_rep_def)
  with Cons position_bound [of m key i] show ?case by (simp add: rd_def hash_i_eq)
qed simp

lemma bloom_contains_rep:
  assumes "bloom_rep m k S bf"
  shows "bloom_contains key bf = Inr (positions m k key \<subseteq> (\<Union>key' \<in> S. positions m k key'))"
proof -
  have m: "0 < m" "bits_k bf = k" using assms by (simp_all add: bloom_rep_def)
  have "bits bf ! unat (position m key i) \<longleftrightarrow> (\<exists>key' \<in> S. unat (position m key i) \<in> positions m k key')" for i
    using assms position_bound [OF m(1)] by (simp add: bloom_rep_def)
  moreover have "positions m k key \<subseteq> U \<longleftrightarrow> (\<forall>i \<in> set [0..<unat k]. unat (position m key i) \<in> U)" for U
    by (auto simp: positions_def)
  ultimately show ?thesis
    unfolding bloom_contains_def all_bits_set_eq [OF assms] m(2) by simp
qed

interpretation bloom: membership_filter "bloom_rep m k" bloom_insert bloom_contains
proof unfold_locales
  show "\<exists>f'. bloom_insert key f = Inr f' \<and> bloom_rep m k (insert key S) f'" if "bloom_rep m k S f" for S f key
    using bloom_insert_rep [OF that] by blast
  show "\<exists>b. bloom_contains key f = Inr b \<and> (key \<in> S \<longrightarrow> b)" if "bloom_rep m k S f" for S f key
    using bloom_contains_rep [OF that] by auto
qed

lemma bloom_new_rep: "0 < m \<Longrightarrow> bloom_rep m (if k < 1 then 1 else k) {} (bloom_new m k)"
  by (simp add: bloom_rep_def bloom_new_def)

section \<open>Correctness of the filter\<close>

text \<open>
  C13: A query answers yes exactly when the positions of the key are covered by those of the inserted
  keys.  For every number of bits greater than zero and every sequence of keys, no access leaves
  the bit vector; so an inserted key is always found, and a key that was not is reported only when
  each of its \<open>k\<close> positions collides with a position of some inserted key.
\<close>

theorem bloom_contains_iff:
  assumes "0 < m" "k' = (if k < 1 then 1 else k)"
  shows "\<exists>bf. foldE bloom_insert keys (bloom_new m k) = Inr bf \<and>
    (\<forall>key. bloom_contains key bf = Inr (positions m k' key \<subseteq> (\<Union>x \<in> set keys. positions m k' x)))"
proof -
  have "bloom_rep m k' {} (bloom_new m k)" using bloom_new_rep [OF assms(1)] assms(2) by simp
  from bloom.ins_all [OF this, of "\<lambda>x. x" keys]
  obtain bf where bf: "foldE bloom_insert keys (bloom_new m k) = Inr bf" "bloom_rep m k' (set keys) bf"
    by auto
  from bf(1) bloom_contains_rep [OF bf(2)] show ?thesis by blast
qed

theorem bloom_contains_iff_witness:
  "\<exists>bf. foldE bloom_insert [[97], [98]] (bloom_new 1000 3) = Inr bf \<and>
    bloom_contains [98] bf = Inr True"
proof -
  have "(3 :: u64) = (if 3 < (1 :: u64) then 1 else 3)" by (simp add: word_less_nat_alt)
  from bloom_contains_iff [OF _ this, of 1000 "[[97], [98]]"] obtain bf where
    "foldE bloom_insert [[97], [98]] (bloom_new 1000 3) = Inr bf"
    "bloom_contains [98] bf = Inr (positions 1000 3 [98] \<subseteq> (\<Union>x \<in> set [[97], [98]]. positions 1000 3 x))"
    by (auto simp: word_less_nat_alt)
  then show ?thesis by auto
qed

lemma check_urls_found:
  assumes "bloom_rep m k (make_url ` {0..<n}) bf"
  shows "check_urls n bf = Inr ()"
proof -
  have "foldE (\<lambda>i u. bindE (bloom_contains (make_url i) bf) (\<lambda>b. if b then Inr u else Inl AssertFailed)) is () = Inr ()"
    if "set is \<subseteq> {0..<n}" for "is"
    using that
  proof (induction "is")
    case (Cons i "is")
    then have "bloom_contains (make_url i) bf = Inr True"
      using bloom.mem_inserted [OF assms] by auto
    with Cons show ?case by simp
  qed simp
  then show ?thesis by (simp add: check_urls_def)
qed

lemma insert_urls_rep:
  assumes "bloom_rep m k S bf"
  shows "\<exists>bf'. insert_urls n bf = Inr bf' \<and> bloom_rep m k (make_url ` {0..<n} \<union> S) bf'"
  using bloom.ins_all [OF assms, of make_url "[0..<n]"] by (simp add: insert_urls_def)

lemma count_positives_eq:
  assumes "bloom_rep m k S bf"
  shows "count_positives is bf =
    Inr (length (filter (\<lambda>i. positions m k (make_url i) \<subseteq> (\<Union>x \<in> S. positions m k x)) is))"
proof -
  have "foldE (\<lambda>i fp. bindE (bloom_contains (make_url i) bf) (\<lambda>b. Inr (if b then fp + 1 else fp))) is c =
      Inr (c + length (filter (\<lambda>i. positions m k (make_url i) \<subseteq> (\<Union>x \<in> S. positions m k x)) is))" for c
    by (induction "is" arbitrary: c) (simp_all add: bloom_contains_rep [OF assms])
  then show ?thesis by (simp add: count_positives_def)
qed

text \<open>
  C27: \<open>main\<close>, for any number of URLs and probes and any floating-point arithmetic that gives the filter a bit.
  It never leaves the bit vector and the check for false negatives always passes: the first two lines are
  printed, and the only way to fail is one of the two assertions on the measured rate.  The run
  passes exactly when both hold for the share of probes all of whose positions collide.
\<close>

theorem bloom_main_outcome:
  fixes ops :: "'d double_ops" and n :: nat and fpr :: 'd
  defines "bf0 \<equiv> bloom_construct ops (of_nat n) fpr"
  assumes "0 < bits_m bf0"
  shows "\<exists>bf. insert_urls n bf0 = Inr bf \<and>
    ''No false negatives: PASS'' = fst (bloom_run ops n probe fpr) ! 1 \<and>
    snd (bloom_run ops n probe fpr) \<in> {None, Some AssertFailed} \<and>
    (snd (bloom_run ops n probe fpr) = None \<longleftrightarrow>
      (let pos = positions (bits_m bf0) (bits_k bf0);
           fp = length (filter (\<lambda>i. pos (make_url i) \<subseteq> (\<Union>j < n. pos (make_url j))) [n..<n + probe]);
           rate = d_div ops (d_of_size ops (of_nat fp)) (d_of_size ops (of_nat probe))
       in d_less ops (d_abs ops (d_sub ops rate (theoretical_fpr ops bf))) (d_lit ops 5 3) \<and>
          d_le ops rate (d_mul ops fpr (d_lit ops 20 1))))"
proof -
  have "bloom_rep (bits_m bf0) (bits_k bf0) {} bf0"
    using assms(2) bloom_new_rep unfolding bf0_def bloom_construct_def Let_def by (simp add: bloom_new_def)
  from insert_urls_rep [OF this, of n] obtain bf where
    bf: "insert_urls n bf0 = Inr bf" "bloom_rep (bits_m bf0) (bits_k bf0) (make_url ` {0..<n}) bf"
    by auto
  show ?thesis
    using bf(1) check_urls_found [OF bf(2)] count_positives_eq [OF bf(2), of "[n..<n + probe]"]
    by (intro exI [of _ bf]) (simp add: bloom_run_def Let_def atLeast0LessThan flip: bf0_def)
qed

text \<open>An arithmetic in which the constructor computes the sizes that the program prints.\<close>

definition fixed_sizes :: "nat double_ops" where
  "fixed_sizes = \<lparr>d_of_size = unat, d_to_size = of_nat, d_lit = (\<lambda>n k. n), d_neg = (\<lambda>x. x), d_sub = (-), d_mul = (*),
     d_div = (div), d_log = (\<lambda>x. x), d_exp = (\<lambda>x. x), d_pow = (^), d_ceil = (\<lambda>x. 958506), d_round = (\<lambda>x. 7),
     d_abs = (\<lambda>x. x), d_less = (<), d_le = (\<le>), d_fmt = (\<lambda>k x. fmt_u x)\<rparr>"

theorem bloom_main_outcome_witness:
  "fst (bloom_main fixed_sizes) ! 1 = ''No false negatives: PASS''"
proof -
  have "0 < bits_m (bloom_construct fixed_sizes (of_nat 100000) (d_lit fixed_sizes 1 2))"
    by (simp add: bloom_construct_def fixed_sizes_def bloom_new_def word_less_nat_alt)
  from bloom_main_outcome [OF this, of 200000] show ?thesis unfolding bloom_main_def by (elim exE conjE) (rule sym)
qed

text \<open>A filter for zero elements has no bits, and inserting divides by zero.\<close>

lemma bloom_insert_empty_filter: "bloom_insert key (bloom_new 0 k) = Inl DivByZero"
proof -
  have "0 < unat (if k < 1 then 1 else k)" by (auto simp: word_less_nat_alt)
  then obtain n where "unat (if k < 1 then 1 else k) = Suc n" by (metis gr0_implies_Suc)
  then show ?thesis
    by (simp add: bloom_insert_def bloom_new_def set_bit_i_def hash_i_def Let_def upt_conv_Cons del: upt_Suc split: if_splits)
qed

end
