(* ===== verification/Length_Extension.thy ===== *)
theory Length_Extension
  imports Printf
begin

text \<open>
  The length-extension attack of \<^verbatim>\<open>10-HMAC_length_extension/main.cpp\<close>.

  SHA-256 is OpenSSL's: the three functions the program calls are parameters, with the contract
  \<open>sha256_lib\<close> that FIPS 180-4 gives for an arbitrary compression function.  The attack writes into
  the fields of \<open>SHA256_CTX\<close>, so the context is the record of those fields.
\<close>

unbundle bit_operations_syntax

section \<open>The hash interface\<close>

record SHA256_CTX =
  ctx_h :: "u32 list"
  ctx_Nl :: u32
  ctx_Nh :: u32
  ctx_data :: "byte list"
  ctx_num :: nat

record sha_lib =
  SHA256_Init :: "SHA256_CTX \<Rightarrow> SHA256_CTX"
  SHA256_Update :: "SHA256_CTX \<Rightarrow> byte list \<Rightarrow> SHA256_CTX"
  SHA256_Final :: "SHA256_CTX \<Rightarrow> byte list"

section \<open>The server\<close>

definition KEY_LEN :: nat where "KEY_LEN = 16"

definition SECRET_KEY :: "byte list" where
  "SECRET_KEY = [0x0f, 0x1e, 0x2d, 0x3c, 0x4b, 0x5a, 0x69, 0x78, 0x87, 0x96, 0xa5, 0xb4, 0xc3, 0xd2, 0xe1, 0xf0]"

text \<open>\<open>junk\<close> is the uninitialised context on the stack.\<close>

definition naive_mac :: "sha_lib \<Rightarrow> SHA256_CTX \<Rightarrow> byte list \<Rightarrow> byte list \<Rightarrow> byte list" where
  "naive_mac lib junk key msg =
     (let c = SHA256_Init lib junk;
          c = SHA256_Update lib c key;
          c = SHA256_Update lib c msg
      in SHA256_Final lib c)"

definition server_verify_naive :: "sha_lib \<Rightarrow> SHA256_CTX \<Rightarrow> byte list \<Rightarrow> byte list \<Rightarrow> byte list \<Rightarrow> bool" where
  "server_verify_naive lib junk key msg token \<longleftrightarrow> naive_mac lib junk key msg = token"

text \<open>\<open>hmac\<close> is OpenSSL's \<open>HMAC\<close> with SHA-256.\<close>

definition hmac_sha256_mac :: "(byte list \<Rightarrow> byte list \<Rightarrow> byte list) \<Rightarrow> byte list \<Rightarrow> byte list \<Rightarrow> byte list" where
  "hmac_sha256_mac hmac key msg = hmac key msg"

definition server_verify_hmac ::
    "(byte list \<Rightarrow> byte list \<Rightarrow> byte list) \<Rightarrow> byte list \<Rightarrow> byte list \<Rightarrow> byte list \<Rightarrow> bool" where
  "server_verify_hmac hmac key msg token \<longleftrightarrow> hmac_sha256_mac hmac key msg = token"

section \<open>The attack\<close>

text \<open>The eight state words, read from the token.\<close>

definition token_state :: "byte list \<Rightarrow> u32 list c_res" where
  "token_state token = mapE (\<lambda>i. be32 token (i * 4)) [0..<8]"

text \<open>\<open>while ((length + padding.size()) % 64 != 56) padding.push_back(0)\<close>\<close>

definition zeros_missing :: "nat \<Rightarrow> nat" where
  "zeros_missing n = (120 - n mod 64) mod 64"

lemma zeros_missing_eq: "zeros_missing n = (if n mod 64 \<le> 56 then 56 - n mod 64 else 120 - n mod 64)"
proof (cases "n mod 64 \<le> 56")
  case True
  then have "120 - n mod 64 = (56 - n mod 64) + 64" by linarith
  then have "zeros_missing n = (56 - n mod 64) mod 64" by (simp only: zeros_missing_def mod_add_self2)
  with True show ?thesis by simp
qed (simp add: zeros_missing_def)

lemma zeros_missing_mod: "(n + zeros_missing n) mod 64 = 56"
proof -
  have "n mod 64 < 64" by simp
  then have "n mod 64 + zeros_missing n = 56 \<or> n mod 64 + zeros_missing n = 120"
    by (auto simp: zeros_missing_eq)
  then have "(n mod 64 + zeros_missing n) mod 64 = 56" by auto
  then show ?thesis by (simp add: mod_add_left_eq)
qed

lemma zeros_missing_less: "zeros_missing n < 64"
  by (simp add: zeros_missing_def)

lemma zeros_missing_Suc:
  assumes "n mod 64 \<noteq> 56"
  shows "zeros_missing n = Suc (zeros_missing (Suc n))"
proof -
  have "n mod 64 < 64" by simp
  then show ?thesis using assms by (auto simp: zeros_missing_eq mod_Suc)
qed

function pad_zeros :: "nat \<Rightarrow> byte list \<Rightarrow> byte list" where
  "pad_zeros len padding =
     (if (len + length padding) mod 64 \<noteq> 56 then pad_zeros len (padding @ [0]) else padding)"
  by pat_completeness auto
termination
  by (relation "measure (\<lambda>(len, padding). zeros_missing (len + length padding))")
     (use zeros_missing_Suc in auto)

declare pad_zeros.simps [simp del]

text \<open>The eight bytes of \<open>length * 8\<close>, a product of 32-bit integers, most significant first.\<close>

definition length_bytes :: "u32 \<Rightarrow> byte list" where
  "length_bytes len = map (\<lambda>i. ucast (drop_bit (i * 8) (ucast (len * 8) :: u64))) (rev [0..<8])"

definition padding_1 :: "nat \<Rightarrow> byte list" where
  "padding_1 msg_len =
     (let len = of_nat (KEY_LEN + msg_len) :: u32
      in pad_zeros (unat len) [0x80] @ length_bytes len)"

definition length_extension_attack ::
    "sha_lib \<Rightarrow> SHA256_CTX \<Rightarrow> byte list \<Rightarrow> byte list \<Rightarrow> byte list \<Rightarrow> (byte list \<times> byte list) c_res" where
  "length_extension_attack lib junk original_msg valid_token extension =
     bindE (token_state valid_token) (\<lambda>state.
       let padding = padding_1 (length original_msg);
           extended_msg = original_msg @ padding @ extension;
           ctx = SHA256_Init lib junk;
           ctx = ctx\<lparr>ctx_h := state,
             ctx_Nl := of_nat ((KEY_LEN + length original_msg + length padding) * 8), ctx_Nh := 0, ctx_num := 0\<rparr>;
           ctx = SHA256_Update lib ctx extension
       in Inr (extended_msg, SHA256_Final lib ctx))"

text \<open>\<open>main\<close>: the outcomes of the two parts, which the two lines it prints report, and the exit status.\<close>

definition attack_main ::
    "sha_lib \<Rightarrow> SHA256_CTX \<Rightarrow> (byte list \<Rightarrow> byte list \<Rightarrow> byte list) \<Rightarrow> (bool \<times> bool \<times> nat) c_res" where
  "attack_main lib junk hmac =
     (let msg = bytes_of ''command=reboot'';
          token = naive_mac lib junk SECRET_KEY msg;
          extension = bytes_of ''&admin=1'' in
      bindE (length_extension_attack lib junk msg token extension) (\<lambda>(ext_msg, forged_token).
        let part_a = server_verify_naive lib junk SECRET_KEY ext_msg forged_token;
            hmac_token = hmac_sha256_mac hmac SECRET_KEY msg;
            part_b = (\<not> server_verify_hmac hmac SECRET_KEY ext_msg forged_token)
        in Inr (part_a, part_b, if part_a \<and> part_b then 0 else 1)))"

section \<open>Merkle-Damgaard hashing\<close>

text \<open>The state after the complete blocks of a message, and the bytes that are left over.\<close>

function absorb :: "(u32 list \<Rightarrow> byte list \<Rightarrow> u32 list) \<Rightarrow> u32 list \<Rightarrow> byte list \<Rightarrow> u32 list \<times> byte list" where
  "absorb compress h bs = (if length bs < 64 then (h, bs) else absorb compress (compress h (take 64 bs)) (drop 64 bs))"
  by pat_completeness auto
termination by (relation "measure (\<lambda>(compress, h, bs). length bs)") auto

declare absorb.simps [simp del]

definition be64_bytes :: "u64 \<Rightarrow> byte list" where
  "be64_bytes w = map (\<lambda>i. ucast (drop_bit (i * 8) w)) (rev [0..<8])"

text \<open>The padding of FIPS 180-4 for a message of \<open>n\<close> bytes.\<close>

definition sha_padding :: "nat \<Rightarrow> byte list" where
  "sha_padding n = [0x80] @ replicate (zeros_missing (n + 1)) 0 @ be64_bytes (of_nat (8 * n))"

subsection \<open>Absorbing\<close>

lemma absorb_append:
  "absorb compress h (xs @ ys) = (let (h', p) = absorb compress h xs in absorb compress h' (p @ ys))"
proof (induction compress h xs rule: absorb.induct)
  case (1 compress h xs)
  show ?case
  proof (cases "length xs < 64")
    case False
    then have "absorb compress h (xs @ ys) = absorb compress (compress h (take 64 xs)) (drop 64 xs @ ys)"
      by (subst absorb.simps) simp
    with False 1 show ?thesis by (subst (2) absorb.simps) simp
  qed (subst (2) absorb.simps, simp)
qed

lemma absorb_resume [simp]:
  "absorb compress (fst (absorb compress h xs)) (snd (absorb compress h xs) @ ys) = absorb compress h (xs @ ys)"
  by (subst absorb_append) (simp add: split_beta)

lemma length_absorb_rest: "length (snd (absorb compress h bs)) = length bs mod 64"
proof (induction compress h bs rule: absorb.induct)
  case (1 compress h bs)
  then show ?case by (subst absorb.simps) (auto simp: le_mod_geq)
qed

lemma length_absorb_state:
  assumes "\<And>h b. length h = 8 \<Longrightarrow> length (compress h b) = 8" and "length h = 8"
  shows "length (fst (absorb compress h bs)) = 8"
  using assms
proof (induction compress h bs rule: absorb.induct)
  case (1 compress h bs)
  then show ?case by (subst absorb.simps) auto
qed

subsection \<open>Padding\<close>

lemma pad_zeros_eq: "pad_zeros n p = p @ replicate (zeros_missing (n + length p)) 0"
proof (induction n p rule: pad_zeros.induct)
  case (1 n p)
  show ?case
  proof (cases "(n + length p) mod 64 = 56")
    case True
    then show ?thesis by (subst pad_zeros.simps) (simp add: zeros_missing_eq)
  next
    case False
    then have "pad_zeros n p = p @ 0 # replicate (zeros_missing (Suc (n + length p))) 0"
      using 1 by (subst pad_zeros.simps) simp
    also have "\<dots> = p @ replicate (zeros_missing (n + length p)) 0"
      using zeros_missing_Suc [OF False] by simp
    finally show ?thesis .
  qed
qed

lemma le_bytes_map: "le_bytes n w = map (\<lambda>i. ucast (drop_bit (i * 8) w)) [0..<n]"
proof (induction n arbitrary: w)
  case (Suc n)
  have "map (\<lambda>i. ucast (drop_bit (i * 8) w)) [0..<Suc n] =
      (ucast w :: byte) # map (\<lambda>i. ucast (drop_bit (i * 8) (drop_bit 8 w))) [0..<n]"
    by (simp add: upt_conv_Cons add.commute flip: map_Suc_upt del: upt_Suc)
  then show ?case by (simp only: le_bytes.simps Suc)
qed simp

lemma be64_bytes_rev: "be64_bytes w = rev (le_bytes 8 w)"
  by (simp only: be64_bytes_def le_bytes_map rev_map)

lemma be64_bytes_inj: "be64_bytes v = be64_bytes w \<longleftrightarrow> v = w"
proof
  assume "be64_bytes v = be64_bytes w"
  then have "(le_of (le_bytes 8 v) :: u64) = le_of (le_bytes 8 w)" by (simp add: be64_bytes_rev)
  then show "v = w" by (simp add: le_roundtrip)
qed simp

lemma length_be64_bytes [simp]: "length (be64_bytes w) = 8"
  by (simp add: be64_bytes_def)

lemma length_sha_padding: "length (sha_padding n) = zeros_missing (n + 1) + 9"
  by (simp add: sha_padding_def)

lemma sha_padding_blocks: "(n + length (sha_padding n)) mod 64 = 0"
proof -
  have "(n + 1 + zeros_missing (n + 1) + 8) mod 64 = (56 + 8) mod 64"
    using zeros_missing_mod [of "n + 1"] by (metis mod_add_left_eq)
  then show ?thesis by (simp add: length_sha_padding add_ac)
qed

lemma length_sha_padding_le: "length (sha_padding n) \<le> 72"
  using zeros_missing_less [of "n + 1"] by (simp add: length_sha_padding)

text \<open>The attacker's padding against that of the standard.\<close>

lemma length_bytes_be64: "length_bytes len = be64_bytes (ucast (len * 8))"
  by (simp add: length_bytes_def be64_bytes_def)

lemma padding_1_eq:
  "padding_1 n = [0x80] @ replicate (zeros_missing (KEY_LEN + n + 1)) 0 @
    be64_bytes (of_nat (8 * (KEY_LEN + n) mod 2 ^ 32))"
proof -
  let ?len = "of_nat (KEY_LEN + n) :: u32"
  have "unat ?len mod 64 = (KEY_LEN + n) mod 64"
    by (simp only: unat_of_nat) (simp add: mod_mod_cancel)
  then have "(unat ?len + 1) mod 64 = (KEY_LEN + n + 1) mod 64"
    by (metis mod_add_left_eq)
  then have z: "zeros_missing (Suc (unat ?len)) = zeros_missing (Suc (KEY_LEN + n))"
    by (simp add: zeros_missing_def del: of_nat_add)
  have "?len * 8 = of_nat (8 * (KEY_LEN + n))" by (simp add: algebra_simps)
  then have "unat (?len * 8) = 8 * (KEY_LEN + n) mod 2 ^ 32" by (simp only: unat_of_nat) simp
  then have "(ucast (?len * 8) :: u64) = of_nat (8 * (KEY_LEN + n) mod 2 ^ 32)"
    by (metis of_nat_unat)
  then show ?thesis
    by (simp add: padding_1_def Let_def pad_zeros_eq length_bytes_be64 z del: of_nat_add)
qed

lemma length_padding_1: "length (padding_1 n) = length (sha_padding (KEY_LEN + n))"
  by (simp add: padding_1_eq length_sha_padding)

lemma padding_1_sha_padding:
  assumes "8 * (KEY_LEN + n) < 2 ^ 64"
  shows "padding_1 n = sha_padding (KEY_LEN + n) \<longleftrightarrow> 8 * (KEY_LEN + n) < 2 ^ 32"
proof -
  let ?b = "8 * (KEY_LEN + n)"
  have "?b mod 2 ^ 32 < 2 ^ 64" by (rule less_le_trans [OF mod_less_divisor]) simp_all
  then have "(of_nat (?b mod 2 ^ 32) :: u64) = of_nat ?b \<longleftrightarrow> ?b mod 2 ^ 32 = ?b"
    using assms by (simp only: word_of_nat_eq_iff) (simp add: take_bit_nat_eq_self)
  also have "\<dots> \<longleftrightarrow> ?b < 2 ^ 32"
    by (metis mod_less mod_less_divisor zero_less_numeral zero_less_power)
  finally show ?thesis
    unfolding padding_1_eq sha_padding_def same_append_eq be64_bytes_inj .
qed

subsection \<open>The digest as eight words\<close>

lemma be32_concat:
  assumes "i < length ws"
  shows "be32 (concat (map be32_bytes ws)) (i * 4) = Inr (ws ! i)"
proof -
  let ?pre = "concat (map be32_bytes (take i ws))" and ?post = "concat (map be32_bytes (drop (Suc i) ws))"
  have "concat (map be32_bytes ws) = ?pre @ be32_bytes (ws ! i) @ ?post"
    by (subst id_take_nth_drop [OF assms]) simp
  moreover have "length ?pre = i * 4"
    using assms by (simp add: length_concat comp_def sum_list_triv)
  ultimately show ?thesis using be32.dec_enc [of ?pre "ws ! i" ?post] by simp
qed

lemma token_state_words: "length ws = 8 \<Longrightarrow> token_state (concat (map be32_bytes ws)) = Inr ws"
  by (simp add: token_state_def mapE_Inr_iff be32_concat)

text \<open>
  A context that has processed \<open>n\<close> bytes: its chaining value is \<open>h\<close> and the last \<open>length p\<close> bytes,
  not yet a block, are buffered.
\<close>

definition ctx_is :: "u32 list \<Rightarrow> nat \<Rightarrow> byte list \<Rightarrow> SHA256_CTX \<Rightarrow> bool" where
  "ctx_is h n p c \<longleftrightarrow> ctx_h c = h \<and> length h = 8 \<and> ctx_num c = length p \<and> length p < 64 \<and>
     take (length p) (ctx_data c) = p \<and> n mod 64 = length p mod 64 \<and>
     push_bit 32 (ucast (ctx_Nh c)) OR ucast (ctx_Nl c) = (of_nat (8 * n) :: u64)"

locale sha256_lib =
  fixes lib :: sha_lib and compress :: "u32 list \<Rightarrow> byte list \<Rightarrow> u32 list" and iv :: "u32 list"
  assumes init_law: "ctx_is iv 0 [] (SHA256_Init lib c)"
    and compress_len: "length h = 8 \<Longrightarrow> length (compress h b) = 8"
    and update_law: "ctx_is h n p c \<Longrightarrow> absorb compress h (p @ d) = (h', p') \<Longrightarrow>
      ctx_is h' (n + length d) p' (SHA256_Update lib c d)"
    and final_law: "ctx_is h n p c \<Longrightarrow> absorb compress h (p @ sha_padding n) = (h', []) \<Longrightarrow>
      SHA256_Final lib c = concat (map be32_bytes h')"
begin

definition digest :: "byte list \<Rightarrow> byte list" where
  "digest m = concat (map be32_bytes (fst (absorb compress iv (m @ sha_padding (length m)))))"

lemma ctx_is_update:
  "ctx_is h n p c \<Longrightarrow>
   ctx_is (fst (absorb compress h (p @ d))) (n + length d) (snd (absorb compress h (p @ d))) (SHA256_Update lib c d)"
  by (rule update_law) simp_all

lemma final_is:
  assumes "ctx_is h n p c"
  shows "SHA256_Final lib c = concat (map be32_bytes (fst (absorb compress h (p @ sha_padding n))))"
proof -
  have "(n mod 64 + length (sha_padding n)) mod 64 = 0"
    using sha_padding_blocks [of n] by (simp add: mod_add_left_eq)
  moreover have "n mod 64 = length p" using assms by (simp add: ctx_is_def)
  ultimately have "snd (absorb compress h (p @ sha_padding n)) = []"
    by (simp add: length_absorb_rest flip: length_0_conv)
  then show ?thesis using final_law [OF assms] by (metis prod.collapse)
qed

text \<open>Hashing a message in two pieces, from a context that stands after whole blocks.\<close>

lemma final_update:
  assumes "ctx_is h n [] c"
  shows "SHA256_Final lib (SHA256_Update lib c d) =
    concat (map be32_bytes (fst (absorb compress h (d @ sha_padding (n + length d)))))"
  using final_is [OF ctx_is_update [OF assms, of d]] by simp

lemma naive_mac_digest: "naive_mac lib junk key msg = digest (key @ msg)"
proof -
  have "ctx_is (fst (absorb compress iv key)) (length key) (snd (absorb compress iv key))
      (SHA256_Update lib (SHA256_Init lib junk) key)"
    using ctx_is_update [OF init_law [of junk], of key] by simp
  from final_is [OF ctx_is_update [OF this, of msg]]
  show ?thesis by (simp add: naive_mac_def digest_def)
qed

lemma length_digest_state: "length (fst (absorb compress iv m)) = 8"
  using init_law by (intro length_absorb_state compress_len) (auto simp: ctx_is_def)

text \<open>What an attacker reads from a digest is the chaining value after the padded message.\<close>

lemma token_state_digest:
  "token_state (digest m) = Inr (fst (absorb compress iv (m @ sha_padding (length m))))"
  by (simp add: digest_def token_state_words length_digest_state)

lemma forged_context:
  assumes "length h = 8" and "n mod 64 = 0" and "8 * n < 2 ^ 32"
  shows "ctx_is h n [] (c\<lparr>ctx_h := h, ctx_Nl := of_nat (8 * n), ctx_Nh := 0, ctx_num := 0\<rparr>)"
proof -
  have "(ucast (of_nat (8 * n) :: u32) :: u64) = of_nat (unat (of_nat (8 * n) :: u32))"
    by (simp only: of_nat_unat)
  also have "\<dots> = of_nat (8 * n)" using assms by (simp only: unat_of_nat) simp
  finally show ?thesis using assms by (simp add: ctx_is_def del: of_nat_mult)
qed

lemma attack_digest:
  assumes "length key = KEY_LEN" and "8 * (KEY_LEN + length msg + 72) < 2 ^ 32"
  shows "length_extension_attack lib junk msg (digest (key @ msg)) ext =
    Inr (msg @ padding_1 (length msg) @ ext, digest (key @ msg @ padding_1 (length msg) @ ext))"
proof -
  let ?n = "KEY_LEN + length msg" and ?h = "fst (absorb compress iv (key @ msg @ sha_padding (length (key @ msg))))"
  let ?N = "?n + length (sha_padding ?n)"
  have le: "length (sha_padding ?n) \<le> 72" by (rule length_sha_padding_le)
  then have b: "8 * ?n < 2 ^ 32" "8 * ?N < 2 ^ 32" using assms(2) by simp_all
  have pad: "padding_1 (length msg) = sha_padding ?n"
    using b(1) by (subst padding_1_sha_padding) simp_all
  have c: "ctx_is ?h ?N [] (c\<lparr>ctx_h := ?h, ctx_Nl := of_nat (8 * ?N), ctx_Nh := 0, ctx_num := 0\<rparr>)" for c
    by (rule forged_context [OF length_digest_state sha_padding_blocks b(2)])
  have "length_extension_attack lib junk msg (digest (key @ msg)) ext =
      Inr (msg @ sha_padding ?n @ ext,
        concat (map be32_bytes (fst (absorb compress ?h (ext @ sha_padding (?N + length ext))))))"
    using final_update [OF c] by (simp add: length_extension_attack_def token_state_digest pad Let_def mult.commute assms(1))
  moreover have "snd (absorb compress iv (key @ msg @ sha_padding ?n)) = []"
    using sha_padding_blocks [of ?n] assms(1) by (simp add: length_absorb_rest add.assoc flip: length_0_conv)
  then have "absorb compress iv (key @ msg @ sha_padding ?n @ r) = absorb compress ?h r" for r
    using absorb_resume [of compress iv "key @ msg @ sha_padding ?n" r] assms(1) by simp
  ultimately show ?thesis by (simp add: digest_def pad assms(1) add.assoc)
qed

end

section \<open>An implementation of the interface\<close>

text \<open>
  The context operations for an arbitrary compression function, and the compression function and
  initial value of FIPS 180-4.
\<close>

definition ctx_bits :: "SHA256_CTX \<Rightarrow> u64" where
  "ctx_bits c = push_bit 32 (ucast (ctx_Nh c)) OR ucast (ctx_Nl c)"

definition set_bits_ctx :: "u64 \<Rightarrow> SHA256_CTX \<Rightarrow> SHA256_CTX" where
  "set_bits_ctx b c = c\<lparr>ctx_Nl := ucast b, ctx_Nh := ucast (drop_bit 32 b)\<rparr>"

definition md_init :: "u32 list \<Rightarrow> SHA256_CTX \<Rightarrow> SHA256_CTX" where
  "md_init iv c = c\<lparr>ctx_h := iv, ctx_Nl := 0, ctx_Nh := 0, ctx_num := 0\<rparr>"

definition md_update :: "(u32 list \<Rightarrow> byte list \<Rightarrow> u32 list) \<Rightarrow> SHA256_CTX \<Rightarrow> byte list \<Rightarrow> SHA256_CTX" where
  "md_update compress c d =
     (let (h, p) = absorb compress (ctx_h c) (take (ctx_num c) (ctx_data c) @ d)
      in set_bits_ctx (ctx_bits c + of_nat (8 * length d)) (c\<lparr>ctx_h := h, ctx_data := p, ctx_num := length p\<rparr>))"

definition md_final :: "(u32 list \<Rightarrow> byte list \<Rightarrow> u32 list) \<Rightarrow> SHA256_CTX \<Rightarrow> byte list" where
  "md_final compress c =
     (let pad = [0x80] @ replicate (zeros_missing (ctx_num c + 1)) 0 @ be64_bytes (ctx_bits c)
      in concat (map be32_bytes (fst (absorb compress (ctx_h c) (take (ctx_num c) (ctx_data c) @ pad)))))"

definition md_lib :: "(u32 list \<Rightarrow> byte list \<Rightarrow> u32 list) \<Rightarrow> u32 list \<Rightarrow> sha_lib" where
  "md_lib compress iv =
     \<lparr>SHA256_Init = md_init iv, SHA256_Update = md_update compress, SHA256_Final = md_final compress\<rparr>"

lemma ctx_bits_set [simp]: "ctx_bits (set_bits_ctx b c) = b"
  by (rule bit_word_eqI) (auto simp: ctx_bits_def set_bits_ctx_def bit_simps)

lemma set_bits_ctx_frame [simp]:
  "ctx_h (set_bits_ctx b c) = ctx_h c" "ctx_num (set_bits_ctx b c) = ctx_num c"
  "ctx_data (set_bits_ctx b c) = ctx_data c"
  by (simp_all add: set_bits_ctx_def)

lemma ctx_is_bits:
  "ctx_is h n p c \<longleftrightarrow> ctx_h c = h \<and> length h = 8 \<and> ctx_num c = length p \<and> length p < 64 \<and>
     take (length p) (ctx_data c) = p \<and> n mod 64 = length p mod 64 \<and> ctx_bits c = of_nat (8 * n)"
  by (simp only: ctx_is_def ctx_bits_def)

lemma md_sha256_lib:
  assumes len: "\<And>h b. length h = 8 \<Longrightarrow> length (compress h b) = 8" and iv: "length iv = 8"
  shows "sha256_lib (md_lib compress iv) compress iv"
proof
  show "ctx_is iv 0 [] (SHA256_Init (md_lib compress iv) c)" for c
    by (simp add: ctx_is_def md_lib_def md_init_def iv)
next
  fix h n p c d h' p'
  assume c: "ctx_is h n p c" and a: "absorb compress h (p @ d) = (h', p')"
  have "length p' = (length p + length d) mod 64" "length h' = 8"
    using length_absorb_rest [of compress h "p @ d"] length_absorb_state [of compress h "p @ d", OF len] a c
    by (simp_all add: ctx_is_def)
  moreover have "(n + length d) mod 64 = (length p + length d) mod 64"
    using c mod_add_left_eq [of n 64 "length d"] mod_add_left_eq [of "length p" 64 "length d"]
    unfolding ctx_is_def by simp
  ultimately have "length p' < 64" "length h' = 8" "(n + length d) mod 64 = length p' mod 64" by simp_all
  moreover have "SHA256_Update (md_lib compress iv) c d = set_bits_ctx (ctx_bits c + of_nat (8 * length d))
      (c\<lparr>ctx_h := h', ctx_data := p', ctx_num := length p'\<rparr>)"
    using c a by (simp add: ctx_is_bits md_lib_def md_update_def)
  ultimately show "ctx_is h' (n + length d) p' (SHA256_Update (md_lib compress iv) c d)"
    using c by (simp add: ctx_is_bits)
next
  fix h n p c h'
  assume c: "ctx_is h n p c" and a: "absorb compress h (p @ sha_padding n) = (h', [])"
  have "(length p + 1) mod 64 = (n + 1) mod 64"
    using c mod_add_left_eq [of n 64 1] mod_add_left_eq [of "length p" 64 1]
    unfolding ctx_is_def by simp
  then have "zeros_missing (ctx_num c + 1) = zeros_missing (n + 1)"
    using c by (simp only: zeros_missing_def ctx_is_def)
  then show "SHA256_Final (md_lib compress iv) c = concat (map be32_bytes h')"
    using c a by (simp add: md_lib_def md_final_def ctx_is_bits sha_padding_def)
qed (rule len)

subsection \<open>The compression function of SHA-256\<close>

text \<open>
  The constants are the first 32 bits of the fractional parts of the cube roots of the first 64 primes, and
  of the square roots of the first eight.  \<open>int_root k n bits 0\<close> is the integer \<open>k\<close>-th root of \<open>n\<close>, found bit
  by bit.
\<close>

fun int_root :: "nat \<Rightarrow> int \<Rightarrow> nat \<Rightarrow> int \<Rightarrow> int" where
  "int_root k n 0 r = r"
| "int_root k n (Suc b) r = int_root k n b (if (r + 2 ^ b) ^ k \<le> n then r + 2 ^ b else r)"

definition primes_below :: "nat \<Rightarrow> nat list" where
  "primes_below m = filter (\<lambda>p. list_all (\<lambda>d. p mod d \<noteq> 0) [2..<p]) [2..<m]"

definition sha256_K :: "u32 list" where
  "sha256_K = map (\<lambda>p. of_int (int_root 3 (int p * 2 ^ 96) 36 0)) (primes_below 312)"

definition sha256_iv :: "u32 list" where
  "sha256_iv = map (\<lambda>p. of_int (int_root 2 (p * 2 ^ 64) 36 0)) [2, 3, 5, 7, 11, 13, 17, 19]"

fun sha256_schedule :: "nat \<Rightarrow> u32 list \<Rightarrow> u32 list" where
  "sha256_schedule 0 w = w"
| "sha256_schedule (Suc k) w =
     (let t = length w; x = w ! (t - 15); y = w ! (t - 2);
          s0 = word_rotr 7 x XOR word_rotr 18 x XOR drop_bit 3 x;
          s1 = word_rotr 17 y XOR word_rotr 19 y XOR drop_bit 10 y
      in sha256_schedule k (w @ [s1 + w ! (t - 7) + s0 + w ! (t - 16)]))"

fun sha256_round :: "u32 \<times> u32 \<Rightarrow> u32 list \<Rightarrow> u32 list" where
  "sha256_round (k, w) [a, b, c, d, e, f, g, h] =
     (let t1 = h + (word_rotr 6 e XOR word_rotr 11 e XOR word_rotr 25 e) +
            ((e AND f) XOR (NOT e AND g)) + k + w;
          t2 = (word_rotr 2 a XOR word_rotr 13 a XOR word_rotr 22 a) +
            ((a AND b) XOR (a AND c) XOR (b AND c))
      in [t1 + t2, a, b, c, d + t1, e, f, g])"
| "sha256_round _ s = s"

definition sha256_compress :: "u32 list \<Rightarrow> byte list \<Rightarrow> u32 list" where
  "sha256_compress h b =
     (let ws = map (\<lambda>i. be32_of (b ! (4 * i)) (b ! (4 * i + 1)) (b ! (4 * i + 2)) (b ! (4 * i + 3))) [0..<16]
      in map2 (+) h (fold sha256_round (zip sha256_K (sha256_schedule 48 ws)) h))"

definition sha256_spec :: sha_lib where
  "sha256_spec = md_lib sha256_compress sha256_iv"

lemma length_sha256_round [simp]: "length (sha256_round kw s) = length s"
  by (cases "(kw, s)" rule: sha256_round.cases) (simp_all add: Let_def)

lemma length_fold_round [simp]: "length (fold sha256_round kws s) = length s"
  by (induction kws arbitrary: s) simp_all

interpretation sha: sha256_lib sha256_spec sha256_compress sha256_iv
  unfolding sha256_spec_def
  by (rule md_sha256_lib) (simp_all add: sha256_compress_def sha256_iv_def)

section \<open>Properties\<close>

definition blank_ctx :: SHA256_CTX where
  "blank_ctx = \<lparr>ctx_h = [], ctx_Nl = 0, ctx_Nh = 0, ctx_data = [], ctx_num = 0\<rparr>"

text \<open>
  C15: The attack forges.  For every key of \<open>KEY_LEN\<close> bytes, every message and every extension, the
  attack, which sees the token and not the key, returns the message followed by the padding of the
  standard and the extension, with a token that the server accepts for it.  This holds for every
  hash of Merkle-Damgaard shape behind the OpenSSL interface, whatever the contexts hold at
  the start, as long as the lengths in bits stay below \<open>2 ^ 32\<close>.
\<close>

theorem length_extension_forges:
  assumes "sha256_lib lib compress iv"
    and "length key = KEY_LEN" and "8 * (KEY_LEN + length msg + 72) < 2 ^ 32"
  shows "\<exists>token'. length_extension_attack lib junk msg (naive_mac lib junk' key msg) extension =
      Inr (msg @ sha_padding (KEY_LEN + length msg) @ extension, token') \<and>
    server_verify_naive lib junk'' key (msg @ sha_padding (KEY_LEN + length msg) @ extension) token'"
proof -
  have "padding_1 (length msg) = sha_padding (KEY_LEN + length msg)"
    using assms(3) by (subst padding_1_sha_padding) simp_all
  then show ?thesis
    using sha256_lib.attack_digest [OF assms] sha256_lib.naive_mac_digest [OF assms(1)]
    by (simp add: server_verify_naive_def)
qed

theorem length_extension_forges_witness:
  "\<exists>token'. length_extension_attack sha256_spec blank_ctx (bytes_of ''command=reboot'')
      (naive_mac sha256_spec blank_ctx SECRET_KEY (bytes_of ''command=reboot'')) (bytes_of ''&admin=1'') =
      Inr (bytes_of ''command=reboot'' @ sha_padding 30 @ bytes_of ''&admin=1'', token') \<and>
    server_verify_naive sha256_spec blank_ctx SECRET_KEY
      (bytes_of ''command=reboot'' @ sha_padding 30 @ bytes_of ''&admin=1'') token'"
  using length_extension_forges [OF sha.sha256_lib_axioms, of SECRET_KEY "bytes_of ''command=reboot''"
      blank_ctx blank_ctx "bytes_of ''&admin=1''" blank_ctx]
  by (simp add: SECRET_KEY_def KEY_LEN_def)

text \<open>
  C29: The padding loop ends, with a whole number of blocks, and the padding is that of SHA-256 exactly
  for keyed messages below 512 MiB: from there on the 32-bit product \<open>length * 8\<close> loses the high bits of
  the bit count, and the padding differs from what the hash used.
\<close>

theorem attacker_padding_correct_iff:
  assumes "8 * (KEY_LEN + n) < 2 ^ 64"
  shows "(KEY_LEN + n + length (padding_1 n)) mod 64 = 0 \<and> length (padding_1 n) \<le> 72 \<and>
    (padding_1 n = sha_padding (KEY_LEN + n) \<longleftrightarrow> KEY_LEN + n < 2 ^ 29)"
  using padding_1_sha_padding [OF assms] sha_padding_blocks [of "KEY_LEN + n"]
    length_sha_padding_le [of "KEY_LEN + n"]
  by (auto simp: length_padding_1)

theorem attacker_padding_correct_iff_witness:
  "padding_1 14 = sha_padding 30 \<and> padding_1 536870912 \<noteq> sha_padding 536870928"
  using attacker_padding_correct_iff [of 14] attacker_padding_correct_iff [of 536870912]
  by (simp add: KEY_LEN_def)

text \<open>
  \<open>main\<close>: part A passes, and the exit status is 0 exactly when the HMAC of the extended message is
  not the forged token.
\<close>

theorem attack_main_outcome:
  assumes "sha256_lib lib compress iv"
  shows "\<exists>ext_msg forged. length_extension_attack lib junk (bytes_of ''command=reboot'')
      (naive_mac lib junk SECRET_KEY (bytes_of ''command=reboot'')) (bytes_of ''&admin=1'') = Inr (ext_msg, forged) \<and>
    attack_main lib junk hmac = Inr (True, hmac SECRET_KEY ext_msg \<noteq> forged,
      if hmac SECRET_KEY ext_msg \<noteq> forged then 0 else 1)"
proof -
  have k: "length SECRET_KEY = KEY_LEN" by (simp add: SECRET_KEY_def KEY_LEN_def)
  have "8 * (KEY_LEN + length (bytes_of ''command=reboot'') + 72) < 2 ^ 32" by (simp add: KEY_LEN_def)
  from sha256_lib.attack_digest [OF assms k this]
  show ?thesis
    by (simp add: attack_main_def server_verify_naive_def server_verify_hmac_def hmac_sha256_mac_def
        sha256_lib.naive_mac_digest [OF assms])
qed

theorem attack_main_outcome_witness:
  "\<exists>part_b. attack_main sha256_spec blank_ctx (\<lambda>key msg. []) =
     Inr (True, part_b, if part_b then 0 else 1)"
  using attack_main_outcome [OF sha.sha256_lib_axioms, of blank_ctx "\<lambda>key msg. []"] by blast

end
