(* ===== verification/Treiber_Stack.thy ===== *)
theory Treiber_Stack
  imports Prelude "HOL-Library.Multiset"
begin

text \<open>
  The lock-free stack of \<^verbatim>\<open>02-treiber_lock_free_stack/main.cpp\<close> and its stress test.

  Every access to shared memory is one step, and the steps of the threads interleave in any order
  (sequential consistency).  A thread is the place it has reached in \<open>push\<close>, \<open>pop\<close> or its own loop,
  with its local variables; \<open>compare_exchange_weak\<close> may fail without cause.  A null pointer is
  \<open>None\<close>; an access to a node that is not allocated is \<open>Inl UseAfterFree\<close>.
\<close>

section \<open>The stack\<close>

type_synonym addr = nat

record 'v Node =
  node_value :: 'v
  node_next :: "addr option"

type_synonym 'v heap = "addr \<rightharpoonup> 'v Node"

record 'v TreiberStack =
  ts_head :: "addr option"
  ts_trash :: "addr option"
  ts_heap :: "'v heap"

definition stack_new :: "'v TreiberStack" where
  "stack_new = \<lparr>ts_head = None, ts_trash = None, ts_heap = Map.empty\<rparr>"

definition node_at :: "'v heap \<Rightarrow> addr \<Rightarrow> 'v Node c_res" where
  "node_at h a = (case h a of None \<Rightarrow> Inl UseAfterFree | Some nd \<Rightarrow> Inr nd)"

definition set_next :: "addr \<Rightarrow> addr option \<Rightarrow> 'v TreiberStack \<Rightarrow> 'v TreiberStack c_res" where
  "set_next a p s =
     bindE (node_at (ts_heap s) a) (\<lambda>nd. Inr (s\<lparr>ts_heap := (ts_heap s)(a \<mapsto> nd\<lparr>node_next := p\<rparr>)\<rparr>))"

text \<open>
  \<open>cell.compare_exchange_weak(expected, desired)\<close>: whether it succeeded, the new value of the cell and
  that of \<open>expected\<close>; \<open>spurious\<close> is a failure without cause.
\<close>

definition compare_exchange_weak :: "bool \<Rightarrow> 'a \<Rightarrow> 'a \<Rightarrow> 'a \<Rightarrow> bool \<times> 'a \<times> 'a" where
  "compare_exchange_weak spurious cell expected desired =
     (if cell = expected \<and> \<not> spurious then (True, desired, expected) else (False, cell, cell))"

subsection \<open>push\<close>

text \<open>The next action of a thread in \<open>push\<close>; \<open>None\<close> is the return.\<close>

datatype 'v push_pc =
    PushNew 'v                        \<comment> \<open>\<open>new Node(val)\<close>\<close>
  | PushLoad addr                     \<comment> \<open>\<open>head.load\<close>\<close>
  | PushSet addr "addr option"        \<comment> \<open>\<open>newHead->next = oldHead\<close>\<close>
  | PushCas addr "addr option"        \<comment> \<open>\<open>head.compare_exchange_weak(oldHead, newHead)\<close>\<close>

fun push_step :: "addr \<Rightarrow> bool \<Rightarrow> 'v TreiberStack \<Rightarrow> 'v push_pc \<Rightarrow> ('v TreiberStack \<times> 'v push_pc option) c_res" where
  "push_step new sp s (PushNew v) =
     Inr (s\<lparr>ts_heap := (ts_heap s)(new \<mapsto> \<lparr>node_value = v, node_next = None\<rparr>)\<rparr>, Some (PushLoad new))"
| "push_step new sp s (PushLoad newHead) = Inr (s, Some (PushSet newHead (ts_head s)))"
| "push_step new sp s (PushSet newHead oldHead) =
     bindE (set_next newHead oldHead s) (\<lambda>s'. Inr (s', Some (PushCas newHead oldHead)))"
| "push_step new sp s (PushCas newHead oldHead) =
     (case compare_exchange_weak sp (ts_head s) oldHead (Some newHead) of (ok, cell, old) \<Rightarrow>
        Inr (s\<lparr>ts_head := cell\<rparr>, if ok then None else Some (PushSet newHead old)))"

subsection \<open>pop\<close>

datatype 'v pop_pc =
    PopLoad                           \<comment> \<open>\<open>head.load\<close>\<close>
  | PopNext "addr option"             \<comment> \<open>the null check and \<open>newHead = oldHead->next\<close>\<close>
  | PopCas addr "addr option"         \<comment> \<open>\<open>head.compare_exchange_weak(oldHead, newHead)\<close>\<close>
  | PopTake addr                      \<comment> \<open>\<open>val = std::move(oldHead->value)\<close>\<close>
  | TrashLoad addr 'v                 \<comment> \<open>\<open>trash.load\<close>\<close>
  | TrashSet addr 'v "addr option"    \<comment> \<open>\<open>oldHead->next = old_trash\<close>\<close>
  | TrashCas addr 'v "addr option"    \<comment> \<open>\<open>trash.compare_exchange_weak(old_trash, oldHead)\<close>\<close>
  | PopDone "'v option"               \<comment> \<open>the return value\<close>

fun pop_step :: "bool \<Rightarrow> 'v TreiberStack \<Rightarrow> 'v pop_pc \<Rightarrow> ('v TreiberStack \<times> 'v pop_pc) c_res" where
  "pop_step sp s PopLoad = Inr (s, PopNext (ts_head s))"
| "pop_step sp s (PopNext None) = Inr (s, PopDone None)"
| "pop_step sp s (PopNext (Some oldHead)) =
     bindE (node_at (ts_heap s) oldHead) (\<lambda>nd. Inr (s, PopCas oldHead (node_next nd)))"
| "pop_step sp s (PopCas oldHead newHead) =
     (case compare_exchange_weak sp (ts_head s) (Some oldHead) newHead of (ok, cell, old) \<Rightarrow>
        Inr (s\<lparr>ts_head := cell\<rparr>, if ok then PopTake oldHead else PopNext old))"
| "pop_step sp s (PopTake oldHead) =
     bindE (node_at (ts_heap s) oldHead) (\<lambda>nd. Inr (s, TrashLoad oldHead (node_value nd)))"
| "pop_step sp s (TrashLoad oldHead val) = Inr (s, TrashSet oldHead val (ts_trash s))"
| "pop_step sp s (TrashSet oldHead val old_trash) =
     bindE (set_next oldHead old_trash s) (\<lambda>s'. Inr (s', TrashCas oldHead val old_trash))"
| "pop_step sp s (TrashCas oldHead val old_trash) =
     (case compare_exchange_weak sp (ts_trash s) old_trash (Some oldHead) of (ok, cell, old) \<Rightarrow>
        Inr (s\<lparr>ts_trash := cell\<rparr>, if ok then PopDone (Some val) else TrashSet oldHead val old))"
| "pop_step sp s (PopDone r) = Inr (s, PopDone r)"

subsection \<open>empty and the destructor\<close>

definition stack_empty :: "'v TreiberStack \<Rightarrow> bool" where
  "stack_empty s \<longleftrightarrow> ts_head s = None"

text \<open>\<open>while (cur) { Node* next = cur->next; delete cur; cur = next; }\<close>\<close>

partial_function (option) free_list :: "'v heap \<Rightarrow> addr option \<Rightarrow> 'v heap c_res option" where
  "free_list h cur =
     (case cur of None \<Rightarrow> Some (Inr h)
      | Some a \<Rightarrow> (case h a of None \<Rightarrow> Some (Inl UseAfterFree)
                   | Some nd \<Rightarrow> free_list (h(a := None)) (node_next nd)))"

definition stack_destroy :: "'v TreiberStack \<Rightarrow> 'v heap c_res option" where
  "stack_destroy s =
     (case free_list (ts_heap s) (ts_head s) of
        Some (Inr h) \<Rightarrow> free_list h (ts_trash s)
      | r \<Rightarrow> r)"

section \<open>The stress test\<close>

text \<open>A producer has values left to push; a consumer polls \<open>done\<close> and \<open>empty\<close> and pops.\<close>

datatype 'v consumer_pc = CheckDone | CheckEmpty | Popping "'v pop_pc" | Finished

datatype 'v thread =
    Producer "'v list" "'v push_pc option"
  | Consumer "'v consumer_pc" "'v set"

record 'v sys =
  sys_stack :: "'v TreiberStack"
  sys_done :: bool
  sys_threads :: "'v thread list"

definition STRESS_TEST_N :: nat where "STRESS_TEST_N = 10000"

fun producer_step ::
    "addr \<Rightarrow> bool \<Rightarrow> 'v TreiberStack \<Rightarrow> 'v list \<Rightarrow> 'v push_pc option \<Rightarrow> ('v TreiberStack \<times> 'v thread) c_res" where
  "producer_step new sp s [] None = Inr (s, Producer [] None)"
| "producer_step new sp s (i # is) None = Inr (s, Producer is (Some (PushNew i)))"
| "producer_step new sp s is (Some pc) = bindE (push_step new sp s pc) (\<lambda>(s', pc'). Inr (s', Producer is pc'))"

fun consumer_step ::
    "bool \<Rightarrow> bool \<Rightarrow> 'v TreiberStack \<Rightarrow> 'v consumer_pc \<Rightarrow> 'v set \<Rightarrow> ('v TreiberStack \<times> 'v thread) c_res" where
  "consumer_step dn sp s CheckDone cons_set =
     Inr (s, Consumer (if dn then CheckEmpty else Popping PopLoad) cons_set)"
| "consumer_step dn sp s CheckEmpty cons_set =
     Inr (s, Consumer (if stack_empty s then Finished else Popping PopLoad) cons_set)"
| "consumer_step dn sp s (Popping (PopDone r)) cons_set =
     Inr (s, Consumer CheckDone (case r of None \<Rightarrow> cons_set | Some v \<Rightarrow> insert v cons_set))"
| "consumer_step dn sp s (Popping pc) cons_set =
     bindE (pop_step sp s pc) (\<lambda>(s', pc'). Inr (s', Consumer (Popping pc') cons_set))"
| "consumer_step dn sp s Finished cons_set = Inr (s, Consumer Finished cons_set)"

fun thread_step :: "addr \<Rightarrow> bool \<Rightarrow> bool \<Rightarrow> 'v TreiberStack \<Rightarrow> 'v thread \<Rightarrow> ('v TreiberStack \<times> 'v thread) c_res" where
  "thread_step new sp dn s (Producer is pc) = producer_step new sp s is pc"
| "thread_step new sp dn s (Consumer pc cons_set) = consumer_step dn sp s pc cons_set"

fun producer_finished :: "'v thread \<Rightarrow> bool" where
  "producer_finished (Producer is pc) \<longleftrightarrow> is = [] \<and> pc = None"
| "producer_finished (Consumer pc S) \<longleftrightarrow> True"

fun consumer_finished :: "'v thread \<Rightarrow> bool" where
  "consumer_finished (Producer is pc) \<longleftrightarrow> True"
| "consumer_finished (Consumer pc S) \<longleftrightarrow> pc = Finished"

definition step_at :: "addr \<Rightarrow> bool \<Rightarrow> nat \<Rightarrow> 'v sys \<Rightarrow> 'v sys c_res" where
  "step_at new sp i s =
     bindE (thread_step new sp (sys_done s) (sys_stack s) (sys_threads s ! i)) (\<lambda>(st, t).
       Inr (s\<lparr>sys_stack := st, sys_threads := (sys_threads s)[i := t]\<rparr>))"

text \<open>
  One step of the program: of a thread, where \<open>new\<close> returns memory that is not in use, or of \<open>main\<close>,
  which sets \<open>done\<close> when the producers have been joined.
\<close>

inductive sys_step :: "'v sys \<Rightarrow> 'v sys \<Rightarrow> bool" where
  run: "i < length (sys_threads s) \<Longrightarrow> ts_heap (sys_stack s) new = None \<Longrightarrow> step_at new sp i s = Inr s' \<Longrightarrow>
    sys_step s s'"
| signal: "list_all producer_finished (sys_threads s) \<Longrightarrow> sys_step s (s\<lparr>sys_done := True\<rparr>)"

definition stress_sys :: "nat \<Rightarrow> nat \<Rightarrow> nat \<Rightarrow> int sys" where
  "stress_sys producers consumers N =
     \<lparr>sys_stack = stack_new, sys_done = False,
      sys_threads = map (\<lambda>n. Producer (map int [n * N..<N + n * N]) None) [0..<producers] @
        replicate consumers (Consumer CheckDone {})\<rparr>"

definition main_sys :: "int sys" where
  "main_sys = stress_sys 4 4 STRESS_TEST_N"

fun received :: "'v thread \<Rightarrow> 'v set" where
  "received (Producer is pc) = {}"
| "received (Consumer pc S) = S"

text \<open>The verdict of \<open>main\<close> on the merged sets.\<close>

definition stress_verdict :: "nat \<Rightarrow> int thread list \<Rightarrow> bool" where
  "stress_verdict expected ts =
     (let all_sets = \<Union> (set (map received ts))
      in card all_sets = expected \<and> list_all (\<lambda>i. int i \<in> all_sets) [0..<expected])"

section \<open>Chains of nodes\<close>

fun chain :: "'v heap \<Rightarrow> addr option \<Rightarrow> addr list \<Rightarrow> bool" where
  "chain h p [] \<longleftrightarrow> p = None"
| "chain h p (a # as) \<longleftrightarrow> p = Some a \<and> (case h a of None \<Rightarrow> False | Some nd \<Rightarrow> chain h (node_next nd) as)"

lemma chain_Cons: "chain h p (a # as) \<longleftrightarrow> p = Some a \<and> (\<exists>nd. h a = Some nd \<and> chain h (node_next nd) as)"
  by (auto split: option.splits)

lemma chain_None [simp]: "chain h None as \<longleftrightarrow> as = []"
  by (cases as) auto

lemma chain_Some: "chain h (Some a) as \<longleftrightarrow> (\<exists>nd as'. as = a # as' \<and> h a = Some nd \<and> chain h (node_next nd) as')"
  by (cases as) (auto simp: chain_Cons simp del: chain.simps(2))

lemma chain_dom: "chain h p as \<Longrightarrow> set as \<subseteq> dom h"
  by (induction as arbitrary: p) (auto split: option.splits)

lemma chain_cong: "(\<And>a. a \<in> set as \<Longrightarrow> h' a = h a) \<Longrightarrow> chain h' p as \<longleftrightarrow> chain h p as"
  by (induction as arbitrary: p) (auto split: option.splits)

lemma chain_upd [simp]: "a \<notin> set as \<Longrightarrow> chain (h(a := x)) p as \<longleftrightarrow> chain h p as"
  by (rule chain_cong) auto

lemma chain_unique: "chain h p as \<Longrightarrow> chain h p bs \<Longrightarrow> as = bs"
proof (induction as arbitrary: p bs)
  case Nil
  then show ?case by (cases bs) auto
next
  case (Cons a as)
  then show ?case by (cases bs) (auto split: option.splits)
qed

text \<open>Freeing a chain without repetition removes its nodes and nothing else.\<close>

lemma free_list_chain:
  "chain h p as \<Longrightarrow> distinct as \<Longrightarrow> free_list h p = Some (Inr (h |` (- set as)))"
proof (induction as arbitrary: h p)
  case Nil
  then show ?case by (subst free_list.simps) (simp add: restrict_map_def)
next
  case (Cons a as)
  then obtain nd where nd: "p = Some a" "h a = Some nd" "chain h (node_next nd) as" "a \<notin> set as"
    by (auto simp: chain_Cons simp del: chain.simps(2))
  then have "chain (h(a := None)) (node_next nd) as" by simp
  moreover have "distinct as" using Cons.prems(2) by simp
  ultimately have "free_list (h(a := None)) (node_next nd) = Some (Inr (h(a := None) |` (- set as)))"
    by (rule Cons.IH)
  moreover have "h(a := None) |` (- set as) = h |` (- set (a # as))"
    by (rule ext) (auto simp: restrict_map_def)
  ultimately show ?case using nd by (subst free_list.simps) simp
qed

section \<open>The invariant\<close>

text \<open>The node a thread holds outside the stack and the trash, and the one it has not yet published.\<close>

fun push_owned :: "'v push_pc \<Rightarrow> addr multiset" where
  "push_owned (PushNew v) = {#}"
| "push_owned (PushLoad n) = {#n#}"
| "push_owned (PushSet n old) = {#n#}"
| "push_owned (PushCas n old) = {#n#}"

fun pop_owned :: "'v pop_pc \<Rightarrow> addr multiset" where
  "pop_owned (PopTake a) = {#a#}"
| "pop_owned (TrashLoad a v) = {#a#}"
| "pop_owned (TrashSet a v t) = {#a#}"
| "pop_owned (TrashCas a v t) = {#a#}"
| "pop_owned _ = {#}"

fun unpublished :: "'v thread \<Rightarrow> addr multiset" where
  "unpublished (Producer is (Some pc)) = push_owned pc"
| "unpublished _ = {#}"

fun owned :: "'v thread \<Rightarrow> addr multiset" where
  "owned (Producer is (Some pc)) = push_owned pc"
| "owned (Consumer (Popping pc) S) = pop_owned pc"
| "owned _ = {#}"

text \<open>
  What a thread knows about the memory: \<open>H\<close> are the nodes of the stack and \<open>P\<close> those not yet published.
  A node that a \<open>pop\<close> has read as the head is never unpublished, and as long as it is in the stack its
  \<open>next\<close> is the one that was read.
\<close>

fun push_ok :: "'v heap \<Rightarrow> 'v push_pc \<Rightarrow> bool" where
  "push_ok h (PushCas n old) \<longleftrightarrow> map_option node_next (h n) = Some old"
| "push_ok h _ \<longleftrightarrow> True"

fun pop_ok :: "'v heap \<Rightarrow> addr set \<Rightarrow> addr multiset \<Rightarrow> 'v pop_pc \<Rightarrow> bool" where
  "pop_ok h H P (PopNext (Some a)) \<longleftrightarrow> a \<in> dom h \<and> a \<notin># P"
| "pop_ok h H P (PopCas a nw) \<longleftrightarrow> a \<in> dom h \<and> a \<notin># P \<and> (a \<in> H \<longrightarrow> map_option node_next (h a) = Some nw)"
| "pop_ok h H P (TrashLoad a v) \<longleftrightarrow> map_option node_value (h a) = Some v"
| "pop_ok h H P (TrashSet a v t) \<longleftrightarrow> map_option node_value (h a) = Some v"
| "pop_ok h H P (TrashCas a v t) \<longleftrightarrow> map_option node_value (h a) = Some v \<and> map_option node_next (h a) = Some t"
| "pop_ok h H P _ \<longleftrightarrow> True"

fun thread_ok :: "'v heap \<Rightarrow> addr set \<Rightarrow> addr multiset \<Rightarrow> 'v thread \<Rightarrow> bool" where
  "thread_ok h H P (Producer is (Some pc)) \<longleftrightarrow> push_ok h pc"
| "thread_ok h H P (Consumer (Popping pc) S) \<longleftrightarrow> pop_ok h H P pc"
| "thread_ok h H P _ \<longleftrightarrow> True"

text \<open>
  \<open>hs\<close> are the nodes of the stack and \<open>ts\<close> those of the trash.  Together with the nodes the threads hold they
  are the allocated nodes, each once.
\<close>

definition stack_inv :: "addr list \<Rightarrow> addr list \<Rightarrow> 'v TreiberStack \<Rightarrow> 'v thread list \<Rightarrow> bool" where
  "stack_inv hs ts s thr \<longleftrightarrow>
     finite (dom (ts_heap s)) \<and> chain (ts_heap s) (ts_head s) hs \<and> chain (ts_heap s) (ts_trash s) ts \<and>
     mset hs + mset ts + (\<Sum>t\<leftarrow>thr. owned t) = mset_set (dom (ts_heap s)) \<and>
     (\<forall>t \<in> set thr. thread_ok (ts_heap s) (set hs) (\<Sum>t\<leftarrow>thr. unpublished t) t)"

subsection \<open>Frame\<close>

lemma push_ok_frame: "push_ok h pc \<Longrightarrow> (\<And>a. a \<in># push_owned pc \<Longrightarrow> h' a = h a) \<Longrightarrow> push_ok h' pc"
  by (cases pc) auto

lemma pop_ok_frame:
  assumes ok: "pop_ok h H P pc"
    and own: "\<And>a. a \<in># pop_owned pc \<Longrightarrow> h' a = h a"
    and dom: "dom h \<subseteq> dom h'"
    and pub: "\<And>a. a \<in> dom h \<Longrightarrow> a \<in># P' \<Longrightarrow> a \<in># P"
    and st: "\<And>a. a \<in> H' \<Longrightarrow> a \<in> dom h \<Longrightarrow> a \<notin># P \<Longrightarrow> a \<in> H \<and> h' a = h a"
  shows "pop_ok h' H' P' pc"
proof (cases pc)
  case (PopNext p)
  then show ?thesis using ok dom pub by (cases p) auto
next
  case (PopCas a nw)
  then show ?thesis using ok dom pub [of a] st [of a] by auto
qed (use ok own in auto)

lemma thread_ok_frame:
  assumes "thread_ok h H P t"
    and "\<And>a. a \<in># owned t \<Longrightarrow> h' a = h a"
    and "dom h \<subseteq> dom h'"
    and "\<And>a. a \<in> dom h \<Longrightarrow> a \<in># P' \<Longrightarrow> a \<in># P"
    and "\<And>a. a \<in> H' \<Longrightarrow> a \<in> dom h \<Longrightarrow> a \<notin># P \<Longrightarrow> a \<in> H \<and> h' a = h a"
  shows "thread_ok h' H' P' t"
  using assms by (cases "(h, H, P, t)" rule: thread_ok.cases) (simp_all add: push_ok_frame pop_ok_frame [of h H P])

lemma sum_list_replace:
  assumes "i < length xs"
  shows "(\<Sum>t\<leftarrow>xs[i := x]. f t) + f (xs ! i) = (\<Sum>t\<leftarrow>xs. f t) + (f x :: 'b :: comm_monoid_add)"
  using assms
proof (induction xs arbitrary: i)
  case (Cons y ys)
  show ?case
  proof (cases i)
    case (Suc j)
    then show ?thesis using Cons.IH [of j] Cons.prems by (simp add: algebra_simps)
  qed (simp add: algebra_simps)
qed simp

lemma mset_transfer:
  fixes H :: "'a multiset"
  assumes "H + T + W = D" and "H' + T' + q' + D = H + T + q + D'" and "W' + q = W + q'"
  shows "H' + T' + W' = D'"
proof (rule multiset_eqI)
  fix x
  have "count (H + T + W) x = count D x" "count (H' + T' + q' + D) x = count (H + T + q + D') x"
    "count (W' + q) x = count (W + q') x"
    using assms by (auto simp only:)
  then show "count (H' + T' + W') x = count D' x" unfolding count_union by linarith
qed

lemma member_subset_sum_list: "x \<in> set ys \<Longrightarrow> f x \<subseteq># (\<Sum>t\<leftarrow>ys. f t)"
  by (induction ys) (auto simp: subset_mset.add_increasing subset_mset.add_increasing2)

lemma sum_list_others:
  assumes "i < length xs"
  obtains R where "(\<Sum>t\<leftarrow>xs. f t) = f (xs ! i) + R" and "\<And>j. j < length xs \<Longrightarrow> j \<noteq> i \<Longrightarrow> f (xs ! j) \<subseteq># R"
proof
  let ?ys = "take i xs @ drop (Suc i) xs"
  show "(\<Sum>t\<leftarrow>xs. f t) = f (xs ! i) + (\<Sum>t\<leftarrow>?ys. f t)"
    by (subst (1) id_take_nth_drop [OF assms]) (simp add: algebra_simps)
  fix j assume j: "j < length xs" "j \<noteq> i"
  have "xs ! j \<in> set ?ys"
  proof (cases "j < i")
    case True
    then show ?thesis using j by (auto simp: in_set_conv_nth)
  next
    case False
    then have "xs ! j = drop (Suc i) xs ! (j - Suc i)" "j - Suc i < length (drop (Suc i) xs)" using j by auto
    then show ?thesis by (metis Un_iff nth_mem set_append)
  qed
  then show "f (xs ! j) \<subseteq># (\<Sum>t\<leftarrow>?ys. f t)" by (rule member_subset_sum_list)
qed

lemma count_mset_set_le: "count (mset_set A) a \<le> 1"
  by (simp add: count_mset_set')

lemma own_disjoint:
  assumes inv: "stack_inv hs ts s thr" and i: "i < length thr" and a: "a \<in># owned (thr ! i)"
  shows "a \<in> dom (ts_heap s)" "a \<notin> set hs" "a \<notin> set ts" "\<And>j. j < length thr \<Longrightarrow> j \<noteq> i \<Longrightarrow> a \<notin># owned (thr ! j)"
proof -
  obtain R where R: "(\<Sum>t\<leftarrow>thr. owned t) = owned (thr ! i) + R"
    "\<And>j. j < length thr \<Longrightarrow> j \<noteq> i \<Longrightarrow> owned (thr ! j) \<subseteq># R"
    using sum_list_others [OF i] by metis
  have eq: "mset hs + mset ts + (owned (thr ! i) + R) = mset_set (dom (ts_heap s))"
    and fin: "finite (dom (ts_heap s))"
    using inv R by (auto simp: stack_inv_def)
  have c: "count (mset hs + mset ts + (owned (thr ! i) + R)) a \<le> 1" "0 < count (owned (thr ! i)) a"
    using a by (simp_all only: eq count_mset_set_le count_greater_zero_iff)
  have "a \<in># mset_set (dom (ts_heap s))" using a by (simp flip: eq)
  then show "a \<in> dom (ts_heap s)" using fin by simp
  have "count (mset hs) a = 0" "count (mset ts) a = 0" "count R a = 0"
    using c unfolding count_union by linarith+
  then show "a \<notin> set hs" "a \<notin> set ts" "\<And>j. j < length thr \<Longrightarrow> j \<noteq> i \<Longrightarrow> a \<notin># owned (thr ! j)"
    using R(2) by (auto simp: count_eq_zero_iff dest: mset_subset_eqD)
qed

lemma stack_distinct:
  assumes "stack_inv hs ts s thr"
  shows "distinct hs" "distinct ts" "set hs \<inter> set ts = {}"
proof -
  have "count (mset hs + mset ts + (\<Sum>t\<leftarrow>thr. owned t)) a \<le> 1" for a
    using assms by (simp only: stack_inv_def count_mset_set_le)
  then have le: "count (mset hs) a + count (mset ts) a \<le> 1" for a
    by (metis count_union le_trans le_add1)
  then have "count (mset hs) a \<le> 1" "count (mset ts) a \<le> 1" for a
    by (meson add_leD1 add_leD2)+
  then show "distinct hs" "distinct ts"
    by (auto simp: distinct_count_atmost_1 le_Suc_eq count_eq_zero_iff)
  show "set hs \<inter> set ts = {}"
  proof (rule ccontr)
    assume "set hs \<inter> set ts \<noteq> {}"
    then obtain a where "0 < count (mset hs) a" "0 < count (mset ts) a" by (auto simp: count_greater_zero_iff)
    with le [of a] show False by linarith
  qed
qed

lemma unpublished_owned: "unpublished t \<subseteq># owned t"
  by (cases t rule: unpublished.cases) auto

text \<open>
  The preservation rule.  A step of thread \<open>i\<close> moves nodes between the stack, the trash and its own
  hands; it writes only nodes in its hands or fresh ones, and puts into the stack only what it had not published.
\<close>

lemma stack_inv_step:
  assumes inv: "stack_inv hs ts s thr" and i: "i < length thr"
    and fin: "finite (dom (ts_heap s'))"
    and chains: "chain (ts_heap s') (ts_head s') hs'" "chain (ts_heap s') (ts_trash s') ts'"
    and balance: "mset hs' + mset ts' + owned t' + mset_set (dom (ts_heap s)) =
      mset hs + mset ts + owned (thr ! i) + mset_set (dom (ts_heap s'))"
    and frame: "\<And>a. a \<in> dom (ts_heap s) \<Longrightarrow> a \<notin># owned (thr ! i) \<Longrightarrow> ts_heap s' a = ts_heap s a"
    and grow: "dom (ts_heap s) \<subseteq> dom (ts_heap s')"
    and unpub: "\<And>a. a \<in># unpublished t' \<Longrightarrow> a \<in> dom (ts_heap s) \<Longrightarrow> a \<in># unpublished (thr ! i)"
    and stack: "set hs' \<subseteq> set hs \<union> set_mset (unpublished (thr ! i))"
    and ok: "thread_ok (ts_heap s') (set hs') (\<Sum>t\<leftarrow>thr[i := t']. unpublished t) t'"
  shows "stack_inv hs' ts' s' (thr[i := t'])"
proof -
  let ?P = "\<Sum>t\<leftarrow>thr. unpublished t" and ?P' = "\<Sum>t\<leftarrow>thr[i := t']. unpublished t"
  have own: "(\<Sum>t\<leftarrow>thr[i := t']. owned t) + owned (thr ! i) = (\<Sum>t\<leftarrow>thr. owned t) + owned t'"
    and unp: "?P' + unpublished (thr ! i) = ?P + unpublished t'"
    by (rule sum_list_replace [OF i])+
  have "mset hs + mset ts + (\<Sum>t\<leftarrow>thr. owned t) = mset_set (dom (ts_heap s))"
    using inv by (simp add: stack_inv_def)
  then have "mset hs' + mset ts' + (\<Sum>t\<leftarrow>thr[i := t']. owned t) = mset_set (dom (ts_heap s'))"
    using balance own by (rule mset_transfer)
  moreover have "thread_ok (ts_heap s') (set hs') ?P' t" if mem: "t \<in> set (thr[i := t'])" for t
  proof -
    obtain j where j: "j < length thr" "t = thr[i := t'] ! j" using mem by (auto simp: in_set_conv_nth)
    show ?thesis
    proof (cases "j = i")
      case False
      then have t: "t = thr ! j" using j by simp
      show ?thesis
      proof (rule thread_ok_frame [of "ts_heap s" "set hs" ?P])
        show "thread_ok (ts_heap s) (set hs) ?P t"
          unfolding t using inv j(1) by (simp add: stack_inv_def)
        show "ts_heap s' a = ts_heap s a" if "a \<in># owned t" for a
          using own_disjoint(1) [OF inv j(1), of a] own_disjoint(4) [OF inv j(1) _ i, of a] that False t
          by (intro frame) auto
        show "a \<in># ?P" if "a \<in> dom (ts_heap s)" "a \<in># ?P'" for a
        proof -
          have "a \<in># ?P + unpublished t'" using that(2) by (simp flip: unp)
          then show ?thesis
            using unpub [of a] that(1) member_subset_sum_list [OF nth_mem [OF i], of unpublished]
            by (auto dest: mset_subset_eqD)
        qed
        show "a \<in> set hs \<and> ts_heap s' a = ts_heap s a" if "a \<in> set hs'" "a \<in> dom (ts_heap s)" "a \<notin># ?P" for a
        proof -
          have "a \<notin># unpublished (thr ! i)"
            using that(3) member_subset_sum_list [OF nth_mem [OF i], of unpublished] by (auto dest: mset_subset_eqD)
          then have "a \<in> set hs" using stack that(1) by auto
          moreover then have "a \<notin># owned (thr ! i)" using own_disjoint(2) [OF inv i] by auto
          ultimately show ?thesis using frame [OF that(2)] by simp
        qed
      qed (rule grow)
    qed (use ok j i in simp)
  qed
  ultimately show ?thesis using fin chains by (simp add: stack_inv_def)
qed

section \<open>Every step keeps the invariant\<close>

lemma node_at_Inr [c_result]: "node_at h a = Inr nd \<longleftrightarrow> h a = Some nd"
  by (auto simp: node_at_def split: option.splits)

lemma set_next_Inr [c_result]:
  "set_next a p s = Inr s' \<longleftrightarrow>
     (\<exists>nd. ts_heap s a = Some nd \<and> s' = s\<lparr>ts_heap := (ts_heap s)(a \<mapsto> nd\<lparr>node_next := p\<rparr>)\<rparr>)"
  by (auto simp: set_next_def bindE_Inr_iff node_at_Inr)

text \<open>Steps that leave the memory as it is.\<close>

lemma stack_inv_local:
  assumes inv: "stack_inv hs ts s thr" and i: "i < length thr"
    and "owned t' = owned (thr ! i)" "unpublished t' = unpublished (thr ! i)"
    and "thread_ok (ts_heap s) (set hs) (\<Sum>t\<leftarrow>thr. unpublished t) t'"
  shows "stack_inv hs ts s (thr[i := t'])"
proof (rule stack_inv_step [OF inv i])
  have "(\<Sum>t\<leftarrow>thr[i := t']. unpublished t) = (\<Sum>t\<leftarrow>thr. unpublished t)"
    using sum_list_replace [OF i, of unpublished t'] assms(4) by simp
  then show "thread_ok (ts_heap s) (set hs) (\<Sum>t\<leftarrow>thr[i := t']. unpublished t) t'" using assms(5) by simp
qed (use inv assms(3,4) in \<open>auto simp: stack_inv_def\<close>)

text \<open>Linking a node in the hands of the thread.\<close>

lemma stack_inv_link:
  assumes inv: "stack_inv hs ts s thr" and i: "i < length thr"
    and a: "owned (thr ! i) = {#a#}" "owned t' = {#a#}" "unpublished t' = unpublished (thr ! i)"
    and s': "set_next a p s = Inr s'"
    and ok: "thread_ok (ts_heap s') (set hs) (\<Sum>t\<leftarrow>thr. unpublished t) t'"
  shows "stack_inv hs ts s' (thr[i := t'])"
proof -
  obtain nd where nd: "ts_heap s a = Some nd" "s' = s\<lparr>ts_heap := (ts_heap s)(a \<mapsto> nd\<lparr>node_next := p\<rparr>)\<rparr>"
    using s' by (auto simp: set_next_Inr)
  have out: "a \<notin> set hs" "a \<notin> set ts" using own_disjoint [OF inv i, of a] a by simp_all
  have dom: "dom (ts_heap s') = dom (ts_heap s)" using nd by auto
  show ?thesis
  proof (rule stack_inv_step [OF inv i])
    show "chain (ts_heap s') (ts_head s') hs" "chain (ts_heap s') (ts_trash s') ts"
      using inv nd out by (auto simp: stack_inv_def)
    have "(\<Sum>t\<leftarrow>thr[i := t']. unpublished t) = (\<Sum>t\<leftarrow>thr. unpublished t)"
      using sum_list_replace [OF i, of unpublished t'] a(3) by simp
    then show "thread_ok (ts_heap s') (set hs) (\<Sum>t\<leftarrow>thr[i := t']. unpublished t) t'" using ok by simp
  qed (use inv a nd in \<open>auto simp: stack_inv_def dom\<close>)
qed

lemma stack_published:
  assumes inv: "stack_inv hs ts s thr" and a: "a \<in> set hs"
  shows "a \<in> dom (ts_heap s)" "a \<notin># (\<Sum>t\<leftarrow>thr. unpublished t)"
proof -
  show "a \<in> dom (ts_heap s)"
    using inv a chain_dom [of "ts_heap s" "ts_head s" hs] by (auto simp: stack_inv_def)
  have "a \<notin># unpublished t" if "t \<in> set thr" for t
    using own_disjoint(2) [OF inv, of _ a] a that unpublished_owned [of t]
    by (metis in_set_conv_nth mset_subset_eqD)
  then show "a \<notin># (\<Sum>t\<leftarrow>thr. unpublished t)" by (induction thr) auto
qed

lemma head_next_ok:
  assumes inv: "stack_inv hs ts s thr"
  shows "pop_ok (ts_heap s) (set hs) (\<Sum>t\<leftarrow>thr. unpublished t) (PopNext (ts_head s))"
proof (cases "ts_head s")
  case (Some a)
  then have "a \<in> set hs" using inv by (auto simp: stack_inv_def chain_Some)
  then show ?thesis using stack_published [OF inv] Some by simp
qed simp

lemma thread_ok_nth: "stack_inv hs ts s thr \<Longrightarrow> i < length thr \<Longrightarrow>
    thread_ok (ts_heap s) (set hs) (\<Sum>t\<leftarrow>thr. unpublished t) (thr ! i)"
  by (simp add: stack_inv_def)

subsection \<open>Allocation, publication, removal and retirement\<close>

lemma stack_inv_alloc:
  assumes inv: "stack_inv hs ts s thr" and i: "i < length thr" and t: "thr ! i = Producer is (Some (PushNew v))"
    and new: "ts_heap s new = None"
  shows "stack_inv hs ts (s\<lparr>ts_heap := (ts_heap s)(new \<mapsto> nd)\<rparr>) (thr[i := Producer is (Some (PushLoad new))])"
proof (rule stack_inv_step [OF inv i])
  have "new \<notin> set hs" "new \<notin> set ts" "new \<notin> dom (ts_heap s)" "finite (dom (ts_heap s))"
    using inv new chain_dom by (fastforce simp: stack_inv_def)+
  then show "mset hs + mset ts + owned (Producer is (Some (PushLoad new))) + mset_set (dom (ts_heap s)) =
      mset hs + mset ts + owned (thr ! i) + mset_set (dom (ts_heap (s\<lparr>ts_heap := (ts_heap s)(new \<mapsto> nd)\<rparr>)))"
    "chain (ts_heap (s\<lparr>ts_heap := (ts_heap s)(new \<mapsto> nd)\<rparr>)) (ts_head (s\<lparr>ts_heap := (ts_heap s)(new \<mapsto> nd)\<rparr>)) hs"
    "chain (ts_heap (s\<lparr>ts_heap := (ts_heap s)(new \<mapsto> nd)\<rparr>)) (ts_trash (s\<lparr>ts_heap := (ts_heap s)(new \<mapsto> nd)\<rparr>)) ts"
    using inv t by (simp_all add: stack_inv_def)
qed (use inv new t in \<open>auto simp: stack_inv_def\<close>)

lemma stack_inv_publish:
  assumes inv: "stack_inv hs ts s thr" and i: "i < length thr"
    and t: "thr ! i = Producer is (Some (PushCas n (ts_head s)))"
  shows "stack_inv (n # hs) ts (s\<lparr>ts_head := Some n\<rparr>) (thr[i := Producer is None])"
proof (rule stack_inv_step [OF inv i])
  have "map_option node_next (ts_heap s n) = Some (ts_head s)"
    using thread_ok_nth [OF inv i] t by simp
  then show "chain (ts_heap (s\<lparr>ts_head := Some n\<rparr>)) (ts_head (s\<lparr>ts_head := Some n\<rparr>)) (n # hs)"
    using inv by (auto simp: stack_inv_def)
qed (use inv t in \<open>auto simp: stack_inv_def\<close>)

lemma stack_inv_remove:
  assumes inv: "stack_inv hs ts s thr" and i: "i < length thr"
    and t: "thr ! i = Consumer (Popping (PopCas a nw)) S" and a: "ts_head s = Some a"
  shows "\<exists>hs'. hs = a # hs' \<and>
    stack_inv hs' ts (s\<lparr>ts_head := nw\<rparr>) (thr[i := Consumer (Popping (PopTake a)) S])"
proof -
  obtain nd hs' where hs: "hs = a # hs'" "ts_heap s a = Some nd" "chain (ts_heap s) (node_next nd) hs'"
    using inv a by (auto simp: stack_inv_def chain_Some)
  then have nw: "node_next nd = nw" using thread_ok_nth [OF inv i] t by simp
  have "stack_inv hs' ts (s\<lparr>ts_head := nw\<rparr>) (thr[i := Consumer (Popping (PopTake a)) S])"
    by (rule stack_inv_step [OF inv i]) (use inv t hs nw in \<open>auto simp: stack_inv_def\<close>)
  then show ?thesis using hs by blast
qed

lemma stack_inv_retire:
  assumes inv: "stack_inv hs ts s thr" and i: "i < length thr"
    and t: "thr ! i = Consumer (Popping (TrashCas a v (ts_trash s))) S"
  shows "stack_inv hs (a # ts) (s\<lparr>ts_trash := Some a\<rparr>) (thr[i := Consumer (Popping (PopDone r)) S])"
proof (rule stack_inv_step [OF inv i])
  have "map_option node_next (ts_heap s a) = Some (ts_trash s)"
    using thread_ok_nth [OF inv i] t by simp
  then show "chain (ts_heap (s\<lparr>ts_trash := Some a\<rparr>)) (ts_trash (s\<lparr>ts_trash := Some a\<rparr>)) (a # ts)"
    using inv by (auto simp: stack_inv_def)
qed (use inv t in \<open>auto simp: stack_inv_def\<close>)

section \<open>The atomic stack\<close>

text \<open>
  The specification: the same program over a list of values, in which \<open>push\<close> and \<open>pop\<close> take effect in one step.
  A thread that has called an operation is waiting; after its atomic step it holds the result.
\<close>

datatype 'v atomic_pc = ACheckDone | ACheckEmpty | APop | ARet "'v option" | AFinished

datatype 'v athread =
    AProducer "'v list" "'v option"
  | AConsumer "'v atomic_pc" "'v set"

record 'v asys =
  as_stack :: "'v list"
  as_done :: bool
  as_threads :: "'v athread list"

fun atomic_step :: "bool \<Rightarrow> 'v list \<Rightarrow> 'v athread \<Rightarrow> 'v list \<times> 'v athread" where
  "atomic_step dn xs (AProducer [] None) = (xs, AProducer [] None)"
| "atomic_step dn xs (AProducer (i # is) None) = (xs, AProducer is (Some i))"
| "atomic_step dn xs (AProducer is (Some v)) = (v # xs, AProducer is None)"
| "atomic_step dn xs (AConsumer ACheckDone S) = (xs, AConsumer (if dn then ACheckEmpty else APop) S)"
| "atomic_step dn xs (AConsumer ACheckEmpty S) = (xs, AConsumer (if xs = [] then AFinished else APop) S)"
| "atomic_step dn xs (AConsumer APop S) =
     (case xs of [] \<Rightarrow> ([], AConsumer (ARet None) S) | v # ys \<Rightarrow> (ys, AConsumer (ARet (Some v)) S))"
| "atomic_step dn xs (AConsumer (ARet r) S) =
     (xs, AConsumer ACheckDone (case r of None \<Rightarrow> S | Some v \<Rightarrow> insert v S))"
| "atomic_step dn xs (AConsumer AFinished S) = (xs, AConsumer AFinished S)"

definition node_val :: "'v heap \<Rightarrow> addr \<Rightarrow> 'v" where
  "node_val h a = node_value (the (h a))"

fun abs_push :: "'v heap \<Rightarrow> 'v push_pc \<Rightarrow> 'v" where
  "abs_push h (PushNew v) = v"
| "abs_push h (PushLoad n) = node_val h n"
| "abs_push h (PushSet n old) = node_val h n"
| "abs_push h (PushCas n old) = node_val h n"

text \<open>A \<open>pop\<close> has taken effect once it has read a null head or exchanged the head.\<close>

fun abs_pop :: "'v heap \<Rightarrow> 'v pop_pc \<Rightarrow> 'v atomic_pc" where
  "abs_pop h PopLoad = APop"
| "abs_pop h (PopNext None) = ARet None"
| "abs_pop h (PopNext (Some a)) = APop"
| "abs_pop h (PopCas a nw) = APop"
| "abs_pop h (PopTake a) = ARet (Some (node_val h a))"
| "abs_pop h (TrashLoad a v) = ARet (Some v)"
| "abs_pop h (TrashSet a v t) = ARet (Some v)"
| "abs_pop h (TrashCas a v t) = ARet (Some v)"
| "abs_pop h (PopDone r) = ARet r"

fun abs_consumer :: "'v heap \<Rightarrow> 'v consumer_pc \<Rightarrow> 'v atomic_pc" where
  "abs_consumer h CheckDone = ACheckDone"
| "abs_consumer h CheckEmpty = ACheckEmpty"
| "abs_consumer h (Popping pc) = abs_pop h pc"
| "abs_consumer h Finished = AFinished"

fun abs_thread :: "'v heap \<Rightarrow> 'v thread \<Rightarrow> 'v athread" where
  "abs_thread h (Producer is pc) = AProducer is (map_option (abs_push h) pc)"
| "abs_thread h (Consumer pc S) = AConsumer (abs_consumer h pc) S"

subsection \<open>A thread step is atomic or invisible\<close>

text \<open>
  \<open>sim_step dn i s hs thr s' t'\<close>: after the step of thread \<open>i\<close> to \<open>t'\<close> the invariant holds again, no node
  has changed its value, and the values and the thread are as before or after the atomic step.
\<close>

definition sim_step ::
    "bool \<Rightarrow> nat \<Rightarrow> 'v TreiberStack \<Rightarrow> addr list \<Rightarrow> 'v thread list \<Rightarrow> 'v TreiberStack \<Rightarrow> 'v thread \<Rightarrow> bool" where
  "sim_step dn i s hs thr s' t' \<longleftrightarrow>
     (\<exists>hs' ts'. stack_inv hs' ts' s' (thr[i := t']) \<and>
       (\<forall>a \<in> dom (ts_heap s). node_val (ts_heap s') a = node_val (ts_heap s) a) \<and>
       (map (node_val (ts_heap s')) hs', abs_thread (ts_heap s') t') \<in>
         {(map (node_val (ts_heap s)) hs, abs_thread (ts_heap s) (thr ! i)),
          atomic_step dn (map (node_val (ts_heap s)) hs) (abs_thread (ts_heap s) (thr ! i))})"

lemma sim_stepI:
  "stack_inv hs' ts' s' (thr[i := t']) \<Longrightarrow>
   (\<And>a. a \<in> dom (ts_heap s) \<Longrightarrow> node_val (ts_heap s') a = node_val (ts_heap s) a) \<Longrightarrow>
   (map (node_val (ts_heap s')) hs', abs_thread (ts_heap s') t') =
     (map (node_val (ts_heap s)) hs, abs_thread (ts_heap s) (thr ! i)) \<or>
   (map (node_val (ts_heap s')) hs', abs_thread (ts_heap s') t') =
     atomic_step dn (map (node_val (ts_heap s)) hs) (abs_thread (ts_heap s) (thr ! i)) \<Longrightarrow>
   sim_step dn i s hs thr s' t'"
  unfolding sim_step_def by blast

lemma sim_local:
  assumes "stack_inv hs ts s thr" and "i < length thr"
    and "owned t' = owned (thr ! i)" "unpublished t' = unpublished (thr ! i)"
    and "thread_ok (ts_heap s) (set hs) (\<Sum>t\<leftarrow>thr. unpublished t) t'"
    and "abs_thread (ts_heap s) t' = abs_thread (ts_heap s) (thr ! i) \<or>
      (map (node_val (ts_heap s)) hs, abs_thread (ts_heap s) t') =
        atomic_step dn (map (node_val (ts_heap s)) hs) (abs_thread (ts_heap s) (thr ! i))"
  shows "sim_step dn i s hs thr s t'"
  by (rule sim_stepI [OF stack_inv_local [OF assms(1-5)]]) (use assms(6) in auto)

lemma set_next_value: "set_next a p s = Inr s' \<Longrightarrow> node_val (ts_heap s') = node_val (ts_heap s)"
  by (rule ext) (auto simp: set_next_Inr node_val_def)

lemma stack_inv_vals:
  assumes "stack_inv hs ts s thr" and "\<And>a. a \<in> dom (ts_heap s) \<Longrightarrow> f a = g a"
  shows "map f hs = map g hs"
proof (rule map_cong [OF refl])
  have "set hs \<subseteq> dom (ts_heap s)" using assms(1) unfolding stack_inv_def by (elim conjE) (rule chain_dom)
  then show "f a = g a" if "a \<in> set hs" for a using that by (auto intro: assms(2))
qed

lemma push_step_sim:
  assumes inv: "stack_inv hs ts s thr" and i: "i < length thr" and t: "thr ! i = Producer is (Some pc)"
    and new: "ts_heap s new = None" and step: "push_step new sp s pc = Inr (s', pc')"
  shows "sim_step dn i s hs thr s' (Producer is pc')"
proof (cases pc)
  case (PushNew v)
  have s': "s' = s\<lparr>ts_heap := (ts_heap s)(new \<mapsto> \<lparr>node_value = v, node_next = None\<rparr>)\<rparr>" "pc' = Some (PushLoad new)"
    using step PushNew by simp_all
  have v: "node_val (ts_heap s') a = node_val (ts_heap s) a" if "a \<in> dom (ts_heap s)" for a
    using that new s' by (auto simp: node_val_def)
  have vals: "map (node_val (ts_heap s')) hs = map (node_val (ts_heap s)) hs"
    by (rule stack_inv_vals [OF inv v])
  have "stack_inv hs ts s' (thr[i := Producer is pc'])"
    unfolding s' using t PushNew by (intro stack_inv_alloc [OF inv i _ new]) simp
  then show ?thesis
    by (rule sim_stepI [OF _ v]) (use t PushNew s' vals in \<open>simp_all add: node_val_def\<close>)
next
  case (PushLoad n)
  then have "s' = s" "pc' = Some (PushSet n (ts_head s))" using step by auto
  then show ?thesis using t PushLoad by (auto intro!: sim_local [OF inv i])
next
  case (PushSet n old)
  then obtain s1 where s1: "set_next n old s = Inr s1" "s' = s1" "pc' = Some (PushCas n old)"
    using step by (auto simp: bindE_Inr_iff)
  show ?thesis
    by (rule sim_stepI, rule stack_inv_link [OF inv i _ _ _ s1(1) [folded s1(2)]])
      (use PushSet t s1 set_next_value [OF s1(1)] in \<open>auto simp: set_next_Inr\<close>)
next
  case (PushCas n old)
  show ?thesis
  proof (cases "ts_head s = old \<and> \<not> sp")
    case True
    then have "s' = s\<lparr>ts_head := Some n\<rparr>" "pc' = None"
      using step PushCas by (simp_all add: compare_exchange_weak_def)
    then show ?thesis using stack_inv_publish [OF inv i] t PushCas True
      by (intro sim_stepI [where hs' = "n # hs" and ts' = ts]) auto
  next
    case False
    then have "s' = s" "pc' = Some (PushSet n (ts_head s))"
      using step PushCas by (auto simp: compare_exchange_weak_def)
    then show ?thesis using t PushCas by (auto intro!: sim_local [OF inv i])
  qed
qed


lemma pop_step_sim:
  assumes inv: "stack_inv hs ts s thr" and i: "i < length thr" and t: "thr ! i = Consumer (Popping pc) S"
    and step: "pop_step sp s pc = Inr (s', pc')" and notdone: "\<And>r. pc \<noteq> PopDone r"
  shows "sim_step dn i s hs thr s' (Consumer (Popping pc') S)"
proof -
  have ok: "pop_ok (ts_heap s) (set hs) (\<Sum>t\<leftarrow>thr. unpublished t) pc"
    using thread_ok_nth [OF inv i] t by simp
  have head: "pop_ok (ts_heap s) (set hs) (\<Sum>t\<leftarrow>thr. unpublished t) (PopNext (ts_head s))"
    by (rule head_next_ok [OF inv])
  have empty: "hs = []" if "ts_head s = None" using inv that by (simp add: stack_inv_def)
  have load: "sim_step dn i s hs thr s (Consumer (Popping (PopNext (ts_head s))) S)"
    if "pop_owned pc = {#}" "abs_pop (ts_heap s) pc = APop"
    by (rule sim_local [OF inv i]; cases "ts_head s") (use that t head empty in auto)
  show ?thesis
  proof (cases pc)
    case PopLoad
    then have "s' = s" "pc' = PopNext (ts_head s)" using step by auto
    with load PopLoad show ?thesis by simp
  next
    case (PopNext old)
    show ?thesis
    proof (cases old)
      case None
      then have "s' = s" "pc' = PopDone None" using step PopNext by auto
      then show ?thesis using t PopNext None by (auto intro!: sim_local [OF inv i])
    next
      case (Some a)
      then obtain nd where "ts_heap s a = Some nd" "s' = s" "pc' = PopCas a (node_next nd)"
        using step PopNext by (auto simp: c_result)
      then show ?thesis using t PopNext Some ok by (auto intro!: sim_local [OF inv i])
    qed
  next
    case (PopCas a nw)
    show ?thesis
    proof (cases "ts_head s = Some a \<and> \<not> sp")
      case True
      then have s': "s' = s\<lparr>ts_head := nw\<rparr>" "pc' = PopTake a"
        using step PopCas by (simp_all add: compare_exchange_weak_def)
      obtain hs' where "hs = a # hs'" "stack_inv hs' ts s' (thr[i := Consumer (Popping pc') S])"
        using stack_inv_remove [OF inv i, of a nw S] t PopCas True s' by auto
      then show ?thesis using t PopCas s' by (intro sim_stepI) auto
    next
      case False
      then have "s' = s" "pc' = PopNext (ts_head s)"
        using step PopCas by (auto simp: compare_exchange_weak_def)
      with load PopCas show ?thesis by simp
    qed
  next
    case (PopTake a)
    then obtain nd where "ts_heap s a = Some nd" "s' = s" "pc' = TrashLoad a (node_value nd)"
      using step by (auto simp: c_result)
    then show ?thesis using t PopTake by (auto intro!: sim_local [OF inv i] simp: node_val_def)
  next
    case (TrashLoad a v)
    then have "s' = s" "pc' = TrashSet a v (ts_trash s)" using step by auto
    then show ?thesis using t TrashLoad ok by (auto intro!: sim_local [OF inv i])
  next
    case (TrashSet a v p)
    then obtain s1 where s1: "set_next a p s = Inr s1" "s' = s1" "pc' = TrashCas a v p"
      using step by (auto simp: bindE_Inr_iff)
    have "stack_inv hs ts s' (thr[i := Consumer (Popping pc') S])"
      by (rule stack_inv_link [OF inv i _ _ _ s1(1) [folded s1(2)]])
        (use TrashSet t s1 ok in \<open>auto simp: set_next_Inr\<close>)
    then show ?thesis
      by (rule sim_stepI) (use TrashSet t s1 set_next_value [OF s1(1)] in auto)
  next
    case (TrashCas a v p)
    show ?thesis
    proof (cases "ts_trash s = p \<and> \<not> sp")
      case True
      then have "s' = s\<lparr>ts_trash := Some a\<rparr>" "pc' = PopDone (Some v)"
        using step TrashCas by (simp_all add: compare_exchange_weak_def)
      then show ?thesis using stack_inv_retire [OF inv i] t TrashCas True
        by (intro sim_stepI [where hs' = hs and ts' = "a # ts"]) auto
    next
      case False
      then have "s' = s" "pc' = TrashSet a v (ts_trash s)"
        using step TrashCas by (auto simp: compare_exchange_weak_def)
      then show ?thesis using t TrashCas ok by (auto intro!: sim_local [OF inv i])
    qed
  qed (use notdone in auto)
qed

lemma consumer_step_pop:
  "(\<And>r. pc \<noteq> PopDone r) \<Longrightarrow> consumer_step dn sp s (Popping pc) S =
     bindE (pop_step sp s pc) (\<lambda>(s', pc'). Inr (s', Consumer (Popping pc') S))"
  by (cases pc) auto

lemma stack_empty_iff: "stack_inv hs ts s thr \<Longrightarrow> stack_empty s \<longleftrightarrow> hs = []"
  by (cases hs) (auto simp: stack_inv_def stack_empty_def)

lemma thread_step_sim:
  assumes inv: "stack_inv hs ts s thr" and i: "i < length thr"
    and new: "ts_heap s new = None" and step: "thread_step new sp dn s (thr ! i) = Inr (s', t')"
  shows "sim_step dn i s hs thr s' t'"
proof (cases "thr ! i")
  case (Producer "is" pc)
  show ?thesis
  proof (cases pc)
    case None
    then have "s' = s" using step Producer by (cases "is") auto
    then show ?thesis using step Producer None
      by (cases "is") (auto intro!: sim_local [OF inv i])
  next
    case (Some p)
    then obtain p' where "push_step new sp s p = Inr (s', p')" "t' = Producer is p'"
      using step Producer by (auto simp: bindE_Inr_iff)
    then show ?thesis using push_step_sim [OF inv i _ new] Producer Some by auto
  qed
next
  case (Consumer pc S)
  show ?thesis
  proof (cases pc)
    case (Popping p)
    show ?thesis
    proof (cases "\<exists>r. p = PopDone r")
      case True
      then have "s' = s" using step Consumer Popping by auto
      then show ?thesis using True step Consumer Popping by (auto intro!: sim_local [OF inv i])
    next
      case False
      then obtain p' where "pop_step sp s p = Inr (s', p')" "t' = Consumer (Popping p') S"
        using step Consumer Popping by (auto simp: consumer_step_pop bindE_Inr_iff)
      then show ?thesis using pop_step_sim [OF inv i] Consumer Popping False by auto
    qed
  next
    case CheckDone
    then have s': "s' = s" using step Consumer by auto
    show ?thesis unfolding s' by (rule sim_local [OF inv i]) (use step Consumer CheckDone in auto)
  next
    case CheckEmpty
    then have s': "s' = s" using step Consumer by auto
    show ?thesis unfolding s'
      by (rule sim_local [OF inv i]) (use step Consumer CheckEmpty stack_empty_iff [OF inv] in auto)
  next
    case Finished
    then have s': "s' = s" using step Consumer by auto
    show ?thesis unfolding s' by (rule sim_local [OF inv i]) (use step Consumer Finished thread_ok_nth [OF inv i] in auto)
  qed
qed

text \<open>No step reads a node that is not allocated.\<close>

lemma thread_step_defined:
  assumes inv: "stack_inv hs ts s thr" and i: "i < length thr"
  shows "\<exists>r. thread_step new sp dn s (thr ! i) = Inr r"
proof -
  have own: "\<exists>nd. node_at (ts_heap s) a = Inr nd" if "a \<in># owned (thr ! i)" for a
    using own_disjoint(1) [OF inv i that] by (auto simp: node_at_Inr)
  have ok: "thread_ok (ts_heap s) (set hs) (\<Sum>t\<leftarrow>thr. unpublished t) (thr ! i)"
    by (rule thread_ok_nth [OF inv i])
  show ?thesis
  proof (cases "thr ! i")
    case (Producer "is" pc)
    show ?thesis
    proof (cases pc)
      case (Some p)
      then show ?thesis using Producer own
        by (cases p) (fastforce simp: set_next_def compare_exchange_weak_def)+
    qed (use Producer in \<open>cases "is"; auto\<close>)
  next
    case (Consumer pc S)
    show ?thesis
    proof (cases pc)
      case (Popping p)
      show ?thesis using Consumer Popping own ok
        by (cases p; cases "\<exists>b. p = PopNext (Some b)") (fastforce simp: set_next_def compare_exchange_weak_def node_at_def)+
    qed (use Consumer in auto)
  qed
qed

section \<open>The program refines the atomic program\<close>

text \<open>A forward simulation that may stutter carries runs and invariants over.\<close>

locale forward_simulation =
  fixes cstep :: "'c \<Rightarrow> 'c \<Rightarrow> bool" and astep :: "'a \<Rightarrow> 'a \<Rightarrow> bool" and R :: "'c \<Rightarrow> 'a \<Rightarrow> bool"
  assumes sim: "R c a \<Longrightarrow> cstep c c' \<Longrightarrow> R c' a \<or> (\<exists>a'. astep a a' \<and> R c' a')"
begin

lemma simulated_run: "cstep\<^sup>*\<^sup>* c c' \<Longrightarrow> R c a \<Longrightarrow> \<exists>a'. astep\<^sup>*\<^sup>* a a' \<and> R c' a'"
proof (induction rule: rtranclp_induct)
  case (step c1 c2)
  then obtain a1 where a1: "astep\<^sup>*\<^sup>* a a1" "R c1 a1" by blast
  from sim [OF a1(2) step(2)] show ?case
    using a1(1) by (auto intro: rtranclp.rtrancl_into_rtrancl)
qed blast

lemma simulated_invariant:
  assumes "cstep\<^sup>*\<^sup>* c c'" and "R c a" and "I a" and "\<And>x y. I x \<Longrightarrow> astep x y \<Longrightarrow> I y"
  shows "\<exists>a'. R c' a' \<and> I a'"
proof -
  obtain a' where a': "astep\<^sup>*\<^sup>* a a'" "R c' a'" using simulated_run assms(1,2) by blast
  from a'(1) assms(3) have "I a'" by (induction rule: rtranclp_induct) (auto intro: assms(4))
  with a' show ?thesis by blast
qed

end

fun aproducer_finished :: "'v athread \<Rightarrow> bool" where
  "aproducer_finished (AProducer is pc) \<longleftrightarrow> is = [] \<and> pc = None"
| "aproducer_finished (AConsumer pc S) \<longleftrightarrow> True"

definition atomic_at :: "nat \<Rightarrow> 'v asys \<Rightarrow> 'v asys" where
  "atomic_at i a = (case atomic_step (as_done a) (as_stack a) (as_threads a ! i) of (xs, t) \<Rightarrow>
     a\<lparr>as_stack := xs, as_threads := (as_threads a)[i := t]\<rparr>)"

inductive asys_step :: "'v asys \<Rightarrow> 'v asys \<Rightarrow> bool" where
  arun: "i < length (as_threads a) \<Longrightarrow> asys_step a (atomic_at i a)"
| asignal: "list_all aproducer_finished (as_threads a) \<Longrightarrow> asys_step a (a\<lparr>as_done := True\<rparr>)"

definition abs_sys :: "addr list \<Rightarrow> 'v sys \<Rightarrow> 'v asys" where
  "abs_sys hs s =
     \<lparr>as_stack = map (node_val (ts_heap (sys_stack s))) hs, as_done = sys_done s,
      as_threads = map (abs_thread (ts_heap (sys_stack s))) (sys_threads s)\<rparr>"

definition refines_atomic :: "'v sys \<Rightarrow> 'v asys \<Rightarrow> bool" where
  "refines_atomic s a \<longleftrightarrow>
     (\<exists>hs ts. stack_inv hs ts (sys_stack s) (sys_threads s) \<and> a = abs_sys hs s)"

lemma abs_thread_cong:
  assumes "\<And>a. a \<in># owned t \<Longrightarrow> node_val h' a = node_val h a"
  shows "abs_thread h' t = abs_thread h t"
proof (cases t)
  case (Producer "is" pc)
  show ?thesis
  proof (cases pc)
    case (Some p)
    then show ?thesis using assms Producer by (cases p) auto
  qed (use Producer in simp)
next
  case (Consumer pc S)
  show ?thesis
  proof (cases pc)
    case (Popping p)
    then show ?thesis using assms Consumer by (cases "(h, p)" rule: abs_pop.cases) auto
  qed (use Consumer in auto)
qed

lemma abs_producer_finished [simp]: "aproducer_finished (abs_thread h t) = producer_finished t"
  by (cases t) auto

lemma step_at_sim:
  assumes R: "refines_atomic s a" and i: "i < length (sys_threads s)"
    and new: "ts_heap (sys_stack s) new = None" and step: "step_at new sp i s = Inr s'"
  shows "refines_atomic s' a \<or> refines_atomic s' (atomic_at i a)"
proof -
  let ?h = "ts_heap (sys_stack s)" and ?thr = "sys_threads s"
  obtain hs ts where inv: "stack_inv hs ts (sys_stack s) ?thr" and a: "a = abs_sys hs s"
    using R by (auto simp: refines_atomic_def)
  obtain st t' where st: "thread_step new sp (sys_done s) (sys_stack s) (?thr ! i) = Inr (st, t')"
    "s' = s\<lparr>sys_stack := st, sys_threads := ?thr[i := t']\<rparr>"
    using step by (auto simp: step_at_def bindE_Inr_iff)
  obtain hs' ts' where sim: "stack_inv hs' ts' st (?thr[i := t'])"
    "\<And>x. x \<in> dom ?h \<Longrightarrow> node_val (ts_heap st) x = node_val ?h x"
    "(map (node_val (ts_heap st)) hs', abs_thread (ts_heap st) t') \<in>
       {(map (node_val ?h) hs, abs_thread ?h (?thr ! i)),
        atomic_step (sys_done s) (map (node_val ?h) hs) (abs_thread ?h (?thr ! i))}"
    using thread_step_sim [OF inv i new st(1)] unfolding sim_step_def by blast
  have others: "map (abs_thread (ts_heap st)) (?thr[i := t']) = (map (abs_thread ?h) ?thr)[i := abs_thread (ts_heap st) t']"
  proof (rule nth_equalityI)
    fix j assume "j < length (map (abs_thread (ts_heap st)) (?thr[i := t']))"
    then show "map (abs_thread (ts_heap st)) (?thr[i := t']) ! j = (map (abs_thread ?h) ?thr)[i := abs_thread (ts_heap st) t'] ! j"
      using sim(2) own_disjoint(1) [OF inv] by (cases "j = i") (auto intro!: abs_thread_cong)
  qed simp
  have R': "refines_atomic s' (abs_sys hs' s')" using sim(1) st(2) by (auto simp: refines_atomic_def)
  from sim(3) consider
      (same) "map (node_val (ts_heap st)) hs' = map (node_val ?h) hs" "abs_thread (ts_heap st) t' = abs_thread ?h (?thr ! i)"
    | (act) "atomic_step (sys_done s) (map (node_val ?h) hs) (abs_thread ?h (?thr ! i)) =
        (map (node_val (ts_heap st)) hs', abs_thread (ts_heap st) t')"
    by auto
  then have "abs_sys hs' s' = a \<or> abs_sys hs' s' = atomic_at i a"
  proof cases
    case same
    have "(map (abs_thread ?h) ?thr)[i := abs_thread ?h (?thr ! i)] = map (abs_thread ?h) ?thr"
      by (simp add: map_update [symmetric])
    then show ?thesis by (simp add: a abs_sys_def st(2) others same)
  next
    case act
    then show ?thesis using i by (simp add: a abs_sys_def st(2) others atomic_at_def)
  qed
  with R' show ?thesis by auto
qed

interpretation treiber: forward_simulation sys_step asys_step refines_atomic
proof
  fix s s' :: "'v sys" and a
  assume R: "refines_atomic s a" and "sys_step s s'"
  from this(2) show "refines_atomic s' a \<or> (\<exists>a'. asys_step a a' \<and> refines_atomic s' a')"
  proof (cases rule: sys_step.cases)
    case (run i new sp)
    moreover have "length (as_threads a) = length (sys_threads s)" using R by (auto simp: refines_atomic_def abs_sys_def)
    ultimately show ?thesis using step_at_sim [OF R] by (metis arun)
  next
    case signal
    obtain hs ts where "stack_inv hs ts (sys_stack s) (sys_threads s)" "a = abs_sys hs s"
      using R by (auto simp: refines_atomic_def)
    moreover have "list_all aproducer_finished (as_threads a)"
      using signal(2) calculation(2) by (simp add: abs_sys_def list_all_iff)
    ultimately show ?thesis using signal(1)
      by (auto simp: refines_atomic_def abs_sys_def intro!: exI [of _ "a\<lparr>as_done := True\<rparr>"] asignal)
  qed
qed

section \<open>Every value is somewhere, once\<close>

fun a_received :: "'v athread \<Rightarrow> 'v set" where
  "a_received (AProducer is pc) = {}"
| "a_received (AConsumer pc S) = S"

text \<open>The values a thread holds: those it still has to push, the one it has popped, those it has received.\<close>

fun holds :: "'v athread \<Rightarrow> 'v multiset" where
  "holds (AProducer is None) = mset is"
| "holds (AProducer is (Some v)) = add_mset v (mset is)"
| "holds (AConsumer (ARet (Some v)) S) = add_mset v (mset_set S)"
| "holds (AConsumer pc S) = mset_set S"

fun phase_ok :: "bool \<Rightarrow> bool \<Rightarrow> 'v athread \<Rightarrow> bool" where
  "phase_ok dn emp (AProducer is pc) \<longleftrightarrow> (dn \<longrightarrow> is = [] \<and> pc = None)"
| "phase_ok dn emp (AConsumer pc S) \<longleftrightarrow>
     finite S \<and> (pc = ACheckEmpty \<longrightarrow> dn) \<and> (pc = AFinished \<longrightarrow> dn \<and> emp)"

definition values_inv :: "'v set \<Rightarrow> 'v asys \<Rightarrow> bool" where
  "values_inv V a \<longleftrightarrow>
     mset (as_stack a) + (\<Sum>t\<leftarrow>as_threads a. holds t) = mset_set V \<and>
     (\<forall>t \<in> set (as_threads a). phase_ok (as_done a) (as_stack a = []) t)"

lemma received_once:
  assumes "values_inv V a" and "i < length (as_threads a)" and "as_threads a ! i = AConsumer (ARet (Some v)) S"
  shows "v \<notin> S"
proof
  assume v: "v \<in> S"
  have "finite S" using assms nth_mem [OF assms(2)] by (auto simp: values_inv_def)
  then have "2 \<le> count (holds (as_threads a ! i)) v" using assms(3) v by simp
  also have "\<dots> \<le> count (\<Sum>t\<leftarrow>as_threads a. holds t) v"
    using member_subset_sum_list [OF nth_mem [OF assms(2)], of holds] by (simp add: mset_subset_eq_count)
  also have "\<dots> \<le> count (mset_set V) v"
    using assms(1) by (metis count_union le_add2 values_inv_def)
  also have "\<dots> \<le> 1" by (rule count_mset_set_le)
  finally show False by simp
qed

text \<open>The effect of an atomic step on what is held, and on the phases.\<close>

lemma atomic_step_holds:
  assumes "atomic_step dn xs t = (xs', t')" and "\<And>v S. t = AConsumer (ARet (Some v)) S \<Longrightarrow> finite S \<and> v \<notin> S"
  shows "mset xs' + holds t' = mset xs + holds t"
  using assms by (cases "(dn, xs, t)" rule: atomic_step.cases) (auto split: list.splits option.splits if_splits)

lemma atomic_step_phase:
  assumes "atomic_step dn xs t = (xs', t')" and "phase_ok dn (xs = []) t"
  shows "phase_ok dn (xs' = []) t'" and "dn \<Longrightarrow> xs = [] \<Longrightarrow> xs' = []"
  using assms by (cases "(dn, xs, t)" rule: atomic_step.cases; auto split: list.splits option.splits if_splits)+

lemma phase_ok_mono: "phase_ok dn e t \<Longrightarrow> (e \<Longrightarrow> dn \<Longrightarrow> e') \<Longrightarrow> phase_ok dn e' t"
  by (cases t) auto

lemma values_inv_step:
  assumes inv: "values_inv V a" and step: "asys_step a a'"
  shows "values_inv V a'"
  using step
proof (cases rule: asys_step.cases)
  case (arun i)
  let ?t = "as_threads a ! i"
  obtain xs t' where st: "atomic_step (as_done a) (as_stack a) ?t = (xs, t')" by fastforce
  have a': "a' = a\<lparr>as_stack := xs, as_threads := (as_threads a)[i := t']\<rparr>"
    using arun(1) st by (simp add: atomic_at_def)
  have ph: "phase_ok (as_done a) (as_stack a = []) ?t" using inv arun(2) by (simp add: values_inv_def)
  have h: "mset xs + holds t' = mset (as_stack a) + holds ?t"
    by (rule atomic_step_holds [OF st]) (use ph received_once [OF inv arun(2)] in auto)
  have "mset (as_stack a) + {#} + (\<Sum>t\<leftarrow>as_threads a. holds t) = mset_set V"
    using inv by (simp add: values_inv_def)
  moreover have "mset xs + {#} + holds t' + mset_set V = mset (as_stack a) + {#} + holds ?t + mset_set V"
    using h by simp
  ultimately have "mset xs + {#} + (\<Sum>t\<leftarrow>(as_threads a)[i := t']. holds t) = mset_set V"
    using sum_list_replace [OF arun(2)] by (rule mset_transfer)
  moreover have "phase_ok (as_done a) (xs = []) t" if "t \<in> set ((as_threads a)[i := t'])" for t
    using set_update_subset_insert [of "as_threads a" i t'] that inv atomic_step_phase [OF st ph]
    by (auto simp: values_inv_def intro: phase_ok_mono)
  ultimately show ?thesis by (simp add: values_inv_def a')
next
  case asignal
  have "phase_ok True (as_stack a = []) t" if "t \<in> set (as_threads a)" for t
  proof -
    have "phase_ok (as_done a) (as_stack a = []) t" "aproducer_finished t"
      using that inv asignal(2) by (simp_all add: values_inv_def list_all_iff)
    then show ?thesis by (cases t) auto
  qed
  then show ?thesis using inv asignal(1) by (simp add: values_inv_def)
qed

text \<open>When all consumers have finished, the values received are all of them, each once.\<close>

lemma values_inv_finished:
  assumes inv: "values_inv V a" and "finite V"
    and fin: "\<And>t. t \<in> set (as_threads a) \<Longrightarrow> (\<exists>is pc. t = AProducer is pc) \<or> (\<exists>S. t = AConsumer AFinished S)"
    and ex: "AConsumer AFinished S0 \<in> set (as_threads a)"
  shows "\<Union> (set (map a_received (as_threads a))) = V"
    and "\<And>i j. i < length (as_threads a) \<Longrightarrow> j < length (as_threads a) \<Longrightarrow> i \<noteq> j \<Longrightarrow>
      a_received (as_threads a ! i) \<inter> a_received (as_threads a ! j) = {}"
proof -
  have fl: "as_done a" "as_stack a = []" using inv ex by (auto simp: values_inv_def)
  have holds: "holds t = mset_set (a_received t)" "finite (a_received t)" if "t \<in> set (as_threads a)" for t
    using fin [OF that] inv that fl by (auto simp: values_inv_def)
  have "(\<Sum>t\<leftarrow>as_threads a. holds t) = (\<Sum>t\<leftarrow>as_threads a. mset_set (a_received t))"
    by (rule arg_cong [where f = sum_list], rule map_cong) (simp_all add: holds)
  then have eq: "(\<Sum>t\<leftarrow>as_threads a. mset_set (a_received t)) = mset_set V"
    using inv fl by (simp add: values_inv_def)
  have "set_mset (\<Sum>t\<leftarrow>ts. mset_set (a_received t)) = \<Union> (set (map a_received ts))" if "\<forall>t \<in> set ts. finite (a_received t)" for ts
    using that by (induction ts) auto
  from this [of "as_threads a"] show "\<Union> (set (map a_received (as_threads a))) = V"
    unfolding eq using holds(2) assms(2) by simp
  fix i j assume ij: "i < length (as_threads a)" "j < length (as_threads a)" "i \<noteq> j"
  obtain Q where Q: "(\<Sum>t\<leftarrow>as_threads a. mset_set (a_received t)) = mset_set (a_received (as_threads a ! i)) + Q"
    "mset_set (a_received (as_threads a ! j)) \<subseteq># Q"
    using sum_list_others [OF ij(1), of "\<lambda>t. mset_set (a_received t)"] ij by metis
  show "a_received (as_threads a ! i) \<inter> a_received (as_threads a ! j) = {}"
  proof (rule ccontr)
    assume "\<not> ?thesis"
    then obtain v where v: "v \<in> a_received (as_threads a ! i)" "v \<in> a_received (as_threads a ! j)" by auto
    then have "1 \<le> count (mset_set (a_received (as_threads a ! i))) v" "1 \<le> count (mset_set (a_received (as_threads a ! j))) v"
      using holds(2) ij by simp_all
    moreover have "count (mset_set (a_received (as_threads a ! j))) v \<le> count Q v"
      using Q(2) by (simp add: mset_subset_eq_count)
    moreover have "count (mset_set (a_received (as_threads a ! i)) + Q) v \<le> 1"
      using eq Q(1) by (metis count_mset_set_le)
    ultimately show False unfolding count_union by linarith
  qed
qed

section \<open>The start, and what is reachable\<close>

lemma sum_list_empty: "(\<And>t. t \<in> set ts \<Longrightarrow> f t = {#}) \<Longrightarrow> (\<Sum>t\<leftarrow>ts. f t) = {#}"
  by (induction ts) auto

lemma stress_sys_refines:
  "refines_atomic (stress_sys p c N) (abs_sys [] (stress_sys p c N))"
proof -
  let ?thr = "sys_threads (stress_sys p c N)"
  have "owned t = {#}" "unpublished t = {#}" "thread_ok h H P t" if "t \<in> set ?thr" for t h H P
    using that by (auto simp: stress_sys_def)
  then have "(\<Sum>t\<leftarrow>?thr. owned t) = {#}" "\<forall>t \<in> set ?thr. thread_ok h H P t" for h H P
    by (simp_all add: sum_list_empty)
  then have "stack_inv [] [] (sys_stack (stress_sys p c N)) ?thr"
    unfolding stack_inv_def by (simp add: stress_sys_def stack_new_def)
  then show ?thesis by (auto simp: refines_atomic_def)
qed

lemma mset_producers:
  "(\<Sum>n\<leftarrow>[0..<p]. mset (map int [n * N..<N + n * N])) = mset_set (int ` {0..<p * N})"
proof -
  have "(\<Sum>n\<leftarrow>[0..<p]. mset [n * N..<N + n * N]) = mset [0..<p * N]"
  proof (induction p)
    case (Suc p)
    have "[0..<Suc p * N] = [0..<p * N] @ [p * N..<N + p * N]"
      using upt_add_eq_append [of 0 "p * N" N] by (simp only: mult_Suc le0) (simp only: add.commute)
    with Suc show ?case by simp
  qed simp
  then have "image_mset int (\<Sum>n\<leftarrow>[0..<p]. mset [n * N..<N + n * N]) = image_mset int (mset [0..<p * N])" by simp
  moreover have "image_mset int (\<Sum>n\<leftarrow>ns. mset [n * N..<N + n * N]) = (\<Sum>n\<leftarrow>ns. mset (map int [n * N..<N + n * N]))" for ns
    by (induction ns) simp_all
  moreover have "image_mset int (mset [0..<p * N]) = mset_set (int ` {0..<p * N})"
    by (simp add: image_mset_mset_set)
  ultimately show ?thesis by simp
qed

lemma stress_sys_values:
  "values_inv (int ` {0..<p * N}) (abs_sys [] (stress_sys p c N))"
proof -
  have "(\<Sum>n\<leftarrow>[0..<p]. holds (abs_thread h (Producer (map int [n * N..<N + n * N]) None))) = mset_set (int ` {0..<p * N})" for h
    using mset_producers [of N p] by simp
  moreover have "(\<Sum>t\<leftarrow>replicate c (AConsumer ACheckDone ({} :: int set)). holds t) = {#}"
    by (induction c) simp_all
  ultimately have "(\<Sum>t\<leftarrow>as_threads (abs_sys [] (stress_sys p c N)). holds t) = mset_set (int ` {0..<p * N})"
    by (simp add: abs_sys_def stress_sys_def comp_def)
  then show ?thesis by (auto simp: values_inv_def) (auto simp: abs_sys_def stress_sys_def)
qed

text \<open>What holds in every reachable state.\<close>

lemma reachable_inv:
  assumes "sys_step\<^sup>*\<^sup>* (stress_sys p c N) s"
  obtains hs ts where "stack_inv hs ts (sys_stack s) (sys_threads s)"
    and "values_inv (int ` {0..<p * N}) (abs_sys hs s)"
proof -
  obtain a where "refines_atomic s a" "values_inv (int ` {0..<p * N}) a"
    using treiber.simulated_invariant [where I = "values_inv (int ` {0..<p * N})",
        OF assms stress_sys_refines stress_sys_values] values_inv_step by blast
  then show ?thesis using that by (auto simp: refines_atomic_def)
qed

fun is_consumer :: "'v thread \<Rightarrow> bool" where
  "is_consumer (Producer is pc) \<longleftrightarrow> False"
| "is_consumer (Consumer pc S) \<longleftrightarrow> True"

lemma thread_step_kind:
  assumes "thread_step new sp dn s t = Inr (s', t')"
  shows "is_consumer t' \<longleftrightarrow> is_consumer t"
proof (cases t)
  case (Producer "is" pc)
  then show ?thesis using assms by (cases "(new, sp, s, is, pc)" rule: producer_step.cases) (auto simp: bindE_Inr_iff)
next
  case (Consumer pc S)
  then show ?thesis using assms
    by (cases "(dn, sp, s, pc, S)" rule: consumer_step.cases) (auto simp: bindE_Inr_iff simp del: pop_step.simps)
qed

lemma reachable_shape:
  assumes "sys_step\<^sup>*\<^sup>* (stress_sys p c N) s"
  shows "length (sys_threads s) = p + c \<and>
    (\<forall>i < p + c. is_consumer (sys_threads s ! i) \<longleftrightarrow> p \<le> i)"
  using assms
proof (induction rule: rtranclp_induct)
  case base
  then show ?case by (auto simp: stress_sys_def nth_append)
next
  case (step s s')
  from step(2) show ?case
  proof (cases rule: sys_step.cases)
    case (run i new sp)
    obtain st t where t: "thread_step new sp (sys_done s) (sys_stack s) (sys_threads s ! i) = Inr (st, t)"
      "sys_threads s' = (sys_threads s)[i := t]"
      using run(3) by (auto simp: step_at_def bindE_Inr_iff)
    have "is_consumer ((sys_threads s)[i := t] ! j) \<longleftrightarrow> is_consumer (sys_threads s ! j)" for j
      using thread_step_kind [OF t(1)] run(1) by (cases "j = i") simp_all
    then show ?thesis using step(3) t(2) by simp
  qed (use step in simp)
qed

section \<open>Destruction and progress\<close>

lemma destroy_quiescent:
  assumes inv: "stack_inv hs ts s thr" and idle: "\<And>t. t \<in> set thr \<Longrightarrow> owned t = {#}"
  shows "stack_destroy s = Some (Inr Map.empty)"
proof -
  let ?h = "ts_heap s"
  have d: "distinct hs" "distinct ts" "set hs \<inter> set ts = {}" by (rule stack_distinct [OF inv])+
  have "mset hs + mset ts = mset_set (dom ?h)"
    using inv idle by (simp add: stack_inv_def sum_list_empty)
  then have dom: "dom ?h = set hs \<union> set ts"
    using inv by (metis finite_set_mset_mset_set set_mset_mset set_mset_union stack_inv_def)
  have c: "chain ?h (ts_head s) hs" "chain ?h (ts_trash s) ts" using inv by (simp_all add: stack_inv_def)
  have "chain (?h |` (- set hs)) (ts_trash s) ts"
    using c(2) d(3) by (subst chain_cong [of ts _ ?h]) (auto simp: restrict_map_def)
  from free_list_chain [OF this d(2)] free_list_chain [OF c(1) d(1)]
  have "stack_destroy s = Some (Inr (?h |` (- set hs) |` (- set ts)))"
    by (simp add: stack_destroy_def)
  moreover have "?h |` (- set hs) |` (- set ts) = Map.empty"
    by (rule ext) (use dom in \<open>auto simp: restrict_map_def\<close>)
  ultimately show ?thesis by simp
qed

lemma finished_owned: "producer_finished t \<Longrightarrow> consumer_finished t \<Longrightarrow> owned t = {#}"
  by (cases t rule: owned.cases) auto

text \<open>
  An upper bound on the steps an operation still takes when its thread runs alone and no exchange fails without
  cause: a stale head or trash pointer costs one more round.
\<close>

fun push_left :: "'v TreiberStack \<Rightarrow> 'v push_pc \<Rightarrow> nat" where
  "push_left s (PushNew v) = 4"
| "push_left s (PushLoad n) = 3"
| "push_left s (PushSet n old) = (if old = ts_head s then 2 else 4)"
| "push_left s (PushCas n old) = (if old = ts_head s then 1 else 3)"

fun pop_left :: "'v TreiberStack \<Rightarrow> 'v pop_pc \<Rightarrow> nat" where
  "pop_left s PopLoad = 9"
| "pop_left s (PopNext None) = 2"
| "pop_left s (PopNext (Some a)) = (if ts_head s = Some a then 8 else 11)"
| "pop_left s (PopCas a nw) = (if ts_head s = Some a then 7 else 10)"
| "pop_left s (PopTake a) = 6"
| "pop_left s (TrashLoad a v) = 5"
| "pop_left s (TrashSet a v t) = (if t = ts_trash s then 3 else 5)"
| "pop_left s (TrashCas a v t) = (if t = ts_trash s then 2 else 4)"
| "pop_left s (PopDone r) = 1"

fun op_left :: "'v TreiberStack \<Rightarrow> 'v thread \<Rightarrow> nat" where
  "op_left s (Producer is (Some pc)) = push_left s pc"
| "op_left s (Consumer (Popping pc) S) = pop_left s pc"
| "op_left s _ = 0"

lemma push_left_step:
  "push_step new False s pc = Inr (s', pc') \<Longrightarrow> op_left s' (Producer is pc') < push_left s pc"
  by (cases pc) (auto simp: compare_exchange_weak_def c_result split: if_splits)

lemma pop_left_head: "pop_left s (PopNext (ts_head s)) \<le> 8"
  by (cases "ts_head s") auto

lemma pop_left_step:
  "pop_step False s pc = Inr (s', pc') \<Longrightarrow> (\<And>r. pc \<noteq> PopDone r) \<Longrightarrow> pop_left s' pc' < pop_left s pc"
proof (induction s pc rule: pop_left.induct)
  case (1 s)
  then show ?case using pop_left_head [of s] by auto
next
  case (4 s a nw)
  then show ?case using pop_left_head [of s] by (auto simp: compare_exchange_weak_def split: if_splits)
qed (auto simp: compare_exchange_weak_def c_result split: if_splits)

lemma op_left_step:
  assumes "thread_step new False dn s t = Inr (s', t')" and "0 < op_left s t"
  shows "op_left s' t' < op_left s t"
proof (cases t)
  case (Producer "is" pc)
  then show ?thesis using assms by (cases pc) (auto simp: bindE_Inr_iff push_left_step)
next
  case (Consumer pc S)
  show ?thesis
  proof (cases pc)
    case (Popping p)
    then show ?thesis using assms Consumer
      by (cases "\<exists>r. p = PopDone r") (auto simp: consumer_step_pop bindE_Inr_iff pop_left_step)
  qed (use Consumer assms in auto)
qed

lemma op_left_le: "op_left s t \<le> 11"
proof -
  have "push_left s p \<le> 4" for p by (cases p) auto
  then have "push_left s p \<le> 11" for p by (meson le_trans numeral_le_iff semiring_norm)
  moreover have "pop_left s p \<le> 11" for p by (cases "(s, p)" rule: pop_left.cases) auto
  ultimately show ?thesis by (cases "(s, t)" rule: op_left.cases) auto
qed

definition solo_step :: "nat \<Rightarrow> 'v sys \<Rightarrow> 'v sys \<Rightarrow> bool" where
  "solo_step i s s' \<longleftrightarrow> (\<exists>new. ts_heap (sys_stack s) new = None \<and> step_at new False i s = Inr s')"

lemma solo_run:
  assumes "refines_atomic s a" and i: "i < length (sys_threads s)"
  shows "\<exists>k \<le> op_left (sys_stack s) (sys_threads s ! i). \<exists>s'. (solo_step i ^^ k) s s' \<and>
    op_left (sys_stack s') (sys_threads s' ! i) = 0"
  using assms
proof (induction "op_left (sys_stack s) (sys_threads s ! i)" arbitrary: s a rule: less_induct)
  case less
  show ?case
  proof (cases "op_left (sys_stack s) (sys_threads s ! i) = 0")
    case True
    then show ?thesis by (auto intro!: exI [of _ 0])
  next
    case False
    obtain hs ts where inv: "stack_inv hs ts (sys_stack s) (sys_threads s)"
      using less(2) by (auto simp: refines_atomic_def)
    then obtain new where new: "ts_heap (sys_stack s) new = None"
      using ex_new_if_finite [of "dom (ts_heap (sys_stack s))"] by (auto simp: stack_inv_def)
    obtain st t where step: "thread_step new False (sys_done s) (sys_stack s) (sys_threads s ! i) = Inr (st, t)"
      using thread_step_defined [OF inv less(3)] by fastforce
    define s1 where "s1 = s\<lparr>sys_stack := st, sys_threads := (sys_threads s)[i := t]\<rparr>"
    have s1: "step_at new False i s = Inr s1" by (simp add: step_at_def step s1_def)
    have left: "op_left (sys_stack s1) (sys_threads s1 ! i) < op_left (sys_stack s) (sys_threads s ! i)"
      using op_left_step [OF step] False less(3) by (simp add: s1_def)
    obtain a1 where "refines_atomic s1 a1" using step_at_sim [OF less(2,3) new s1] by blast
    from less(1) [OF left this] less(3) obtain k s' where
      k: "k \<le> op_left (sys_stack s1) (sys_threads s1 ! i)" "(solo_step i ^^ k) s1 s'"
        "op_left (sys_stack s') (sys_threads s' ! i) = 0"
      by (auto simp: s1_def)
    have "solo_step i s s1" using new s1 by (auto simp: solo_step_def)
    then have "(solo_step i ^^ Suc k) s s'" using k(2) by (rule relpowp_Suc_I2)
    then show ?thesis using k left by (meson Suc_leI le_less_trans)
  qed
qed

fun in_operation :: "'v thread \<Rightarrow> bool" where
  "in_operation (Producer is pc) \<longleftrightarrow> pc \<noteq> None"
| "in_operation (Consumer pc S) \<longleftrightarrow> (case pc of Popping p \<Rightarrow> True | _ \<Rightarrow> False)"

lemma op_left_0: "op_left s t = 0 \<longleftrightarrow> \<not> in_operation t"
proof -
  have "0 < push_left s p" for p by (cases p) auto
  moreover have "0 < pop_left s p" for p by (cases "(s, p)" rule: pop_left.cases) auto
  ultimately show ?thesis by (cases "(s, t)" rule: op_left.cases) auto
qed

section \<open>Executing a schedule\<close>

datatype action = Run nat addr bool | Signal

fun run_schedule :: "action list \<Rightarrow> 'v sys \<Rightarrow> 'v sys option" where
  "run_schedule [] s = Some s"
| "run_schedule (Run i new sp # as) s =
     (if i < length (sys_threads s) \<and> ts_heap (sys_stack s) new = None
      then (case step_at new sp i s of Inl e \<Rightarrow> None | Inr s' \<Rightarrow> run_schedule as s') else None)"
| "run_schedule (Signal # as) s =
     (if list_all producer_finished (sys_threads s) then run_schedule as (s\<lparr>sys_done := True\<rparr>) else None)"

lemma run_schedule_sound: "run_schedule as s = Some s' \<Longrightarrow> sys_step\<^sup>*\<^sup>* s s'"
proof (induction as s rule: run_schedule.induct)
  case (2 i new sp as s)
  then show ?case
    by (auto split: if_splits sum.splits intro: converse_rtranclp_into_rtranclp sys_step.run)
next
  case (3 as s)
  then show ?case by (auto split: if_splits intro: converse_rtranclp_into_rtranclp sys_step.signal)
qed simp

text \<open>
  Two producers race: the second loads the head before the first publishes, its exchange fails and it
  retries.  The consumer then drains the stack.
\<close>

definition sample_schedule :: "action list" where
  "sample_schedule =
     [Run 0 9 False, Run 1 9 False, Run 0 5 False, Run 1 6 False, Run 1 9 False, Run 0 9 False, Run 0 9 False, Run 1 9 False,
      Run 0 9 False, Run 1 9 False, Run 1 9 True, Run 1 9 False, Run 1 9 False, Run 1 9 False, Signal] @
     replicate 25 (Run 2 9 False)"

definition sample_end :: "int sys" where
  "sample_end = \<lparr>sys_stack = \<lparr>ts_head = None, ts_trash = Some 5,
      ts_heap = [6 \<mapsto> \<lparr>node_value = 1, node_next = None\<rparr>, 5 \<mapsto> \<lparr>node_value = 0, node_next = Some 6\<rparr>]\<rparr>,
    sys_done = True, sys_threads = [Producer [] None, Producer [] None, Consumer Finished {0, 1}]\<rparr>"

lemmas schedule_simps = step_at_def stress_sys_def stack_new_def compare_exchange_weak_def set_next_def node_at_def
  stack_empty_def

lemma sample_run: "run_schedule sample_schedule (stress_sys 2 1 1) = Some sample_end"
  by (simp add: sample_schedule_def sample_end_def schedule_simps numeral_eq_Suc replicate_append_same)

lemma sample_reachable: "sys_step\<^sup>*\<^sup>* (stress_sys 2 1 1) sample_end"
  by (rule run_schedule_sound [OF sample_run])

section \<open>Properties\<close>

text \<open>
  C3: Linearizability.  Whatever the interleaving, and whichever exchanges fail, the state of the stress
  test is one that the same program reaches over an atomic stack: the values along the list from
  \<open>head\<close> are the atomic stack, and every thread is where its atomic counterpart is.  Each \<open>push\<close> and each \<open>pop\<close>
  takes effect in one step between its call and its return, with the result it returns.
\<close>

theorem treiber_refines_atomic_stack:
  assumes "sys_step\<^sup>*\<^sup>* (stress_sys p c N) s"
  shows "\<exists>hs. chain (ts_heap (sys_stack s)) (ts_head (sys_stack s)) hs \<and> distinct hs \<and>
    asys_step\<^sup>*\<^sup>* (abs_sys [] (stress_sys p c N)) (abs_sys hs s)"
proof -
  obtain hs ts where "stack_inv hs ts (sys_stack s) (sys_threads s)"
    "asys_step\<^sup>*\<^sup>* (abs_sys [] (stress_sys p c N)) (abs_sys hs s)"
    using treiber.simulated_run [OF assms stress_sys_refines] by (auto simp: refines_atomic_def)
  moreover from this(1) have "distinct hs" "chain (ts_heap (sys_stack s)) (ts_head (sys_stack s)) hs"
    by (rule stack_distinct) (use calculation(1) in \<open>simp add: stack_inv_def\<close>)
  ultimately show ?thesis by blast
qed

theorem treiber_refines_atomic_stack_witness:
  "\<exists>hs. chain (ts_heap (sys_stack sample_end)) (ts_head (sys_stack sample_end)) hs \<and> distinct hs \<and>
    asys_step\<^sup>*\<^sup>* (abs_sys [] (stress_sys 2 1 1)) (abs_sys hs sample_end)"
  by (rule treiber_refines_atomic_stack [OF sample_reachable])

text \<open>
  C10: The stress test passes.  When the consumers have finished, the producers have too, the stack is
  empty, the sets received are pairwise disjoint, and the verdict of \<open>main\<close> is that every value was received:
  for any number of threads and values, so for those of \<open>main\<close>.
\<close>

theorem treiber_stress_passes:
  assumes run: "sys_step\<^sup>*\<^sup>* (stress_sys p c N) s"
    and fin: "list_all consumer_finished (sys_threads s)" and c: "0 < c"
  shows "stress_verdict (p * N) (sys_threads s) \<and> list_all producer_finished (sys_threads s) \<and>
    stack_empty (sys_stack s) \<and>
    (\<forall>i < p + c. \<forall>j < p + c. i \<noteq> j \<longrightarrow> received (sys_threads s ! i) \<inter> received (sys_threads s ! j) = {})"
proof -
  obtain hs ts where inv: "stack_inv hs ts (sys_stack s) (sys_threads s)"
    "values_inv (int ` {0..<p * N}) (abs_sys hs s)" (is "values_inv ?V ?a")
    using reachable_inv [OF run] .
  have len: "length (sys_threads s) = p + c" and kind: "is_consumer (sys_threads s ! p)"
    using reachable_shape [OF run] c by auto
  have rec: "a_received (abs_thread h t) = received t" for h and t :: "int thread" by (cases t) auto
  have shape: "(\<exists>is pc. abs_thread h t = AProducer is pc) \<or> (\<exists>S. abs_thread h t = AConsumer AFinished S)"
    if "t \<in> set (sys_threads s)" for h t
  proof -
    have "consumer_finished t" using that fin by (auto simp: list_all_iff)
    then show ?thesis by (cases t) auto
  qed
  obtain S0 where "sys_threads s ! p = Consumer Finished S0"
  proof -
    have "consumer_finished (sys_threads s ! p)" using fin len c by (simp add: list_all_length)
    then show ?thesis using kind that by (cases "sys_threads s ! p") auto
  qed
  then have mem: "Consumer Finished S0 \<in> set (sys_threads s)" using nth_mem [of p "sys_threads s"] len c by simp
  then have ex: "AConsumer AFinished S0 \<in> set (as_threads ?a)"
    by (auto simp: abs_sys_def image_iff intro!: bexI [OF _ mem])
  have shape': "(\<exists>is pc. u = AProducer is pc) \<or> (\<exists>S. u = AConsumer AFinished S)" if mem_u: "u \<in> set (as_threads ?a)" for u
  proof -
    obtain t where "t \<in> set (sys_threads s)" "u = abs_thread (ts_heap (sys_stack s)) t"
      using mem_u by (auto simp: abs_sys_def)
    then show ?thesis using shape by blast
  qed
  have un: "\<Union> (set (map received (sys_threads s))) = ?V"
    using values_inv_finished(1) [OF inv(2) _ shape' ex] by (simp add: abs_sys_def rec image_image)
  have dis: "received (sys_threads s ! i) \<inter> received (sys_threads s ! j) = {}" if "i < p + c" "j < p + c" "i \<noteq> j" for i j
    using values_inv_finished(2) [OF inv(2) _ shape' ex, of i j] that len by (simp add: abs_sys_def rec)
  have "phase_ok (sys_done s) (hs = []) (abs_thread (ts_heap (sys_stack s)) t)" if "t \<in> set (sys_threads s)" for t
    using inv(2) that by (auto simp: values_inv_def abs_sys_def)
  note ph = this
  have e: "sys_done s" "hs = []" using ph [OF mem] by auto
  have "producer_finished t" if "t \<in> set (sys_threads s)" for t
    using ph [OF that] e by (cases t) auto
  moreover have "stress_verdict (p * N) (sys_threads s)"
    by (simp only: stress_verdict_def un Let_def) (simp add: card_image list_all_iff)
  ultimately show ?thesis using dis stack_empty_iff [OF inv(1)] e by (simp add: list_all_iff)
qed

theorem treiber_stress_passes_witness:
  "stress_verdict 2 (sys_threads sample_end) \<and> received (sys_threads sample_end ! 2) = {0, 1}"
  using treiber_stress_passes [OF sample_reachable] by (simp add: sample_end_def)

text \<open>
  C18: In no reachable state does a step touch a node that is not allocated or follow a null pointer,
  although a \<open>pop\<close> may still hold a node that others have removed.
\<close>

theorem treiber_steps_defined:
  assumes "sys_step\<^sup>*\<^sup>* (stress_sys p c N) s" and "i < p + c"
  shows "\<exists>s'. step_at new sp i s = Inr s'"
proof -
  obtain hs ts where inv: "stack_inv hs ts (sys_stack s) (sys_threads s)"
    using reachable_inv [OF assms(1)] .
  have "i < length (sys_threads s)" using reachable_shape [OF assms(1)] assms(2) by simp
  from thread_step_defined [OF inv this] obtain r where
    "thread_step new sp (sys_done s) (sys_stack s) (sys_threads s ! i) = Inr r" by blast
  then show ?thesis by (cases r) (simp add: step_at_def)
qed

theorem treiber_steps_defined_witness: "\<exists>s'. step_at 9 True 2 sample_end = Inr s'"
  using treiber_steps_defined [OF sample_reachable, of 2] by simp

text \<open>
  C21: The destructor frees every node that was ever allocated, each exactly once, and touches no freed node: when
  the threads have finished it leaves no memory allocated.
\<close>

theorem treiber_destructor_frees_all:
  assumes "sys_step\<^sup>*\<^sup>* (stress_sys p c N) s"
    and "list_all producer_finished (sys_threads s)" and "list_all consumer_finished (sys_threads s)"
  shows "stack_destroy (sys_stack s) = Some (Inr Map.empty)"
proof -
  obtain hs ts where inv: "stack_inv hs ts (sys_stack s) (sys_threads s)"
    using reachable_inv [OF assms(1)] .
  show ?thesis
    by (rule destroy_quiescent [OF inv]) (use assms(2,3) in \<open>auto simp: list_all_iff intro: finished_owned\<close>)
qed

theorem treiber_destructor_frees_all_witness:
  "stack_destroy (sys_stack sample_end) = Some (Inr Map.empty)"
  using treiber_destructor_frees_all [OF sample_reachable] by (simp add: sample_end_def)

text \<open>
  C23: Progress.  From every reachable state, a thread that runs alone, without exchanges failing for no cause, is
  out of its \<open>push\<close> or \<open>pop\<close> after at most eleven steps, whatever the other threads were doing.
\<close>

theorem treiber_operation_completes:
  assumes "sys_step\<^sup>*\<^sup>* (stress_sys p c N) s" and "i < p + c"
  shows "\<exists>k \<le> 11. \<exists>s'. (solo_step i ^^ k) s s' \<and> \<not> in_operation (sys_threads s' ! i)"
proof -
  obtain a where "refines_atomic s a"
    using treiber.simulated_run [OF assms(1) stress_sys_refines] by blast
  moreover have "i < length (sys_threads s)" using reachable_shape [OF assms(1)] assms(2) by simp
  ultimately obtain k s' where "k \<le> op_left (sys_stack s) (sys_threads s ! i)" "(solo_step i ^^ k) s s'"
    "op_left (sys_stack s') (sys_threads s' ! i) = 0"
    using solo_run by blast
  then show ?thesis using op_left_le by (metis op_left_0 le_trans)
qed

theorem treiber_operation_completes_witness:
  "\<exists>k \<le> 11. \<exists>s'. (solo_step 1 ^^ k) sample_end s' \<and> \<not> in_operation (sys_threads s' ! 1)"
  using treiber_operation_completes [OF sample_reachable, of 1] by simp

end
