(* ===== verification/Aes_Gcm.thy ===== *)
theory Aes_Gcm
  imports Printf
begin

text \<open>
  The AES-128-GCM wrappers of \<^verbatim>\<open>03-aes_gcm_AEAD_nonce_reuse/aes_gcm.cpp\<close> and the program that uses them.

  The cipher is OpenSSL's EVP interface, a parameter: one function per call the wrappers make, from
  the context to the return code, the bytes written and the new context.  \<open>evp_gcm\<close> is its
  contract: the ciphertext is the plaintext under a keystream of key and nonce, and the final call of a
  decryption succeeds exactly for the right tag.  A pointer argument is the array it points to.
\<close>

unbundle bit_operations_syntax

section \<open>The EVP interface\<close>

record 'c evp =
  EncryptInit_cipher :: "'c \<Rightarrow> int \<times> 'c"
  EncryptInit_key :: "'c \<Rightarrow> byte list \<Rightarrow> byte list \<Rightarrow> int \<times> 'c"
  EncryptUpdate_aad :: "'c \<Rightarrow> byte list \<Rightarrow> int \<Rightarrow> int \<times> 'c"
  EncryptUpdate :: "'c \<Rightarrow> byte list \<Rightarrow> int \<Rightarrow> int \<times> byte list \<times> 'c"
  EncryptFinal :: "'c \<Rightarrow> int \<times> byte list \<times> 'c"
  Ctrl_get_tag :: "'c \<Rightarrow> int \<times> byte list \<times> 'c"
  DecryptInit_cipher :: "'c \<Rightarrow> int \<times> 'c"
  DecryptInit_key :: "'c \<Rightarrow> byte list \<Rightarrow> byte list \<Rightarrow> int \<times> 'c"
  DecryptUpdate_aad :: "'c \<Rightarrow> byte list \<Rightarrow> int \<Rightarrow> int \<times> 'c"
  DecryptUpdate :: "'c \<Rightarrow> byte list \<Rightarrow> int \<Rightarrow> int \<times> byte list \<times> 'c"
  Ctrl_set_tag :: "'c \<Rightarrow> byte list \<Rightarrow> int \<times> 'c"
  DecryptFinal :: "'c \<Rightarrow> int \<times> byte list \<times> 'c"

text \<open>The lengths are \<open>size_t\<close>; the EVP functions take \<open>int\<close>.\<close>

definition int_arg :: "nat \<Rightarrow> int" where
  "int_arg n = sint (of_nat n :: 32 word)"

section \<open>The wrappers\<close>

text \<open>The return value, the output buffer, the tag buffer, and whether the context was left allocated.\<close>

record gcm_result =
  gcm_ret :: int
  gcm_out :: "byte list"
  gcm_tag :: "byte list"
  gcm_leaked :: bool

text \<open>\<open>new_ctx\<close> is the result of \<open>EVP_CIPHER_CTX_new\<close>.\<close>

definition aes_gcm_encrypt ::
    "'c evp \<Rightarrow> 'c option \<Rightarrow> byte list \<Rightarrow> byte list \<Rightarrow> byte list \<Rightarrow> nat \<Rightarrow> byte list \<Rightarrow> nat \<Rightarrow> byte list \<Rightarrow> byte list \<Rightarrow>
      gcm_result c_res" where
  "aes_gcm_encrypt lib new_ctx key iv aad aad_len plaintext plaintext_len ciphertext tag_out =
     (case new_ctx of
        None \<Rightarrow> Inr \<lparr>gcm_ret = -1, gcm_out = ciphertext, gcm_tag = tag_out, gcm_leaked = False\<rparr>
      | Some ctx \<Rightarrow>
     let fail = (\<lambda>out tag. Inr \<lparr>gcm_ret = -1, gcm_out = out, gcm_tag = tag, gcm_leaked = True\<rparr>) in
     case EncryptInit_cipher lib ctx of (r, ctx) \<Rightarrow>
     if r \<noteq> 1 then fail ciphertext tag_out else
     case EncryptInit_key lib ctx key iv of (r, ctx) \<Rightarrow>
     if r \<noteq> 1 then fail ciphertext tag_out else
     case EncryptUpdate_aad lib ctx aad (int_arg aad_len) of (r, ctx) \<Rightarrow>
     if r \<noteq> 1 then fail ciphertext tag_out else
     case EncryptUpdate lib ctx plaintext (int_arg plaintext_len) of (r, out, ctx) \<Rightarrow>
     bindE (wr_bytes ciphertext 0 out) (\<lambda>ciphertext.
     if r \<noteq> 1 then fail ciphertext tag_out else
     let len = length out in
     case EncryptFinal lib ctx of (r, out, ctx) \<Rightarrow>
     bindE (wr_bytes ciphertext len out) (\<lambda>ciphertext.
     if r \<noteq> 1 then fail ciphertext tag_out else
     let ciphertext_len = len + length out in
     case Ctrl_get_tag lib ctx of (r, t, ctx) \<Rightarrow>
     bindE (wr_bytes tag_out 0 t) (\<lambda>tag_out.
     if r \<noteq> 1 then fail ciphertext tag_out else
     Inr \<lparr>gcm_ret = int ciphertext_len, gcm_out = ciphertext, gcm_tag = tag_out, gcm_leaked = False\<rparr>))))"

definition aes_gcm_decrypt ::
    "'c evp \<Rightarrow> 'c option \<Rightarrow> byte list \<Rightarrow> byte list \<Rightarrow> byte list \<Rightarrow> nat \<Rightarrow> byte list \<Rightarrow> nat \<Rightarrow> byte list \<Rightarrow> byte list \<Rightarrow>
      gcm_result c_res" where
  "aes_gcm_decrypt lib new_ctx key iv aad aad_len ciphertext ciphertext_len tag_in plaintext_out =
     (case new_ctx of
        None \<Rightarrow> Inr \<lparr>gcm_ret = -1, gcm_out = plaintext_out, gcm_tag = tag_in, gcm_leaked = False\<rparr>
      | Some ctx \<Rightarrow>
     let fail = (\<lambda>out. Inr \<lparr>gcm_ret = -1, gcm_out = out, gcm_tag = tag_in, gcm_leaked = True\<rparr>) in
     case DecryptInit_cipher lib ctx of (r, ctx) \<Rightarrow>
     if r = 0 then fail plaintext_out else
     case DecryptInit_key lib ctx key iv of (r, ctx) \<Rightarrow>
     if r = 0 then fail plaintext_out else
     case DecryptUpdate_aad lib ctx aad (int_arg aad_len) of (r, ctx) \<Rightarrow>
     if r = 0 then fail plaintext_out else
     case DecryptUpdate lib ctx ciphertext (int_arg ciphertext_len) of (r, out, ctx) \<Rightarrow>
     bindE (wr_bytes plaintext_out 0 out) (\<lambda>plaintext_out.
     if r = 0 then fail plaintext_out else
     let len = length out; plaintext_len = len in
     case Ctrl_set_tag lib ctx tag_in of (r, ctx) \<Rightarrow>
     if r = 0 then fail plaintext_out else
     case DecryptFinal lib ctx of (ret, out, ctx) \<Rightarrow>
     bindE (wr_bytes plaintext_out len out) (\<lambda>plaintext_out.
     if ret > 0
     then Inr \<lparr>gcm_ret = int (plaintext_len + length out), gcm_out = plaintext_out, gcm_tag = tag_in,
            gcm_leaked = False\<rparr>
     else bindE (wr_bytes plaintext_out 0 (replicate ciphertext_len 0)) (\<lambda>plaintext_out.
            Inr \<lparr>gcm_ret = -1, gcm_out = plaintext_out, gcm_tag = tag_in, gcm_leaked = False\<rparr>))))"

section \<open>The program\<close>

datatype forced_issue = NORMAL_TRIP | NORMAL_TRIP_WITH_AAD | CHANGE_CIPHER | CHANGE_TAG | CHANGE_AAD

definition trip_aad :: "byte list" where
  "trip_aad = [0xAA, 0xBB, 0xCC, 0xDD, 0, 0, 0, 0]"

lemma length_trip_aad [simp]: "length trip_aad = 8"
  by (simp add: trip_aad_def)

text \<open>\<open>junk\<close> is the uninitialised tag buffer; \<open>c1\<close> and \<open>c2\<close> are the contexts the two calls allocate.\<close>

definition round_trip ::
    "'c evp \<Rightarrow> 'c option \<Rightarrow> 'c option \<Rightarrow> byte list \<Rightarrow> byte list \<Rightarrow> byte list \<Rightarrow> byte list \<Rightarrow> nat \<Rightarrow> forced_issue \<Rightarrow> bool c_res" where
  "round_trip lib c1 c2 junk key iv pt pt_len issue =
     bindE (let ct = replicate pt_len 0 in
       if issue = NORMAL_TRIP_WITH_AAD then aes_gcm_encrypt lib c1 key iv trip_aad 8 pt pt_len ct junk
       else aes_gcm_encrypt lib c1 key iv [] 0 pt pt_len ct junk) (\<lambda>e.
     let ct_len = gcm_ret e; ct = gcm_out e; tag = gcm_tag e in
     if ct_len < 0 then Inr False else
     let out = replicate pt_len 0 in
     bindE (if issue = CHANGE_CIPHER then wr ct 0 0 else Inr ct) (\<lambda>ct.
     bindE (if issue = CHANGE_TAG then wr tag 0 1 else Inr tag) (\<lambda>tag.
     bindE (if issue = NORMAL_TRIP_WITH_AAD then aes_gcm_decrypt lib c2 key iv trip_aad 8 ct (nat ct_len) tag out
            else if issue = CHANGE_AAD then aes_gcm_decrypt lib c2 key iv [1] 1 ct (nat ct_len) tag out
            else aes_gcm_decrypt lib c2 key iv [] 0 ct (nat ct_len) tag out) (\<lambda>d.
     if gcm_ret d < 0 then Inr False
     else if gcm_ret d \<noteq> int pt_len then Inr False
     else bindE (rd_bytes pt 0 pt_len) (\<lambda>a. bindE (rd_bytes (gcm_out d) 0 pt_len) (\<lambda>b. Inr (a = b)))))))"

text \<open>The last part of \<open>main\<close>: two encryptions under one nonce, and the exclusive or of what is public.\<close>

definition nonce_reuse ::
    "'c evp \<Rightarrow> 'c option \<Rightarrow> 'c option \<Rightarrow> byte list \<Rightarrow> byte list \<Rightarrow> byte list \<Rightarrow> byte list \<Rightarrow> byte list \<Rightarrow> bool c_res" where
  "nonce_reuse lib c1 c2 junk key iv msg4 msg5 =
     bindE (aes_gcm_encrypt lib c1 key iv [] 0 msg4 (length msg4) (replicate 16 0) junk) (\<lambda>e1.
     bindE (aes_gcm_encrypt lib c2 key iv [] 0 msg5 (length msg5) (replicate 16 0) (gcm_tag e1)) (\<lambda>e2.
     bindE (mapE (\<lambda>i. bindE (rd (gcm_out e1) i) (\<lambda>a. bindE (rd (gcm_out e2) i) (\<lambda>b.
              bindE (rd msg4 i) (\<lambda>m. Inr (a XOR b XOR m))))) [0..<16]) (\<lambda>recovered.
     bindE (rd_bytes msg5 0 16) (\<lambda>m. Inr (recovered = m)))))"

definition main_key :: "byte list" where
  "main_key =
     [0x60, 0x3d, 0xeb, 0x10, 0x15, 0xca, 0x71, 0xbe, 0x2b, 0x73, 0xae, 0xf0, 0x85, 0x7d, 0x77, 0x81,
      0x1f, 0x35, 0x2c, 0x07, 0x3b, 0x61, 0x08, 0xd7, 0x2d, 0x98, 0x10, 0xa3, 0x09, 0x14, 0xdf, 0xf4]"

definition main_iv :: "byte list" where
  "main_iv = [0xca, 0xfe, 0xba, 0xbe, 0xfa, 0xce, 0xdb, 0xad, 0xde, 0xca, 0xf8, 0x88]"

definition msg1 :: "byte list" where
  "msg1 = [0x3a, 0xd7, 0x7b, 0xb4, 0x0d, 0x7a, 0x36, 0x60, 0xa8, 0x9e, 0xca, 0xf3, 0x24, 0x66, 0xef, 0x97]"

definition msg2 :: "byte list" where
  "msg2 =
     [0x6b, 0xc1, 0xbe, 0xe2, 0x2e, 0x40, 0x9f, 0x96, 0xe9, 0x3d, 0x7e, 0x11, 0x73, 0x93, 0x17, 0x2a,
      0xae, 0x2d, 0x8a, 0x57, 0x1e, 0x03, 0xac, 0x9c, 0x9e, 0xb7, 0x6f, 0xac, 0x45, 0xaf, 0x8e, 0x51,
      0x30, 0xc8, 0x1c, 0x46, 0xa3, 0x5c, 0xe4, 0x11, 0xe5, 0xfb, 0xc1, 0x19, 0x1a, 0x0a, 0x52]"

definition msg4 :: "byte list" where
  "msg4 = [0x3a, 0xd7, 0x7b, 0xb4, 0x0d, 0x7a, 0x36, 0x60, 0xa8, 0x9e, 0xca, 0xf3, 0x24, 0x66, 0xef, 0x97]"

definition msg5 :: "byte list" where
  "msg5 = [0xa8, 0x9e, 0xca, 0xf3, 0x24, 0x66, 0xef, 0x97, 0x3a, 0xd7, 0x7b, 0xb4, 0x0d, 0x7a, 0x36, 0x60]"

text \<open>
  \<open>main\<close>: the lines it prints.  \<open>ctxs i\<close> is the context that the \<open>i\<close>-th call of a wrapper allocates; a
  wrapper call that is not reached leaves its context unused.  \<open>junk\<close> gives the uninitialised tags.
\<close>

definition trip_line :: "string \<Rightarrow> bool \<Rightarrow> string" where
  "trip_line label ok = label @ (if ok then ''OK'' else ''FAIL'')"

definition gcm_main :: "'c evp \<Rightarrow> (nat \<Rightarrow> 'c option) \<Rightarrow> (nat \<Rightarrow> byte list) \<Rightarrow> string list c_res" where
  "gcm_main lib ctxs junk =
     bindE (mapE (\<lambda>(i, label, msg, issue).
         bindE (round_trip lib (ctxs (2 * i)) (ctxs (2 * i + 1)) (junk i) main_key main_iv msg (length msg) issue)
           (\<lambda>ok. Inr (trip_line label ok)))
       [(0, ''msg0 round-trip: '', [], NORMAL_TRIP),
        (1, ''msg1 round-trip: '', msg1, NORMAL_TRIP),
        (2, ''msg2 round-trip: '', msg2, NORMAL_TRIP),
        (3, ''msg2 round-trip (WRONG CYPHERTEXT - FAIL): '', msg2, CHANGE_CIPHER),
        (4, ''msg2 round-trip (WRONG TAG - FAIL): '', msg2, CHANGE_TAG),
        (5, ''msg2 round-trip (WRONG AAD - FAIL): '', msg2, CHANGE_AAD),
        (6, ''msg2 round-trip (WITH AAD - OK): '', msg2, NORMAL_TRIP_WITH_AAD)]) (\<lambda>lines.
     bindE (nonce_reuse lib (ctxs 14) (ctxs 15) (junk 7) main_key main_iv msg4 msg5) (\<lambda>ok.
     Inr (lines @ [''nonce reuse recovered: '' @ (if ok then ''YES'' else ''NO'')])))"

section \<open>The contract of the cipher\<close>

text \<open>What a context stands for, as far as the documentation of the calls goes.\<close>

record gcm_view =
  gv_key :: "byte list"
  gv_iv :: "byte list"
  gv_aad :: "byte list"
  gv_ct :: "byte list"
  gv_tag :: "byte list"

definition valid_input :: "byte list \<Rightarrow> int \<Rightarrow> bool" where
  "valid_input d n \<longleftrightarrow> 0 \<le> n \<and> nat n \<le> length d"

text \<open>The exclusive or with a keystream.\<close>

definition xor_stream :: "(nat \<Rightarrow> byte) \<Rightarrow> byte list \<Rightarrow> byte list" where
  "xor_stream f d = map (\<lambda>i. d ! i XOR f i) [0..<length d]"

lemma int_arg_id [simp]: "n < 2 ^ 31 \<Longrightarrow> int_arg n = int n"
  by (simp add: int_arg_def signed_of_nat signed_take_bit_int_eq_self)

lemma valid_input_int [simp]: "valid_input d (int n) \<longleftrightarrow> n \<le> length d"
  by (simp add: valid_input_def)

lemma wr_bytes_0 [simp]: "wr_bytes xs 0 ys = (if length ys \<le> length xs then Inr (ys @ drop (length ys) xs) else Inl OutOfBounds)"
  by (simp add: wr_bytes_def)

lemma wr_bytes_Nil [simp]: "n \<le> length xs \<Longrightarrow> wr_bytes xs n [] = Inr xs"
  by (simp add: wr_bytes_def)

lemma length_xor_stream [simp]: "length (xor_stream f d) = length d"
  by (simp add: xor_stream_def)

lemma xor_stream_twice [simp]: "xor_stream f (xor_stream f d) = d"
  by (rule nth_equalityI) (simp_all add: xor_stream_def xor.assoc)

text \<open>A library on which a decryption gets as far as handing over this tag, and fails there.\<close>

definition set_tag_fails :: "'c evp \<Rightarrow> byte list \<Rightarrow> bool" where
  "set_tag_fails lib t \<longleftrightarrow>
     (\<forall>c. fst (DecryptInit_cipher lib c) \<noteq> 0 \<and> fst (Ctrl_set_tag lib c t) = 0) \<and>
     (\<forall>c k i. fst (DecryptInit_key lib c k i) \<noteq> 0) \<and>
     (\<forall>c d n. fst (DecryptUpdate_aad lib c d n) \<noteq> 0 \<and> fst (DecryptUpdate lib c d n) \<noteq> 0)"

text \<open>
  \<open>ks\<close> is the keystream of a key and a nonce, and \<open>auth\<close> the tag of key, nonce, associated data and
  ciphertext.  A call that does not report success promises nothing.
\<close>

locale evp_gcm =
  fixes lib :: "'c evp" and view :: "'c \<Rightarrow> gcm_view"
    and ks :: "byte list \<Rightarrow> byte list \<Rightarrow> nat \<Rightarrow> byte"
    and auth :: "byte list \<Rightarrow> byte list \<Rightarrow> byte list \<Rightarrow> byte list \<Rightarrow> byte list"
  assumes enc_key: "EncryptInit_key lib c key iv = (1, c') \<Longrightarrow> 16 \<le> length key \<Longrightarrow> 12 \<le> length iv \<Longrightarrow>
      gv_key (view c') = take 16 key \<and> gv_iv (view c') = take 12 iv \<and> gv_aad (view c') = [] \<and> gv_ct (view c') = []"
    and enc_aad: "EncryptUpdate_aad lib c a n = (1, c') \<Longrightarrow> valid_input a n \<Longrightarrow> gv_ct (view c) = [] \<Longrightarrow>
      view c' = (view c)\<lparr>gv_aad := gv_aad (view c) @ take (nat n) a\<rparr>"
    and enc_data: "EncryptUpdate lib c d n = (r, out, c') \<Longrightarrow> valid_input d n \<Longrightarrow> gv_ct (view c) = [] \<Longrightarrow>
      length out \<le> nat n \<and>
      (r = 1 \<longrightarrow> out = xor_stream (ks (gv_key (view c)) (gv_iv (view c))) (take (nat n) d) \<and>
        view c' = (view c)\<lparr>gv_ct := out\<rparr>)"
    and enc_final: "EncryptFinal lib c = (r, out, c') \<Longrightarrow> out = [] \<and> (r = 1 \<longrightarrow> view c' = view c)"
    and enc_tag: "Ctrl_get_tag lib c = (r, t, c') \<Longrightarrow> length t \<le> 16 \<and>
      (r = 1 \<longrightarrow> t = auth (gv_key (view c)) (gv_iv (view c)) (gv_aad (view c)) (gv_ct (view c)))"
    and dec_key: "DecryptInit_key lib c key iv = (r, c') \<Longrightarrow> r \<noteq> 0 \<Longrightarrow> 16 \<le> length key \<Longrightarrow> 12 \<le> length iv \<Longrightarrow>
      gv_key (view c') = take 16 key \<and> gv_iv (view c') = take 12 iv \<and> gv_aad (view c') = [] \<and> gv_ct (view c') = []"
    and dec_aad: "DecryptUpdate_aad lib c a n = (r, c') \<Longrightarrow> r \<noteq> 0 \<Longrightarrow> valid_input a n \<Longrightarrow> gv_ct (view c) = [] \<Longrightarrow>
      view c' = (view c)\<lparr>gv_aad := gv_aad (view c) @ take (nat n) a\<rparr>"
    and dec_data: "DecryptUpdate lib c d n = (r, out, c') \<Longrightarrow> valid_input d n \<Longrightarrow> gv_ct (view c) = [] \<Longrightarrow>
      length out \<le> nat n \<and>
      (r \<noteq> 0 \<longrightarrow> out = xor_stream (ks (gv_key (view c)) (gv_iv (view c))) (take (nat n) d) \<and>
        view c' = (view c)\<lparr>gv_ct := take (nat n) d\<rparr>)"
    and dec_set_tag: "Ctrl_set_tag lib c t = (r, c') \<Longrightarrow> r \<noteq> 0 \<Longrightarrow> 16 \<le> length t \<Longrightarrow>
      view c' = (view c)\<lparr>gv_tag := take 16 t\<rparr>"
    and dec_final: "DecryptFinal lib c = (r, out, c') \<Longrightarrow> out = [] \<and>
      (0 < r \<longleftrightarrow> gv_tag (view c) = auth (gv_key (view c)) (gv_iv (view c)) (gv_aad (view c)) (gv_ct (view c)))"
    and auth_len: "length (auth k i a d) = 16"
begin

lemma encrypt_outcome:
  assumes sizes: "16 \<le> length key" "12 \<le> length iv" "aad_len \<le> length aad" "aad_len < 2 ^ 31"
      "n \<le> length pt" "n < 2 ^ 31" "n \<le> length ct" "16 \<le> length tag"
  shows "\<exists>e. aes_gcm_encrypt lib new_ctx key iv aad aad_len pt n ct tag = Inr e \<and>
    length (gcm_out e) = length ct \<and> length (gcm_tag e) = length tag \<and>
    (gcm_ret e = -1 \<or>
     gcm_ret e = int n \<and> \<not> gcm_leaked e \<and>
     gcm_out e = xor_stream (ks (take 16 key) (take 12 iv)) (take n pt) @ drop n ct \<and>
     gcm_tag e = auth (take 16 key) (take 12 iv) (take aad_len aad) (take n (gcm_out e)) @ drop 16 tag)"
proof (cases new_ctx)
  case None
  then show ?thesis by (simp add: aes_gcm_encrypt_def)
next
  case (Some c0)
  obtain r1 c1 where 1: "EncryptInit_cipher lib c0 = (r1, c1)" by fastforce
  obtain r2 c2 where 2: "EncryptInit_key lib c1 key iv = (r2, c2)" by fastforce
  obtain r3 c3 where 3: "EncryptUpdate_aad lib c2 aad (int aad_len) = (r3, c3)" by fastforce
  obtain r4 o4 c4 where 4: "EncryptUpdate lib c3 pt (int n) = (r4, o4, c4)" by (metis prod_cases3)
  obtain r5 o5 c5 where 5: "EncryptFinal lib c4 = (r5, o5, c5)" by (metis prod_cases3)
  obtain r6 t6 c6 where 6: "Ctrl_get_tag lib c5 = (r6, t6, c6)" by (metis prod_cases3)
  have o5: "o5 = []" and t6: "length t6 \<le> 16" using enc_final [OF 5] enc_tag [OF 6] by simp_all
  show ?thesis
  proof (cases "r1 = 1 \<and> r2 = 1 \<and> r3 = 1")
    case False
    then show ?thesis using sizes by (auto simp: aes_gcm_encrypt_def Some 1 2 3)
  next
    case True
    have v2: "gv_key (view c2) = take 16 key" "gv_iv (view c2) = take 12 iv" "gv_aad (view c2) = []" "gv_ct (view c2) = []"
      using enc_key [of c1 key iv c2] 2 True sizes by simp_all
    have v3: "view c3 = (view c2)\<lparr>gv_aad := take aad_len aad\<rparr>"
      using enc_aad [of c2 aad "int aad_len" c3] 3 True sizes v2 by simp
    have o4: "length o4 \<le> n" and v4: "r4 = 1 \<Longrightarrow> o4 = xor_stream (ks (take 16 key) (take 12 iv)) (take n pt) \<and>
        view c4 = (view c3)\<lparr>gv_ct := o4\<rparr>"
      using enc_data [OF 4] sizes v2 v3 by simp_all
    have v5: "r5 = 1 \<Longrightarrow> view c5 = view c4" using enc_final [OF 5] by simp
    have v6: "r6 = 1 \<Longrightarrow> r5 = 1 \<Longrightarrow> r4 = 1 \<Longrightarrow>
        t6 = auth (take 16 key) (take 12 iv) (take aad_len aad) (xor_stream (ks (take 16 key) (take 12 iv)) (take n pt))"
      using enc_tag [OF 6] v5 v4 v3 v2 by simp
    show ?thesis
      using True sizes o4 o5 t6 v4 v6 auth_len
      by (auto simp: aes_gcm_encrypt_def Some 1 2 3 4 5 6)
  qed
qed

lemma decrypt_outcome:
  assumes sizes: "16 \<le> length key" "12 \<le> length iv" "aad_len \<le> length aad" "aad_len < 2 ^ 31"
      "n \<le> length ct" "n < 2 ^ 31" "n \<le> length out" "16 \<le> length tag"
  defines "good \<equiv> take 16 tag = auth (take 16 key) (take 12 iv) (take aad_len aad) (take n ct)"
    and "pt \<equiv> xor_stream (ks (take 16 key) (take 12 iv)) (take n ct)"
  shows "\<exists>d. aes_gcm_decrypt lib new_ctx key iv aad aad_len ct n tag out = Inr d \<and>
    (if new_ctx = None then gcm_ret d = -1 \<and> gcm_out d = out
     else if gcm_leaked d then gcm_ret d = -1 \<and> (\<exists>w. length w \<le> n \<and> gcm_out d = w @ drop (length w) out)
     else if good then gcm_ret d = int n \<and> gcm_out d = pt @ drop n out
     else gcm_ret d = -1 \<and> gcm_out d = replicate n 0 @ drop n out) \<and>
    (new_ctx \<noteq> None \<and> set_tag_fails lib tag \<longrightarrow> gcm_leaked d \<and> gcm_ret d = -1 \<and> gcm_out d = pt @ drop n out)"
proof (cases new_ctx)
  case None
  then show ?thesis by (simp add: aes_gcm_decrypt_def)
next
  case (Some c0)
  obtain r1 c1 where 1: "DecryptInit_cipher lib c0 = (r1, c1)" by fastforce
  obtain r2 c2 where 2: "DecryptInit_key lib c1 key iv = (r2, c2)" by fastforce
  obtain r3 c3 where 3: "DecryptUpdate_aad lib c2 aad (int aad_len) = (r3, c3)" by fastforce
  obtain r4 o4 c4 where 4: "DecryptUpdate lib c3 ct (int n) = (r4, o4, c4)" by (metis prod_cases3)
  obtain r5 c5 where 5: "Ctrl_set_tag lib c4 tag = (r5, c5)" by fastforce
  obtain r6 o6 c6 where 6: "DecryptFinal lib c5 = (r6, o6, c6)" by (metis prod_cases3)
  show ?thesis
  proof (cases "r1 \<noteq> 0 \<and> r2 \<noteq> 0 \<and> r3 \<noteq> 0")
    case False
    then have "\<not> set_tag_fails lib tag"
      using 1 2 3 unfolding set_tag_fails_def by (metis fst_conv)
    moreover have "\<exists>w. length w \<le> n \<and> out = w @ drop (length w) out" by (rule exI [of _ "[]"]) simp
    ultimately show ?thesis using False sizes by (auto simp: aes_gcm_decrypt_def Some 1 2 3)
  next
    case True
    have v2: "gv_key (view c2) = take 16 key" "gv_iv (view c2) = take 12 iv" "gv_aad (view c2) = []" "gv_ct (view c2) = []"
      using dec_key [OF 2] True sizes by simp_all
    have v3: "view c3 = (view c2)\<lparr>gv_aad := take aad_len aad\<rparr>"
      using dec_aad [OF 3] True sizes v2 by simp
    have o4: "length o4 \<le> n" and v4: "r4 \<noteq> 0 \<Longrightarrow> o4 = pt \<and> view c4 = (view c3)\<lparr>gv_ct := take n ct\<rparr>"
      using dec_data [OF 4] sizes v2 v3 by (simp_all add: pt_def)
    have pt: "length pt = n" using sizes by (simp add: pt_def)
    have v5: "r5 \<noteq> 0 \<Longrightarrow> view c5 = (view c4)\<lparr>gv_tag := take 16 tag\<rparr>" using dec_set_tag [OF 5] sizes by simp
    have o6: "o6 = []" and v6: "r5 \<noteq> 0 \<Longrightarrow> r4 \<noteq> 0 \<Longrightarrow> 0 < r6 \<longleftrightarrow> good"
      using dec_final [OF 6] v5 v4 v3 v2 by (simp_all add: good_def)
    show ?thesis
    proof (cases "r4 \<noteq> 0 \<and> r5 \<noteq> 0")
      case False
      have "set_tag_fails lib tag \<Longrightarrow> o4 = pt" using v4 4 unfolding set_tag_fails_def by (metis fst_conv)
      moreover have "aes_gcm_decrypt lib new_ctx key iv aad aad_len ct n tag out =
          Inr \<lparr>gcm_ret = -1, gcm_out = o4 @ drop (length o4) out, gcm_tag = tag, gcm_leaked = True\<rparr>"
        using False True sizes o4 by (auto simp: aes_gcm_decrypt_def Some 1 2 3 4 5)
      ultimately show ?thesis using o4 pt Some by auto
    next
      case ok: True
      then have "\<not> set_tag_fails lib tag" using 5 unfolding set_tag_fails_def by (metis fst_conv)
      with ok show ?thesis using True sizes v4 v6 o6 pt
        by (simp add: aes_gcm_decrypt_def Some 1 2 3 4 5 6)
    qed
  qed
qed

end

section \<open>A library whose calls succeed\<close>

definition evp_reliable :: "'c evp \<Rightarrow> bool" where
  "evp_reliable lib \<longleftrightarrow>
     (\<forall>c. fst (EncryptInit_cipher lib c) = 1 \<and> fst (EncryptFinal lib c) = 1 \<and> fst (Ctrl_get_tag lib c) = 1 \<and>
        fst (DecryptInit_cipher lib c) = 1) \<and>
     (\<forall>c k i. fst (EncryptInit_key lib c k i) = 1 \<and> fst (DecryptInit_key lib c k i) = 1) \<and>
     (\<forall>c d n. fst (EncryptUpdate_aad lib c d n) = 1 \<and> fst (EncryptUpdate lib c d n) = 1 \<and>
        fst (DecryptUpdate_aad lib c d n) = 1 \<and> fst (DecryptUpdate lib c d n) = 1) \<and>
     (\<forall>c t. fst (Ctrl_set_tag lib c t) = 1)"

lemma encrypt_reliable:
  assumes "evp_reliable lib" and "aes_gcm_encrypt lib (Some c) key iv aad a pt n ct tag = Inr e"
  shows "0 \<le> gcm_ret e"
  using assms by (fastforce simp: aes_gcm_encrypt_def evp_reliable_def bindE_Inr_iff split_beta Let_def split: if_splits)

lemma decrypt_reliable:
  assumes "evp_reliable lib" and "aes_gcm_decrypt lib (Some c) key iv aad a ct n tag out = Inr d"
  shows "\<not> gcm_leaked d"
  using assms by (fastforce simp: aes_gcm_decrypt_def evp_reliable_def bindE_Inr_iff split_beta Let_def split: if_splits)

context evp_gcm
begin

text \<open>With such a library the wrappers return what the contract says.\<close>

lemma encrypt_ok:
  assumes "evp_reliable lib" and "16 \<le> length key" "12 \<le> length iv" "aad_len \<le> length aad" "aad_len < 2 ^ 31"
    "n = length pt" "n < 2 ^ 31" "n = length ct" "16 \<le> length tag"
  obtains e where "aes_gcm_encrypt lib (Some c) key iv aad aad_len pt n ct tag = Inr e" "gcm_ret e = int n"
    "gcm_out e = xor_stream (ks (take 16 key) (take 12 iv)) pt"
    "gcm_tag e = auth (take 16 key) (take 12 iv) (take aad_len aad) (gcm_out e) @ drop 16 tag"
proof -
  obtain e where e: "aes_gcm_encrypt lib (Some c) key iv aad aad_len pt n ct tag = Inr e"
    "length (gcm_out e) = length ct"
    "gcm_ret e = -1 \<or> gcm_ret e = int n \<and> \<not> gcm_leaked e \<and>
     gcm_out e = xor_stream (ks (take 16 key) (take 12 iv)) (take n pt) @ drop n ct \<and>
     gcm_tag e = auth (take 16 key) (take 12 iv) (take aad_len aad) (take n (gcm_out e)) @ drop 16 tag"
    using encrypt_outcome [of key iv aad_len aad n pt ct tag "Some c"] assms(2-) by auto
  show ?thesis
    by (rule that [OF e(1)]) (use e encrypt_reliable [OF assms(1) e(1)] assms in auto)
qed

lemma decrypt_ok:
  assumes "evp_reliable lib" and "16 \<le> length key" "12 \<le> length iv" "aad_len \<le> length aad" "aad_len < 2 ^ 31"
    "n = length ct" "n < 2 ^ 31" "n = length out" "16 \<le> length tag"
  obtains d where "aes_gcm_decrypt lib (Some c) key iv aad aad_len ct n tag out = Inr d"
    "if take 16 tag = auth (take 16 key) (take 12 iv) (take aad_len aad) ct
     then gcm_ret d = int n \<and> gcm_out d = xor_stream (ks (take 16 key) (take 12 iv)) ct
     else gcm_ret d = -1 \<and> gcm_out d = replicate n 0"
proof -
  obtain d where d: "aes_gcm_decrypt lib (Some c) key iv aad aad_len ct n tag out = Inr d"
    "\<not> gcm_leaked d \<Longrightarrow> if take 16 tag = auth (take 16 key) (take 12 iv) (take aad_len aad) (take n ct) then gcm_ret d = int n \<and>
       gcm_out d = xor_stream (ks (take 16 key) (take 12 iv)) (take n ct) @ drop n out
     else gcm_ret d = -1 \<and> gcm_out d = replicate n 0 @ drop n out"
    using decrypt_outcome [of key iv aad_len aad n ct out tag "Some c"] assms(2-) by auto
  show ?thesis
    by (rule that [OF d(1)]) (use d(2) decrypt_reliable [OF assms(1) d(1)] assms in \<open>simp split: if_splits\<close>)
qed

text \<open>What is decrypted after a change of the ciphertext, the tag or the associated data.\<close>

lemma trip_issue:
  assumes rel: "evp_reliable lib" and sizes: "16 \<le> length key" "12 \<le> length iv" "length pt < 2 ^ 31" "16 \<le> length junk"
    and pt: "issue = CHANGE_CIPHER \<longrightarrow> pt \<noteq> []"
  defines "ct \<equiv> xor_stream (ks (take 16 key) (take 12 iv)) pt"
    and "mac \<equiv> auth (take 16 key) (take 12 iv)"
  shows "round_trip lib (Some c1) (Some c2) junk key iv pt (length pt) issue = Inr
    (case issue of
       NORMAL_TRIP \<Rightarrow> True
     | NORMAL_TRIP_WITH_AAD \<Rightarrow> True
     | CHANGE_CIPHER \<Rightarrow> ct ! 0 = 0
     | CHANGE_TAG \<Rightarrow> mac [] ct ! 0 = 1
     | CHANGE_AAD \<Rightarrow> mac [] ct = mac [1] ct)"
proof -
  let ?f = "ks (take 16 key) (take 12 iv)" and ?n = "length pt"
  let ?enc_aad = "if issue = NORMAL_TRIP_WITH_AAD then trip_aad else []"
  let ?dec_aad = "if issue = NORMAL_TRIP_WITH_AAD then trip_aad else if issue = CHANGE_AAD then [1] else []"
  have len: "length ct = ?n" "length (mac a d) = 16" for a d by (simp_all add: ct_def mac_def auth_len)
  obtain e where e: "aes_gcm_encrypt lib (Some c1) key iv ?enc_aad (length ?enc_aad) pt ?n (replicate ?n 0) junk = Inr e"
    "gcm_ret e = int ?n" "gcm_out e = ct" "gcm_tag e = mac ?enc_aad ct @ drop 16 junk"
    unfolding ct_def mac_def
    by (rule encrypt_ok [OF rel, of key iv "length ?enc_aad" ?enc_aad ?n pt "replicate ?n 0" junk c1])
      (use sizes in simp_all)
  define ct' where "ct' = (if issue = CHANGE_CIPHER then ct[0 := 0] else ct)"
  define tag' where "tag' = (if issue = CHANGE_TAG then (gcm_tag e)[0 := 1] else gcm_tag e)"
  have len': "length ct' = ?n" "16 \<le> length tag'" using e sizes by (simp_all add: ct'_def tag'_def len)
  obtain d where d: "aes_gcm_decrypt lib (Some c2) key iv ?dec_aad (length ?dec_aad) ct' ?n tag' (replicate ?n 0) = Inr d"
    "if take 16 tag' = mac ?dec_aad ct' then gcm_ret d = int ?n \<and> gcm_out d = xor_stream ?f ct'
     else gcm_ret d = -1 \<and> gcm_out d = replicate ?n 0"
    unfolding mac_def
    by (rule decrypt_ok [OF rel, of key iv "length ?dec_aad" ?dec_aad ?n ct' "replicate ?n 0" tag' c2])
      (use sizes len' in simp_all)
  have dec: "(if issue = NORMAL_TRIP_WITH_AAD then aes_gcm_decrypt lib (Some c2) key iv trip_aad 8 ct' ?n tag' (replicate ?n 0)
      else if issue = CHANGE_AAD then aes_gcm_decrypt lib (Some c2) key iv [1] 1 ct' ?n tag' (replicate ?n 0)
      else aes_gcm_decrypt lib (Some c2) key iv [] 0 ct' ?n tag' (replicate ?n 0)) = Inr d"
    using d(1) by (simp split: if_splits)
  have enc: "(if issue = NORMAL_TRIP_WITH_AAD then aes_gcm_encrypt lib (Some c1) key iv trip_aad 8 pt ?n (replicate ?n 0) junk
      else aes_gcm_encrypt lib (Some c1) key iv [] 0 pt ?n (replicate ?n 0) junk) = Inr e"
    using e(1) by (simp split: if_splits)
  have w: "(if issue = CHANGE_CIPHER then wr ct 0 0 else Inr ct) = Inr ct'"
      "(if issue = CHANGE_TAG then wr (gcm_tag e) 0 1 else Inr (gcm_tag e)) = Inr tag'"
    using pt len e(4) by (auto simp: ct'_def tag'_def wr_def)
  have tail: "(if gcm_ret d < 0 then Inr False else if gcm_ret d \<noteq> int ?n then Inr False
      else bindE (rd_bytes pt 0 ?n) (\<lambda>a. bindE (rd_bytes (gcm_out d) 0 ?n) (\<lambda>b. Inr (a = b)))) =
      (Inr (take 16 tag' = mac ?dec_aad ct' \<and> xor_stream ?f ct' = pt) :: bool c_res)"
  proof (cases "take 16 tag' = mac ?dec_aad ct'")
    case True
    then have "gcm_ret d = int ?n" "gcm_out d = xor_stream ?f ct'" using d(2) by argo+
    moreover have "rd_bytes pt 0 ?n = Inr pt" "rd_bytes (xor_stream ?f ct') 0 ?n = Inr (xor_stream ?f ct')"
      using len' by (simp_all add: rd_bytes_def)
    ultimately show ?thesis using True by auto
  next
    case False
    then have "gcm_ret d = -1" using d(2) by argo
    then show ?thesis using False by simp
  qed
  have "round_trip lib (Some c1) (Some c2) junk key iv pt ?n issue =
      Inr (take 16 tag' = mac ?dec_aad ct' \<and> xor_stream ?f ct' = pt)"
    unfolding round_trip_def Let_def enc bindE_simps e(2,3) w nat_int dec tail by simp
  also have "(take 16 tag' = mac ?dec_aad ct' \<and> xor_stream ?f ct' = pt) = (case issue of
       NORMAL_TRIP \<Rightarrow> True
     | NORMAL_TRIP_WITH_AAD \<Rightarrow> True
     | CHANGE_CIPHER \<Rightarrow> ct ! 0 = 0
     | CHANGE_TAG \<Rightarrow> mac [] ct ! 0 = 1
     | CHANGE_AAD \<Rightarrow> mac [] ct = mac [1] ct)"
  proof (cases issue)
    case CHANGE_CIPHER
    have "xor_stream ?f (ct[0 := 0]) = pt \<longleftrightarrow> ct[0 := 0] = ct"
      unfolding ct_def by (metis xor_stream_twice)
    moreover have "ct[0 := 0] = ct \<longleftrightarrow> ct ! 0 = 0"
      using pt CHANGE_CIPHER len(1) by (cases ct) auto
    ultimately show ?thesis using CHANGE_CIPHER e(4) len by (auto simp: ct'_def tag'_def)
  next
    case CHANGE_TAG
    have "take 16 tag' = (mac [] ct)[0 := 1]"
      using CHANGE_TAG e(4) len by (simp add: tag'_def list_update_append take_update_swap)
    moreover have "(mac [] ct)[0 := 1] = mac [] ct \<longleftrightarrow> mac [] ct ! 0 = 1"
      using len(2) [of "[]" ct] by (cases "mac [] ct") auto
    ultimately show ?thesis using CHANGE_TAG by (simp add: ct'_def ct_def)
  qed (use e(4) len in \<open>simp_all add: ct'_def tag'_def ct_def\<close>)
  finally show ?thesis .
qed

lemma reuse_recovers:
  assumes rel: "evp_reliable lib" and sizes: "16 \<le> length key" "12 \<le> length iv" "16 \<le> length junk"
    and msgs: "length m1 = 16" "length m2 = 16"
  shows "nonce_reuse lib (Some c1) (Some c2) junk key iv m1 m2 = Inr True"
proof -
  let ?f = "ks (take 16 key) (take 12 iv)"
  obtain e1 where e1: "aes_gcm_encrypt lib (Some c1) key iv [] 0 m1 (length m1) (replicate 16 0) junk = Inr e1"
    "gcm_out e1 = xor_stream ?f m1" "gcm_tag e1 = auth (take 16 key) (take 12 iv) [] (gcm_out e1) @ drop 16 junk"
    by (rule encrypt_ok [OF rel, of key iv 0 "[]" "length m1" m1 "replicate 16 0" junk c1]) (use sizes msgs in simp_all)
  obtain e2 where e2: "aes_gcm_encrypt lib (Some c2) key iv [] 0 m2 (length m2) (replicate 16 0) (gcm_tag e1) = Inr e2"
    "gcm_out e2 = xor_stream ?f m2"
    by (rule encrypt_ok [OF rel, of key iv 0 "[]" "length m2" m2 "replicate 16 0" "gcm_tag e1" c2])
      (use sizes msgs e1(3) auth_len in simp_all)
  have "mapE (\<lambda>i. bindE (rd (gcm_out e1) i) (\<lambda>a. bindE (rd (gcm_out e2) i) (\<lambda>b.
      bindE (rd m1 i) (\<lambda>m. Inr (a XOR b XOR m))))) [0..<16] = Inr m2"
  proof (subst mapE_Inr_iff, intro conjI allI impI)
    fix i assume "i < length [0::nat..<16]"
    moreover have "(x XOR k) XOR (y XOR k) XOR x = y" for x y k :: byte
      by (rule bit_word_eqI) (auto simp: bit_simps)
    ultimately show "bindE (rd (gcm_out e1) ([0..<16] ! i)) (\<lambda>a. bindE (rd (gcm_out e2) ([0..<16] ! i)) (\<lambda>b.
        bindE (rd m1 ([0..<16] ! i)) (\<lambda>m. Inr (a XOR b XOR m)))) = Inr (m2 ! i)"
      using msgs by (simp add: rd_ok e1(2) e2(2) xor_stream_def)
  qed (use msgs in simp)
  then show ?thesis using msgs by (simp add: nonce_reuse_def e1(1) [unfolded msgs] e2(1) [unfolded msgs] rd_bytes_def)
qed

end

section \<open>An implementation of the contract\<close>

text \<open>The calls over an arbitrary keystream and tag function; the context is its view.\<close>

definition gcm_lib ::
    "(byte list \<Rightarrow> byte list \<Rightarrow> nat \<Rightarrow> byte) \<Rightarrow> (byte list \<Rightarrow> byte list \<Rightarrow> byte list \<Rightarrow> byte list \<Rightarrow> byte list) \<Rightarrow> gcm_view evp" where
  "gcm_lib ks auth =
     (let keyed = (\<lambda>k i. \<lparr>gv_key = take 16 k, gv_iv = take 12 i, gv_aad = [], gv_ct = [], gv_tag = []\<rparr>);
          stream = (\<lambda>c. xor_stream (\<lambda>i. ks (gv_key c) (gv_iv c) (length (gv_ct c) + i)));
          mac = (\<lambda>c. auth (gv_key c) (gv_iv c) (gv_aad c) (gv_ct c));
          aad = (\<lambda>c a n. (1, c\<lparr>gv_aad := gv_aad c @ take (nat n) a\<rparr>))
      in \<lparr>EncryptInit_cipher = Pair 1, EncryptInit_key = (\<lambda>c k i. (1, keyed k i)), EncryptUpdate_aad = aad,
          EncryptUpdate = (\<lambda>c d n. let out = stream c (take (nat n) d) in (1, out, c\<lparr>gv_ct := gv_ct c @ out\<rparr>)),
          EncryptFinal = (\<lambda>c. (1, [], c)), Ctrl_get_tag = (\<lambda>c. (1, mac c, c)),
          DecryptInit_cipher = Pair 1, DecryptInit_key = (\<lambda>c k i. (1, keyed k i)), DecryptUpdate_aad = aad,
          DecryptUpdate = (\<lambda>c d n. (1, stream c (take (nat n) d), c\<lparr>gv_ct := gv_ct c @ take (nat n) d\<rparr>)),
          Ctrl_set_tag = (\<lambda>c t. (1, c\<lparr>gv_tag := take 16 t\<rparr>)),
          DecryptFinal = (\<lambda>c. (if gv_tag c = mac c then 1 else 0, [], c))\<rparr>)"

lemma gcm_lib_contract:
  assumes "\<And>k i a d. length (auth k i a d) = 16"
  shows "evp_gcm (gcm_lib ks auth) id ks auth"
  by unfold_locales (auto simp: gcm_lib_def Let_def assms split: if_splits)

subsection \<open>AES-128 (FIPS 197) and GCM (SP 800-38D)\<close>

definition gf_double :: "byte \<Rightarrow> byte" where
  "gf_double b = push_bit 1 b XOR (if bit b 7 then 0x1b else 0)"

fun gf_times :: "nat \<Rightarrow> byte \<Rightarrow> byte \<Rightarrow> byte" where
  "gf_times 0 a b = 0"
| "gf_times (Suc k) a b = (if bit a 0 then b else 0) XOR gf_times k (drop_bit 1 a) (gf_double b)"

fun gf_power :: "nat \<Rightarrow> byte \<Rightarrow> byte" where
  "gf_power 0 b = 1"
| "gf_power (Suc k) b = gf_times 8 b (gf_power k b)"

definition aes_sbox :: "byte \<Rightarrow> byte" where
  "aes_sbox b = (let x = gf_power 254 b in
     x XOR word_rotl 1 x XOR word_rotl 2 x XOR word_rotl 3 x XOR word_rotl 4 x XOR 0x63)"

fun aes_expand :: "nat \<Rightarrow> byte \<Rightarrow> byte list list \<Rightarrow> byte list list" where
  "aes_expand 0 rcon ws = ws"
| "aes_expand (Suc k) rcon ws =
     (let i = length ws; t = last ws; turn = (i mod 4 = 0);
          t = (if turn then map2 (XOR) [rcon, 0, 0, 0] (map aes_sbox (rotate1 t)) else t)
      in aes_expand k (if turn then gf_double rcon else rcon) (ws @ [map2 (XOR) (ws ! (i - 4)) t]))"

definition aes_keys :: "byte list \<Rightarrow> byte list list" where
  "aes_keys key =
     (let ws = aes_expand 40 1 (map (\<lambda>i. take 4 (drop (4 * i) key)) [0..<4])
      in map (\<lambda>i. concat (take 4 (drop (4 * i) ws))) [0..<11])"

definition shift_rows :: "byte list \<Rightarrow> byte list" where
  "shift_rows s = map (\<lambda>i. s ! ((i + 4 * (i mod 4)) mod 16)) [0..<16]"

definition mix_columns :: "byte list \<Rightarrow> byte list" where
  "mix_columns s = map (\<lambda>i. let at = (\<lambda>k. s ! (4 * (i div 4) + (i + k) mod 4))
     in gf_times 8 2 (at 0) XOR gf_times 8 3 (at 1) XOR at 2 XOR at 3) [0..<16]"

definition aes128 :: "byte list \<Rightarrow> byte list \<Rightarrow> byte list" where
  "aes128 key block =
     (let ks = aes_keys key;
          s = fold (\<lambda>k s. map2 (XOR) (mix_columns (shift_rows (map aes_sbox s))) k) (take 9 (tl ks)) (map2 (XOR) block (hd ks))
      in map2 (XOR) (shift_rows (map aes_sbox s)) (last ks))"

definition aes_ctr_stream :: "byte list \<Rightarrow> byte list \<Rightarrow> nat \<Rightarrow> byte" where
  "aes_ctr_stream key iv i = aes128 key (iv @ be32_bytes (of_nat (i div 16 + 2))) ! (i mod 16)"

definition be128_of :: "byte list \<Rightarrow> 128 word" where
  "be128_of = foldl (\<lambda>w b. push_bit 8 w OR ucast b) 0"

definition be128_bytes :: "128 word \<Rightarrow> byte list" where
  "be128_bytes w = map (\<lambda>i. ucast (drop_bit (8 * i) w)) (rev [0..<16])"

fun gf128_times :: "nat \<Rightarrow> 128 word \<Rightarrow> 128 word \<Rightarrow> 128 word" where
  "gf128_times 0 x v = 0"
| "gf128_times (Suc k) x v =
     (if bit x k then v else 0) XOR gf128_times k x (drop_bit 1 v XOR (if bit v 0 then push_bit 120 0xe1 else 0))"

function ghash_blocks :: "128 word \<Rightarrow> 128 word \<Rightarrow> byte list \<Rightarrow> 128 word" where
  "ghash_blocks h y bs =
     (if bs = [] then y
      else ghash_blocks h (gf128_times 128 (y XOR be128_of (take 16 (bs @ replicate 16 0))) h) (drop 16 bs))"
  by pat_completeness auto
termination by (relation "measure (\<lambda>(h, y, bs). length bs)") auto

declare ghash_blocks.simps [simp del]

definition gcm_auth :: "byte list \<Rightarrow> byte list \<Rightarrow> byte list \<Rightarrow> byte list \<Rightarrow> byte list" where
  "gcm_auth key iv aad ct =
     (let h = be128_of (aes128 key (replicate 16 0));
          y = ghash_blocks h (ghash_blocks h 0 aad) ct;
          l = push_bit 64 (of_nat (8 * length aad)) OR of_nat (8 * length ct);
          y = gf128_times 128 (y XOR l) h
      in be128_bytes (y XOR be128_of (aes128 key (iv @ be32_bytes 1))))"

definition aes_gcm_lib :: "gcm_view evp" where
  "aes_gcm_lib = gcm_lib aes_ctr_stream gcm_auth"

interpretation gcm: evp_gcm aes_gcm_lib id aes_ctr_stream gcm_auth
  unfolding aes_gcm_lib_def by (rule gcm_lib_contract) (simp add: gcm_auth_def Let_def be128_bytes_def)

definition blank_view :: gcm_view where
  "blank_view = \<lparr>gv_key = [], gv_iv = [], gv_aad = [], gv_ct = [], gv_tag = []\<rparr>"

lemma aes_gcm_lib_reliable: "evp_reliable aes_gcm_lib"
  by (simp add: evp_reliable_def aes_gcm_lib_def gcm_lib_def Let_def)

section \<open>Properties\<close>

lemma length_main_data [simp]: "length main_key = 32" "length main_iv = 12" "length msg1 = 16" "length msg2 = 47"
    "length msg4 = 16" "length msg5 = 16"
  by (simp_all add: main_key_def main_iv_def msg1_def msg2_def msg4_def msg5_def)

text \<open>
  The output of \<open>main\<close>: the four untouched trips succeed and the second message is recovered.
  The three negative tests are decided by one byte of the ciphertext, one byte of the tag, and the tag.
\<close>

lemma gcm_main_output:
  fixes ctx :: "nat \<Rightarrow> 'c"
  assumes lib: "evp_gcm lib view ks auth" "evp_reliable lib" and junk: "\<And>i. 16 \<le> length (junk i)"
  defines "c \<equiv> xor_stream (ks (take 16 main_key) main_iv) msg2" and "mac \<equiv> auth (take 16 main_key) main_iv"
  shows "gcm_main lib (\<lambda>i. Some (ctx i)) junk = Inr
    [''msg0 round-trip: OK'', ''msg1 round-trip: OK'', ''msg2 round-trip: OK'',
     trip_line ''msg2 round-trip (WRONG CYPHERTEXT - FAIL): '' (c ! 0 = 0),
     trip_line ''msg2 round-trip (WRONG TAG - FAIL): '' (mac [] c ! 0 = 1),
     trip_line ''msg2 round-trip (WRONG AAD - FAIL): '' (mac [] c = mac [1] c),
     ''msg2 round-trip (WITH AAD - OK): OK'', ''nonce reuse recovered: YES'']"
proof -
  have trip: "round_trip lib (Some x) (Some y) (junk i) main_key main_iv m (length m) issue = Inr
      (case issue of NORMAL_TRIP \<Rightarrow> True | NORMAL_TRIP_WITH_AAD \<Rightarrow> True
       | CHANGE_CIPHER \<Rightarrow> xor_stream (ks (take 16 main_key) (take 12 main_iv)) m ! 0 = 0
       | CHANGE_TAG \<Rightarrow> auth (take 16 main_key) (take 12 main_iv) [] (xor_stream (ks (take 16 main_key) (take 12 main_iv)) m) ! 0 = 1
       | CHANGE_AAD \<Rightarrow> auth (take 16 main_key) (take 12 main_iv) [] (xor_stream (ks (take 16 main_key) (take 12 main_iv)) m) =
           auth (take 16 main_key) (take 12 main_iv) [1] (xor_stream (ks (take 16 main_key) (take 12 main_iv)) m))"
    if "length m < 2 ^ 31" "issue = CHANGE_CIPHER \<longrightarrow> m \<noteq> []" for x y i m issue
    by (rule evp_gcm.trip_issue [OF lib]) (use junk that in simp_all)
  have "nonce_reuse lib (Some x) (Some y) (junk i) main_key main_iv msg4 msg5 = Inr True" for x y i
    by (rule evp_gcm.reuse_recovers [OF lib]) (use junk in simp_all)
  note reuse = this
  have ne: "msg1 \<noteq> []" "msg2 \<noteq> []" by (simp_all add: msg1_def msg2_def)
  note t1 = trip [of msg1 NORMAL_TRIP, simplified] and t2 = trip [of msg2, simplified length_main_data, simplified ne, simplified]
  note t0 = trip [of "[]" NORMAL_TRIP, simplified]
  show ?thesis
    by (simp add: gcm_main_def t0 t1 t2 reuse c_def mac_def) (simp add: trip_line_def)
qed

text \<open>
  C20: What a round trip through the wrappers reports.  For every key, nonce and message below 2 GiB, an
  unchanged message comes back whole, with and without associated data; a changed ciphertext, tag or
  associated data is refused, except where the test's change is none: the byte it writes was already there, or the
  two tags coincide.
\<close>

theorem gcm_round_trip_outcome:
  assumes "evp_gcm lib view ks auth" and "evp_reliable lib"
    and "16 \<le> length key" "12 \<le> length iv" "length pt < 2 ^ 31" "16 \<le> length junk"
    and "issue = CHANGE_CIPHER \<longrightarrow> pt \<noteq> []"
  shows "round_trip lib (Some c1) (Some c2) junk key iv pt (length pt) issue = Inr
    (let ct = xor_stream (ks (take 16 key) (take 12 iv)) pt; mac = auth (take 16 key) (take 12 iv) in
     case issue of
       NORMAL_TRIP \<Rightarrow> True
     | NORMAL_TRIP_WITH_AAD \<Rightarrow> True
     | CHANGE_CIPHER \<Rightarrow> ct ! 0 = 0
     | CHANGE_TAG \<Rightarrow> mac [] ct ! 0 = 1
     | CHANGE_AAD \<Rightarrow> mac [] ct = mac [1] ct)"
  unfolding Let_def by (rule evp_gcm.trip_issue [OF assms])

theorem gcm_round_trip_outcome_witness:
  "round_trip aes_gcm_lib (Some blank_view) (Some blank_view) (replicate 16 7) main_key main_iv msg2 (length msg2)
     NORMAL_TRIP_WITH_AAD = Inr True"
  using gcm_round_trip_outcome [OF gcm.evp_gcm_axioms aes_gcm_lib_reliable, of main_key main_iv msg2 "replicate 16 7"
      NORMAL_TRIP_WITH_AAD blank_view blank_view] by simp

text \<open>
  C16: What decryption returns and what it leaves in the output, however the EVP calls answer.  It
  never leaves its buffers.  When the final check is reached, the result is the length and the output
  the plaintext for the tag of key, nonce, associated data and ciphertext; for any other tag the
  result is -1 and the output is zero.  When an earlier call fails the result is -1, but nothing is
  cleared: the output is what the failing calls have written, at most \<open>n\<close> bytes of it.  In particular, when
  setting the tag fails the whole plaintext stays in the output, whatever the tag was.
\<close>

theorem aes_gcm_decrypt_authentic:
  assumes "evp_gcm lib view ks auth"
    and "16 \<le> length key" "12 \<le> length iv" "aad_len \<le> length aad" "aad_len < 2 ^ 31"
    and "n \<le> length ct" "n < 2 ^ 31" "n \<le> length out" "16 \<le> length tag"
  shows "\<exists>d. aes_gcm_decrypt lib new_ctx key iv aad aad_len ct n tag out = Inr d \<and>
    (if new_ctx = None then gcm_ret d = -1 \<and> gcm_out d = out
     else if gcm_leaked d then gcm_ret d = -1 \<and> (\<exists>w. length w \<le> n \<and> gcm_out d = w @ drop (length w) out)
     else if take 16 tag = auth (take 16 key) (take 12 iv) (take aad_len aad) (take n ct)
     then gcm_ret d = int n \<and> gcm_out d = xor_stream (ks (take 16 key) (take 12 iv)) (take n ct) @ drop n out
     else gcm_ret d = -1 \<and> gcm_out d = replicate n 0 @ drop n out) \<and>
    (new_ctx \<noteq> None \<and> set_tag_fails lib tag \<longrightarrow> gcm_leaked d \<and> gcm_ret d = -1 \<and>
       gcm_out d = xor_stream (ks (take 16 key) (take 12 iv)) (take n ct) @ drop n out)"
  by (rule evp_gcm.decrypt_outcome [OF assms])

text \<open>
  The right tag, a wrong tag, and a wrong tag that cannot be set.  The keystream and the tags are
  constant here, so that the three outputs are visible.
\<close>

theorem aes_gcm_decrypt_authentic_witness:
  "let lib = gcm_lib (\<lambda>_ _ _. 0xFF) (\<lambda>_ _ _ _. replicate 16 7);
       run = (\<lambda>lib tag. aes_gcm_decrypt lib (Some blank_view) main_key main_iv [] 0 [0x0F, 0xF0] 2 tag [9, 9, 9])
   in (\<exists>d. run lib (replicate 16 7) = Inr d \<and> gcm_ret d = 2 \<and> gcm_out d = [0xF0, 0x0F, 9]) \<and>
      (\<exists>d. run lib (replicate 16 8) = Inr d \<and> gcm_ret d = -1 \<and> gcm_out d = [0, 0, 9]) \<and>
      (\<exists>d. run (lib\<lparr>Ctrl_set_tag := \<lambda>c t. (0, c)\<rparr>) (replicate 16 8) = Inr d \<and> gcm_ret d = -1 \<and>
         gcm_out d = [0xF0, 0x0F, 9])"
proof -
  define ks :: "byte list \<Rightarrow> byte list \<Rightarrow> nat \<Rightarrow> byte" where "ks = (\<lambda>_ _ _. 0xFF)"
  define auth :: "byte list \<Rightarrow> byte list \<Rightarrow> byte list \<Rightarrow> byte list \<Rightarrow> byte list"
    where "auth = (\<lambda>_ _ _ _. replicate 16 7)"
  define lib where "lib = gcm_lib ks auth"
  define bad where "bad = lib\<lparr>Ctrl_set_tag := \<lambda>c t. (0, c)\<rparr>"
  have law: "evp_gcm lib id ks auth" unfolding lib_def by (rule gcm_lib_contract) (simp add: auth_def)
  have law': "evp_gcm bad id ks auth"
    by unfold_locales (auto simp: bad_def lib_def gcm_lib_def Let_def auth_def split: if_splits)
  have fails: "set_tag_fails bad t" for t by (simp add: set_tag_fails_def bad_def lib_def gcm_lib_def Let_def)
  have reliable: "evp_reliable lib" by (simp add: evp_reliable_def lib_def gcm_lib_def Let_def)
  have stream: "xor_stream (ks k i) [0x0F, 0xF0] = [0xF0, 0x0F]" for k i by (simp add: xor_stream_def upt_rec ks_def)
  have tags: "replicate 16 7 = auth k i a c" "replicate 16 8 \<noteq> auth k i a c" for k i a c
    by (simp_all add: auth_def replicate_eq_replicate)
  let ?run = "\<lambda>lib tag. aes_gcm_decrypt lib (Some blank_view) main_key main_iv [] 0 [0x0F, 0xF0] 2 tag [9, 9, 9]"
  have two: "replicate 2 (0 :: byte) = [0, 0]" by (simp add: numeral_2_eq_2)
  note run = aes_gcm_decrypt_authentic [where key = main_key and iv = main_iv and aad_len = 0 and aad = "[]"
      and n = 2 and ct = "[0x0F, 0xF0]" and out = "[9, 9, 9]" and new_ctx = "Some blank_view"]
  obtain d1 where d1: "?run lib (replicate 16 7) = Inr d1"
    "\<not> gcm_leaked d1 \<longrightarrow> gcm_ret d1 = 2 \<and> gcm_out d1 = [0xF0, 0x0F, 9]"
    using run [OF law, of "replicate 16 7"] by (auto simp: stream tags(1))
  obtain d2 where d2: "?run lib (replicate 16 8) = Inr d2"
    "\<not> gcm_leaked d2 \<longrightarrow> gcm_ret d2 = -1 \<and> gcm_out d2 = [0, 0, 9]"
    using run [OF law, of "replicate 16 8"] tags(2) two by auto
  obtain d3 where d3: "?run bad (replicate 16 8) = Inr d3" "gcm_ret d3 = -1 \<and> gcm_out d3 = [0xF0, 0x0F, 9]"
    using run [OF law', of "replicate 16 8"] by (auto simp: stream fails)
  from d1 d2 d3 show ?thesis
    using decrypt_reliable [OF reliable d1(1)] decrypt_reliable [OF reliable d2(1)]
    unfolding bad_def lib_def ks_def auth_def Let_def by blast
qed

text \<open>
  C22: Reusing a nonce gives the second message away: for every key, every nonce and all messages of 16
  bytes, the exclusive or of the two ciphertexts and the first message, which is what \<open>main\<close> computes,
  is the second message.
\<close>

theorem gcm_nonce_reuse_recovers:
  assumes "evp_gcm lib view ks auth" and "evp_reliable lib"
    and "16 \<le> length key" "12 \<le> length iv" "16 \<le> length junk" and "length m1 = 16" "length m2 = 16"
  shows "nonce_reuse lib (Some c1) (Some c2) junk key iv m1 m2 = Inr True"
  by (rule evp_gcm.reuse_recovers [OF assms])

theorem gcm_nonce_reuse_recovers_witness:
  "nonce_reuse aes_gcm_lib (Some blank_view) (Some blank_view) (replicate 16 7) main_key main_iv msg4 msg5 = Inr True"
  by (rule gcm_nonce_reuse_recovers [OF gcm.evp_gcm_axioms aes_gcm_lib_reliable]) simp_all

end
