(* ===== verification/Spec2Isabelle.thy ===== *)
theory Spec2Isabelle
  imports Arena Dns_Parse Coroutines Jit Reactor Elf_Inspect Value_Printer Ring_Buffer Lsm_Tree Bloom_Filter Length_Extension Treiber_Stack Aes_Gcm
begin

text \<open>
  A verification library for the programs of the \<^emph>\<open>swe-daily-challenge\<close> repository.

  The repository is a collection of thirteen self-contained systems programs, in C, C++ and Rust.  They
  share no code and do not call each other, so each has a theory of its own; what the theories share is
  in \<^verbatim>\<open>Prelude\<close> and \<^verbatim>\<open>Printf\<close>.  Paths below are relative to \<^verbatim>\<open>src/\<close>.

  \<^bold>\<open>Shared theories.\<close>
  \<^item> \<^verbatim>\<open>Prelude\<close>: machine types, the error sum \<open>c_res\<close> whose left values are the ways to leave the defined
    behaviour of C, checked array accesses, byte orders, and the locale \<open>field_codec\<close> of fixed-width fields
    with its five interpretations.
  \<^item> \<^verbatim>\<open>Printf\<close>: the conversions of \<open>printf\<close> the programs use, and strings as bytes.

  \<^bold>\<open>Programs.\<close>
  \<^item> \<^verbatim>\<open>Arena\<close> (\<^verbatim>\<open>01-arena_allocator\<close>): the bump allocator on 64-bit words and its stress test.  Blocks are
    aligned, disjoint and inside the region for every list of admissible requests, answered without any check by the
    client; \<open>arena_alloc\<close> refines the rounded-up cursor; the size check wraps for requests near \<open>2 ^ 64\<close>.
  \<^item> \<^verbatim>\<open>Treiber_Stack\<close> (\<^verbatim>\<open>02-treiber_lock_free_stack\<close>): \<open>push\<close>, \<open>pop\<close>, the destructor and the stress test, one
    shared-memory access per step, in any interleaving and with exchanges that fail for no cause.  The invariant says that
    the allocated nodes are those of the stack, of the trash and in the hands of the threads, each once; from it follow
    the refinement of an atomic stack (locale \<open>forward_simulation\<close>, interpreted on the program), absence of accesses to
    free memory, completeness of the destructor, exactly-once delivery and progress of a thread that runs alone.
  \<^item> \<^verbatim>\<open>Aes_Gcm\<close> (\<^verbatim>\<open>03-aes_gcm_AEAD_nonce_reuse\<close>): the two wrappers with every error return, over the EVP calls as a
    parameter with the contract \<open>evp_gcm\<close>, which AES-128-GCM meets: round trips, nonce reuse, and what a decryption returns and leaves in its output
    whichever call fails; the plaintext stays there when setting the tag fails.
  \<^item> \<^verbatim>\<open>Dns_Encode\<close> and \<^verbatim>\<open>Dns_Parse\<close> (\<^verbatim>\<open>04-dns_query\<close>): building the query and reading the response, against an
    RFC 1035 encoding; where the reads of the parser end, and the labels and names that overflow the encoder.
  \<^item> \<^verbatim>\<open>Value_Printer\<close> (\<^verbatim>\<open>05-gdb_python_pretty_printer\<close>): the tagged union as bytes and the GDB printer over it.
    The charset in which GDB decodes a string, which may refuse its bytes, is a parameter with UTF-8 as an instance.
  \<^item> \<^verbatim>\<open>Reactor\<close> (\<^verbatim>\<open>06-epoll_reactor\<close>): the event loop over the system calls as a parameter with the contract
    \<open>socket_kernel\<close>, in which events arise only as the registered masks ask for, met by an executable kernel; the
    endless loop is a step relation, and under edge triggering no wake-up is lost in any reachable state.  The handler of
    a client is described for every amount of data, room to send and contents of its buffer.
  \<^item> \<^verbatim>\<open>Jit\<close> (\<^verbatim>\<open>07-JIT\<close>): the bytes that are emitted, decoded and executed on a subset of IA-32.
  \<^item> \<^verbatim>\<open>Lsm_Tree\<close> (\<^verbatim>\<open>08-LSM_tree\<close>): memtable, tables on disk, flush, search and reopening, as an implementation of a
    finite map for non-empty values; reopening recovers the map that the specification \<open>durable_step\<close> calls saved, and
    a put of the empty value deletes.
  \<^item> \<^verbatim>\<open>Coroutines\<close> (\<^verbatim>\<open>09-stackful_croutines_ucontext_t\<close>): contexts as suspended computations; the scheduler refines
    round robin, ends, and frees every stack.
  \<^item> \<^verbatim>\<open>Length_Extension\<close> (\<^verbatim>\<open>10-HMAC_length_extension\<close>): server and attack over the SHA-256 calls as a parameter
    with the contract \<open>sha256_lib\<close>, which SHA-256 meets.  The forgery is accepted for every key, message and
    extension below 512 MiB; beyond, the padding of the attack differs from that of the hash.
  \<^item> \<^verbatim>\<open>Bloom_Filter\<close> (\<^verbatim>\<open>11-bloom_filter\<close>): hashes, filter and experiment; the interface is the locale
    \<open>membership_filter\<close>.  Floating-point operations are a parameter of which nothing is assumed.
  \<^item> \<^verbatim>\<open>Elf_Inspect\<close> (\<^verbatim>\<open>12-elf-inspector\<close>): the listings for every well-formed file, the refusals, and the reads
    outside the mapping that a malformed file provokes.
  \<^item> \<^verbatim>\<open>Ring_Buffer\<close> (\<^verbatim>\<open>13-heap_ring_buffer\<close>): the slots as options, so that moves and drops are checked;
    refinement of a bounded queue.

  \<^bold>\<open>Conventions.\<close>  Machine integers keep their width where overflow matters and are natural numbers where the code
  keeps them in range.  A pointer to an array is the array; an access outside it, to freed memory or through a null pointer is
  a value \<open>Inl\<close>, and a theorem that an operation returns \<open>Inr\<close> says that it does not happen.  System calls,
  OpenSSL and floating point are parameters; each contract on a parameter is a locale with an
  interpretation that meets it.  Loops are recursions with termination proofs: there is no fuel in the models, except where a
  bound is stated as such.  Loops that may not end are step relations (the reactor, the threads of the stack) or
  \<open>partial_function\<close>s, whose return is part of what is proved of them: the scheduler, the loops of the
  reactor and of the name encoder, the destructor of the stack.

  \<^bold>\<open>Not modelled.\<close>  The weak memory orders of the lock-free stack: its interleavings are sequentially
  consistent, and the data races of the code under the C++ memory model are noted as findings.  The internals of OpenSSL
  and of the operating system.  IEEE rounding.  Messages on the error stream of the AES program.  The registration of the
  pretty-printer with GDB.  The Markdown statements of the exercises and the build files, which hold no code.
\<close>

end
